(* ===== verification/Prelude.thy ===== *)
theory Prelude
  imports Main "HOL-Library.Word"
begin

text \<open>
  What every component of the development shares: the machine integers of the code as words, the
  big-endian readers and writers the wire formats are built from (\<open>write_u16\<close>, \<open>write_u32\<close>,
  \<open>read_u16\<close>, \<open>read_u32\<close> of the RTCP and STUN sources), the operations of \<open>std::vector<uint8_t>\<close>
  the code uses (\<open>resize\<close>, \<open>memcpy\<close> into a position, the byte-wise XOR loop), and the named
  theorem collections that the component proofs simplify with.
\<close>

unbundle bit_operations_syntax

type_synonym u8 = "8 word"
type_synonym u16 = "16 word"
type_synonym u32 = "32 word"
type_synonym u64 = "64 word"
type_synonym bytes = "u8 list"

named_theorems wire_simps "reading back what a writer has written"
named_theorems vec_simps "lengths and elements of vectors after an update"

section \<open>Bounds of the integer types\<close>

lemma unat_u8_bound [simp]: "unat (w :: u8) < 256"
  using unsigned_less [of w] by simp

lemma unat_u16_bound [simp]: "unat (w :: u16) < 65536"
  using unsigned_less [of w] by simp

lemma unat_u32_bound [simp]: "unat (w :: u32) < 4294967296"
  using unsigned_less [of w] by simp

lemma unat_u64_bound [simp]: "unat (w :: u64) < 18446744073709551616"
  using unsigned_less [of w] by simp

lemma unat_of_nat_u16: "n < 65536 \<Longrightarrow> unat (of_nat n :: u16) = n"
  by (simp add: unat_of_nat)

lemma unat_of_nat_u64: "n < 2 ^ 64 \<Longrightarrow> unat (of_nat n :: u64) = n"
  by (simp add: unat_of_nat)

text \<open>An addition that stays below \<open>2^16\<close> does not wrap.\<close>

lemma uint_add_small:
  fixes a :: u16
  assumes "uint a + int k < 65536"
  shows "uint (a + of_nat k) = uint a + int k"
proof -
  have "a + of_nat k = word_of_int (uint a + int k)" by simp
  then have "uint (a + of_nat k) = (uint a + int k) mod 65536"
    by (simp only: uint_word_of_int) (simp add: take_bit_eq_mod)
  then show ?thesis using assms by simp
qed

section \<open>Big-endian integers\<close>

text \<open>\<open>(w >> 8 * k) & 0xFF\<close>, stored into a \<open>uint8_t\<close>.\<close>

definition byte_at :: "nat \<Rightarrow> 'a::len word \<Rightarrow> u8" where
  "byte_at k w = ucast (drop_bit (8 * k) w AND 0xFF)"

definition write_u16 :: "u16 \<Rightarrow> bytes" where
  "write_u16 v = [byte_at 1 v, byte_at 0 v]"

definition write_u32 :: "u32 \<Rightarrow> bytes" where
  "write_u32 v = [byte_at 3 v, byte_at 2 v, byte_at 1 v, byte_at 0 v]"

definition read_u16 :: "bytes \<Rightarrow> nat \<Rightarrow> u16" where
  "read_u16 p i = push_bit 8 (ucast (p ! i)) OR ucast (p ! (i + 1))"

definition read_u32 :: "bytes \<Rightarrow> nat \<Rightarrow> u32" where
  "read_u32 p i =
     push_bit 24 (ucast (p ! i)) OR push_bit 16 (ucast (p ! (i + 1))) OR
     push_bit 8 (ucast (p ! (i + 2))) OR ucast (p ! (i + 3))"

lemma bit_0xFF_int: "bit (0xFF :: int) n \<longleftrightarrow> n < 8"
proof -
  have "(0xFF :: int) = mask 8" by (simp add: mask_eq_exp_minus_1)
  then show ?thesis by (simp only: bit_mask_iff) auto
qed

lemma bit_0xFFFF_int: "bit (0xFFFF :: int) n \<longleftrightarrow> n < 16"
proof -
  have "(0xFFFF :: int) = mask 16" by (simp add: mask_eq_exp_minus_1)
  then show ?thesis by (simp only: bit_mask_iff) auto
qed

lemma bit_byte_at: "bit (byte_at k w) n \<longleftrightarrow> n < 8 \<and> bit w (8 * k + n)"
  by (auto simp: byte_at_def bit_simps bit_0xFF_int dest: bit_imp_le_length)

lemma length_write_u16 [simp]: "length (write_u16 v) = 2"
  by (simp add: write_u16_def)

lemma length_write_u32 [simp]: "length (write_u32 v) = 4"
  by (simp add: write_u32_def)

text \<open>Joining the bytes of a word gives the word back.\<close>

lemma join_u16 [wire_simps]:
  fixes w :: u16
  shows "push_bit 8 (ucast (byte_at 1 w)) OR ucast (byte_at 0 w) = w"
    and "push_bit 8 (ucast (byte_at (Suc 0) w)) OR ucast (byte_at 0 w) = w"
  by (rule bit_word_eqI, auto simp: bit_simps bit_byte_at not_less le_iff_add)+

lemma join_u32 [wire_simps]:
  fixes w :: u32
  shows "push_bit 24 (ucast (byte_at 3 w)) OR push_bit 16 (ucast (byte_at 2 w)) OR
    push_bit 8 (ucast (byte_at 1 w)) OR ucast (byte_at 0 w) = w" (is ?A)
    and "push_bit 24 (ucast (byte_at 3 w)) OR push_bit 16 (ucast (byte_at 2 w)) OR
    push_bit 8 (ucast (byte_at (Suc 0) w)) OR ucast (byte_at 0 w) = w" (is ?B)
proof -
  show ?A
  proof (rule bit_word_eqI)
    fix n assume "n < LENGTH(32)"
    then have "n < 8 \<or> (\<exists>m<8. n = 8 + m) \<or> (\<exists>m<8. n = 16 + m) \<or> (\<exists>m<8. n = 24 + m)"
      by simp presburger
    then show "bit (push_bit 24 (ucast (byte_at 3 w)) OR push_bit 16 (ucast (byte_at 2 w)) OR
      push_bit 8 (ucast (byte_at 1 w)) OR ucast (byte_at 0 w) :: u32) n = bit w n"
      by (elim disjE exE conjE) (simp_all add: bit_simps bit_byte_at)
  qed
  then show ?B by simp
qed

lemma read_u16_write [wire_simps]:
  "i = length xs \<Longrightarrow> read_u16 (xs @ write_u16 v @ ys) i = v"
  by (simp add: read_u16_def write_u16_def nth_append wire_simps)

lemma read_u32_write [wire_simps]:
  "i = length xs \<Longrightarrow> read_u32 (xs @ write_u32 v @ ys) i = v"
  by (simp add: read_u32_def write_u32_def nth_append wire_simps)

text \<open>A read inside the second part of a concatenation.\<close>

lemma read_append:
  "length xs \<le> i \<Longrightarrow> read_u16 (xs @ ys) i = read_u16 ys (i - length xs)"
  "length xs \<le> i \<Longrightarrow> read_u32 (xs @ ys) i = read_u32 ys (i - length xs)"
  by (simp_all add: read_u16_def read_u32_def nth_append)
     (simp_all add: Suc_diff_le flip: diff_add_assoc2)

section \<open>Vectors of bytes\<close>

text \<open>\<open>std::vector::resize(n, fill)\<close>: cut at the end or fill up.\<close>

definition resize :: "nat \<Rightarrow> 'a \<Rightarrow> 'a list \<Rightarrow> 'a list" where
  "resize n fill xs = take n xs @ replicate (n - length xs) fill"

text \<open>\<open>std::memcpy(dst + off, src, n)\<close> with \<open>n\<close> the length of the source.\<close>

definition memcpy_at :: "nat \<Rightarrow> 'a list \<Rightarrow> 'a list \<Rightarrow> 'a list" where
  "memcpy_at off src dst = take off dst @ src @ drop (off + length src) dst"

text \<open>\<open>for (i = 0; i < n; ++i) dst[i] ^= src[i]\<close> with \<open>n\<close> the length of the source.\<close>

definition xor_loop :: "bytes \<Rightarrow> bytes \<Rightarrow> bytes" where
  "xor_loop dst src = fold (\<lambda>i d. d[i := d ! i XOR src ! i]) [0..<length src] dst"

text \<open>A byte of a vector read as if it were padded with zeros without end.\<close>

definition get0 :: "bytes \<Rightarrow> nat \<Rightarrow> u8" where
  "get0 xs i = (if i < length xs then xs ! i else 0)"

lemma length_resize [simp, vec_simps]: "length (resize n c xs) = n"
  by (simp add: resize_def)

lemma resize_same [simp]: "n = length xs \<Longrightarrow> resize n c xs = xs"
  by (simp add: resize_def)

lemma get0_resize [vec_simps]: "length xs \<le> n \<Longrightarrow> get0 (resize n 0 xs) i = get0 xs i"
  by (auto simp: get0_def resize_def nth_append)

lemma length_memcpy_at [simp, vec_simps]:
  "off + length src \<le> length dst \<Longrightarrow> length (memcpy_at off src dst) = length dst"
  by (simp add: memcpy_at_def)

lemma xor_loop_upto:
  "n \<le> length src \<Longrightarrow> length src \<le> length dst \<Longrightarrow>
   fold (\<lambda>i d. d[i := d ! i XOR src ! i]) [0..<n] dst =
     map2 (XOR) (take n dst) (take n src) @ drop n dst"
proof (induction n)
  case 0
  then show ?case by simp
next
  case (Suc n)
  then have "n < length dst" and "n < length src" by simp_all
  with Suc show ?case
    by (simp add: nth_append list_update_append take_Suc_conv_app_nth flip: Cons_nth_drop_Suc)
qed

lemma length_xor_loop [simp, vec_simps]: "length (xor_loop dst src) = length dst"
proof -
  have "length (fold (\<lambda>i d. d[i := d ! i XOR src ! i]) is dst) = length dst" for "is"
    by (induction "is" arbitrary: dst) simp_all
  then show ?thesis by (simp add: xor_loop_def)
qed

lemma xor_loop_eq:
  "length src \<le> length dst \<Longrightarrow>
   xor_loop dst src = map2 (XOR) (take (length src) dst) src @ drop (length src) dst"
  unfolding xor_loop_def using xor_loop_upto [of "length src" src dst] by simp

lemma get0_xor_loop [vec_simps]:
  "length src \<le> length dst \<Longrightarrow> get0 (xor_loop dst src) i = get0 dst i XOR get0 src i"
  by (auto simp: get0_def xor_loop_eq nth_append)

lemma get0_eqI:
  assumes len: "length xs = length ys" and eq: "\<And>i. get0 xs i = get0 ys i"
  shows "xs = ys"
proof (rule nth_equalityI [OF len])
  fix i assume "i < length xs"
  with eq [of i] len show "xs ! i = ys ! i" by (simp add: get0_def)
qed

lemma get0_simps [simp]: "get0 [] i = 0"
  by (simp add: get0_def)

end
