(* ===== verification/StdMap.thy ===== *)
theory StdMap
  imports Prelude
begin

text \<open>
  The \<open>std::map<uint16_t, T>\<close> of the code (\<open>buf_\<close> of both jitter buffers, \<open>missing_\<close> of the NACK
  manager, \<open>groups_\<close> of the FEC decoder): a container ordered by key, whose iteration runs in
  ascending key order.  Section one states the interface the clients rely on as a locale, with the
  facts every client needs proved inside it; section two is the model, an association list sorted by
  key, and its interpretation.
\<close>

section \<open>The interface\<close>

lemma sorted_entries_unique:
  assumes xs: "sorted_wrt (<) (map fst xs)" and ys: "sorted_wrt (<) (map fst ys)"
    and eq: "map_of xs = map_of (ys :: ('k::linorder \<times> 'v) list)"
  shows "xs = ys"
proof -
  have d: "distinct (map fst xs)" "distinct (map fst ys)"
    using xs ys strict_sorted_iff by blast+
  then have s: "set xs = set ys" by (metis eq map_of_inject_set)
  show ?thesis
    by (rule map_sorted_distinct_set_unique [where f = fst])
       (use xs ys d s in \<open>auto simp: strict_sorted_iff distinct_map\<close>)
qed

locale ordered_map =
  fixes ok :: "'m \<Rightarrow> bool"
    and entries :: "'m \<Rightarrow> ('k::linorder \<times> 'v) list"
    and find :: "'k \<Rightarrow> 'm \<Rightarrow> 'v option"
    and store :: "'k \<Rightarrow> 'v \<Rightarrow> 'm \<Rightarrow> 'm"
    and erase :: "'k \<Rightarrow> 'm \<Rightarrow> 'm"
  assumes entries_sorted: "ok m \<Longrightarrow> sorted_wrt (<) (map fst (entries m))"
    and find_entries: "ok m \<Longrightarrow> find k m = map_of (entries m) k"
    and find_store: "find k (store k' v m) = (if k = k' then Some v else find k m)"
    and find_erase: "find k (erase k' m) = (if k = k' then None else find k m)"
    and ok_store: "ok m \<Longrightarrow> ok (store k v m)"
    and ok_erase: "ok m \<Longrightarrow> ok (erase k m)"
begin

lemma keys_distinct: "ok m \<Longrightarrow> distinct (map fst (entries m))"
  using entries_sorted strict_sorted_iff by blast

lemma entry_iff_find: "ok m \<Longrightarrow> (k, v) \<in> set (entries m) \<longleftrightarrow> find k m = Some v"
  by (simp add: find_entries keys_distinct)

lemma key_iff_find: "ok m \<Longrightarrow> k \<in> fst ` set (entries m) \<longleftrightarrow> find k m \<noteq> None"
  by (auto simp: find_entries map_of_eq_None_iff)

text \<open>The first entry of the iteration is the one with the least key.\<close>

lemma begin_least:
  assumes "ok m" and "entries m = (k, v) # rest" and "find k' m \<noteq> None"
  shows "k \<le> k'"
proof -
  from assms(1,3) have "k' \<in> fst ` set (entries m)" by (simp add: key_iff_find)
  moreover from assms(1) have "sorted_wrt (<) (map fst (entries m))" by (rule entries_sorted)
  ultimately show ?thesis using assms(2) by (force simp: less_imp_le)
qed

text \<open>The content decides the iteration: two valid maps with the same lookups iterate alike.\<close>

lemma entries_unique:
  assumes m: "ok m" "ok m'" and eq: "\<And>k. find k m = find k m'"
  shows "entries m = entries m'"
  using m eq by (intro sorted_entries_unique entries_sorted ext) (simp_all add: find_entries [symmetric])

lemma entries_erase_first:
  assumes "ok m" and first: "entries m = (k, v) # rest"
  shows "entries (erase k m) = rest"
proof (rule sorted_entries_unique)
  have srt: "sorted_wrt (<) (map fst (entries m))" using assms(1) by (rule entries_sorted)
  then show "sorted_wrt (<) (map fst rest)" by (simp add: first)
  have ok': "ok (erase k m)" using assms(1) by (rule ok_erase)
  then show "sorted_wrt (<) (map fst (entries (erase k m)))" by (rule entries_sorted)
  from srt have "map_of rest k = None" by (auto simp: first map_of_eq_None_iff)
  then show "map_of (entries (erase k m)) = map_of rest"
    using find_entries [OF ok', symmetric] find_entries [OF assms(1)]
    by (auto simp: fun_eq_iff find_erase first)
qed

end

section \<open>The model\<close>

type_synonym ('k, 'v) smap = "('k \<times> 'v) list"

definition smap_ok :: "('k::linorder, 'v) smap \<Rightarrow> bool" where
  "smap_ok m \<longleftrightarrow> sorted_wrt (<) (map fst m)"

definition smap_find :: "'k \<Rightarrow> ('k, 'v) smap \<Rightarrow> 'v option" where
  "smap_find k m = map_of m k"

fun smap_store :: "'k::linorder \<Rightarrow> 'v \<Rightarrow> ('k, 'v) smap \<Rightarrow> ('k, 'v) smap" where
  "smap_store k v [] = [(k, v)]"
| "smap_store k v ((k', v') # m) =
     (if k < k' then (k, v) # (k', v') # m
      else if k = k' then (k, v) # m
      else (k', v') # smap_store k v m)"

definition smap_erase :: "'k \<Rightarrow> ('k, 'v) smap \<Rightarrow> ('k, 'v) smap" where
  "smap_erase k m = filter (\<lambda>(k', _). k' \<noteq> k) m"

text \<open>\<open>emplace\<close> keeps the element that is already there; \<open>operator[] =\<close> is \<^const>\<open>smap_store\<close>.\<close>

definition smap_emplace :: "'k::linorder \<Rightarrow> 'v \<Rightarrow> ('k, 'v) smap \<Rightarrow> ('k, 'v) smap" where
  "smap_emplace k v m = (case smap_find k m of None \<Rightarrow> smap_store k v m | Some _ \<Rightarrow> m)"

lemma keys_store: "fst ` set (smap_store k v m) = insert k (fst ` set m)"
  by (induction k v m rule: smap_store.induct) auto

lemma find_smap_store: "smap_find k (smap_store k' v m) = (if k = k' then Some v else smap_find k m)"
  by (induction k' v m rule: smap_store.induct) (auto simp: smap_find_def)

lemma smap_ok_store: "smap_ok m \<Longrightarrow> smap_ok (smap_store k v m)"
proof (induction k v m rule: smap_store.induct)
  case (2 k v k' v' m)
  then show ?case
    using keys_store [of k v m] by (auto simp: smap_ok_def)
qed (simp add: smap_ok_def)

lemma find_smap_erase: "smap_find k (smap_erase k' m) = (if k = k' then None else smap_find k m)"
  by (induction m) (auto simp: smap_find_def smap_erase_def)

lemma smap_ok_erase: "smap_ok m \<Longrightarrow> smap_ok (smap_erase k m)"
  by (induction m) (auto simp: smap_ok_def smap_erase_def)

interpretation sm: ordered_map smap_ok "\<lambda>m. m" smap_find smap_store smap_erase
  by unfold_locales
     (simp_all add: find_smap_store find_smap_erase smap_ok_store smap_ok_erase,
      simp_all add: smap_ok_def smap_find_def)

lemma smap_ok_Nil [simp, intro]: "smap_ok []"
  by (simp add: smap_ok_def)

lemma smap_find_Nil [simp]: "smap_find k [] = None"
  by (simp add: smap_find_def)

lemma find_smap_emplace:
  "smap_find k (smap_emplace k' v m) =
     (if k = k' \<and> smap_find k' m = None then Some v else smap_find k m)"
  by (auto simp: smap_emplace_def find_smap_store split: option.splits)

lemma smap_ok_emplace: "smap_ok m \<Longrightarrow> smap_ok (smap_emplace k v m)"
  by (auto simp: smap_emplace_def smap_ok_store split: option.splits)

lemmas smap_find_simps = find_smap_store find_smap_erase find_smap_emplace
lemmas smap_ok_simps = smap_ok_store smap_ok_erase smap_ok_emplace

lemma smap_find_in_set: "smap_find k m = Some v \<Longrightarrow> (k, v) \<in> set m"
  by (simp add: smap_find_def map_of_SomeD)

lemma length_smap_store:
  "smap_ok m \<Longrightarrow> length (smap_store k v m) = (if smap_find k m = None then Suc (length m) else length m)"
proof (induction k v m rule: smap_store.induct)
  case (2 k v k' v' m)
  then have "smap_ok m" and "k < k' \<Longrightarrow> k \<notin> fst ` set m"
    by (auto simp: smap_ok_def)
  with 2 show ?case
    by (auto simp: smap_find_def map_of_eq_None_iff)
qed (simp add: smap_find_def)

end
