(* ===== verification/RtpPacket.thy ===== *)
theory RtpPacket
  imports Prelude
begin

text \<open>
  The class \<open>RtpPacket\<close> of \<open>module02_rtp_rtcp\<close> (\<open>rtp_packet.h\<close>, \<open>rtp_packet.cpp\<close>): a raw byte
  buffer with the offset of the payload, parsed and built in place.  The accessors read the buffer
  directly, so each is a function of the object; \<open>parse\<close> returns its \<open>bool\<close> together with the object
  after the call.  A pointer with its length is a byte list; a null pointer is \<^const>\<open>None\<close>.
\<close>

record rtp_packet =
  buf :: bytes
  payload_offset :: nat

section \<open>Operations\<close>

definition kRtpMinHeaderLen :: nat where
  "kRtpMinHeaderLen = 12"

definition RtpPacket_default :: rtp_packet where
  "RtpPacket_default = \<lparr>buf = [], payload_offset = 0\<rparr>"

definition RtpPacket_ctor :: "bytes \<Rightarrow> rtp_packet" where
  "RtpPacket_ctor d =
     (if length d \<ge> kRtpMinHeaderLen
      then \<lparr>buf = d, payload_offset = kRtpMinHeaderLen + unat (d ! 0 AND 0x0F) * 4\<rparr>
      else \<lparr>buf = d, payload_offset = 0\<rparr>)"

definition RtpPacket_parse :: "rtp_packet \<Rightarrow> bytes \<Rightarrow> bool \<times> rtp_packet" where
  "RtpPacket_parse p d =
     (let len = length d in
      if len < kRtpMinHeaderLen then (False, p)
      else let version = drop_bit 6 (d ! 0) AND 0x03 in
      if version \<noteq> 2 then (False, p)
      else let cc = d ! 0 AND 0x0F; header_len = kRtpMinHeaderLen + unat cc * 4 in
      if len < header_len then (False, p)
      else let has_ext = (drop_bit 4 (d ! 0) AND 0x01 \<noteq> 0); offset = header_len in
      if has_ext
      then if offset + 4 > len then (False, p)
           else let ext_len = read_u16 d (offset + 2);
                    offset' = offset + (4 + unat ext_len * 4) in
                if offset' > len then (False, p)
                else (True, p\<lparr>buf := d, payload_offset := offset'\<rparr>)
      else (True, p\<lparr>buf := d, payload_offset := offset\<rparr>))"

definition RtpPacket_build ::
    "u8 \<Rightarrow> u16 \<Rightarrow> u32 \<Rightarrow> u32 \<Rightarrow> bytes option \<Rightarrow> nat \<Rightarrow> bool \<Rightarrow> rtp_packet \<Rightarrow> rtp_packet" where
  "RtpPacket_build payload_type seq timestamp ssrc payload payload_len marker p =
     (let b = (resize (kRtpMinHeaderLen + payload_len) 0 (buf p))
                [0 := 0x80,
                 1 := (if marker then 0x80 else 0x00) OR (payload_type AND 0x7F),
                 2 := byte_at 1 seq, 3 := byte_at 0 seq,
                 4 := byte_at 3 timestamp, 5 := byte_at 2 timestamp,
                 6 := byte_at 1 timestamp, 7 := byte_at 0 timestamp,
                 8 := byte_at 3 ssrc, 9 := byte_at 2 ssrc,
                 10 := byte_at 1 ssrc, 11 := byte_at 0 ssrc]
      in \<lparr>buf = (case payload of
                   Some src \<Rightarrow> if payload_len > 0
                               then memcpy_at kRtpMinHeaderLen (take payload_len src) b else b
                 | None \<Rightarrow> b),
          payload_offset = kRtpMinHeaderLen\<rparr>)"

definition RtpPacket_version :: "rtp_packet \<Rightarrow> u8" where
  "RtpPacket_version p = (if length (buf p) < 1 then 0 else drop_bit 6 (buf p ! 0) AND 0x03)"

definition RtpPacket_padding :: "rtp_packet \<Rightarrow> bool" where
  "RtpPacket_padding p =
     (if length (buf p) < 1 then False else drop_bit 5 (buf p ! 0) AND 0x01 \<noteq> 0)"

definition RtpPacket_extension :: "rtp_packet \<Rightarrow> bool" where
  "RtpPacket_extension p =
     (if length (buf p) < 1 then False else drop_bit 4 (buf p ! 0) AND 0x01 \<noteq> 0)"

definition RtpPacket_cc :: "rtp_packet \<Rightarrow> u8" where
  "RtpPacket_cc p = (if length (buf p) < 1 then 0 else buf p ! 0 AND 0x0F)"

definition RtpPacket_marker :: "rtp_packet \<Rightarrow> bool" where
  "RtpPacket_marker p =
     (if length (buf p) < 2 then False else drop_bit 7 (buf p ! 1) AND 0x01 \<noteq> 0)"

definition RtpPacket_payload_type :: "rtp_packet \<Rightarrow> u8" where
  "RtpPacket_payload_type p = (if length (buf p) < 2 then 0 else buf p ! 1 AND 0x7F)"

definition RtpPacket_sequence :: "rtp_packet \<Rightarrow> u16" where
  "RtpPacket_sequence p = (if length (buf p) < 4 then 0 else read_u16 (buf p) 2)"

definition RtpPacket_timestamp :: "rtp_packet \<Rightarrow> u32" where
  "RtpPacket_timestamp p = (if length (buf p) < 8 then 0 else read_u32 (buf p) 4)"

definition RtpPacket_ssrc :: "rtp_packet \<Rightarrow> u32" where
  "RtpPacket_ssrc p = (if length (buf p) < 12 then 0 else read_u32 (buf p) 8)"

text \<open>The bytes the pointer returned by \<open>payload()\<close> leads to; a null pointer is \<^const>\<open>None\<close>.\<close>

definition RtpPacket_payload :: "rtp_packet \<Rightarrow> bytes option" where
  "RtpPacket_payload p =
     (if payload_offset p \<ge> length (buf p) then None else Some (drop (payload_offset p) (buf p)))"

definition RtpPacket_payload_size :: "rtp_packet \<Rightarrow> nat" where
  "RtpPacket_payload_size p =
     (if payload_offset p \<ge> length (buf p) then 0 else length (buf p) - payload_offset p)"

definition RtpPacket_data :: "rtp_packet \<Rightarrow> bytes" where
  "RtpPacket_data p = buf p"

definition RtpPacket_size :: "rtp_packet \<Rightarrow> nat" where
  "RtpPacket_size p = length (buf p)"

text \<open>\<open>(int16_t)(a - b) > 0\<close>: the difference wraps to 16 bits and is read with its sign.\<close>

definition seq_gt :: "u16 \<Rightarrow> u16 \<Rightarrow> bool" where
  "seq_gt a b \<longleftrightarrow> sint (a - b) > 0"

section \<open>The payload as bytes\<close>

text \<open>What a caller reads through \<open>payload()\<close> and \<open>payload_size()\<close> together.\<close>

definition payload_bytes :: "rtp_packet \<Rightarrow> bytes" where
  "payload_bytes p = drop (payload_offset p) (buf p)"

lemma payload_view:
  "RtpPacket_payload_size p = length (payload_bytes p)"
  "RtpPacket_payload p = Some d \<Longrightarrow> d = payload_bytes p"
  by (auto simp: RtpPacket_payload_size_def RtpPacket_payload_def payload_bytes_def split: if_splits)

lemma payload_None_iff: "RtpPacket_payload p = None \<longleftrightarrow> payload_bytes p = []"
  by (auto simp: RtpPacket_payload_def payload_bytes_def)

section \<open>Building\<close>

text \<open>The twelve header bytes that \<open>build\<close> writes.\<close>

definition rtp_header :: "u8 \<Rightarrow> u16 \<Rightarrow> u32 \<Rightarrow> u32 \<Rightarrow> bool \<Rightarrow> bytes" where
  "rtp_header pt seq ts ssrc m =
     [0x80, (if m then 0x80 else 0x00) OR (pt AND 0x7F)] @ write_u16 seq @ write_u32 ts @ write_u32 ssrc"

lemma length_rtp_header [simp]: "length (rtp_header pt seq ts ssrc m) = 12"
  by (simp add: rtp_header_def)

lemma list12_update:
  assumes "length xs \<ge> 12"
  shows "xs[0 := a0, 1 := a1, 2 := a2, 3 := a3, 4 := a4, 5 := a5, 6 := a6, 7 := a7, 8 := a8,
            9 := a9, 10 := a10, 11 := a11] =
         [a0, a1, a2, a3, a4, a5, a6, a7, a8, a9, a10, a11] @ drop 12 xs"
proof -
  obtain hd12 tl12 where "xs = hd12 @ tl12" and "length hd12 = 12"
    using assms by (metis append_take_drop_id length_take min_absorb2)
  then show ?thesis
    by (auto simp: numeral_eq_Suc length_Suc_conv)
qed

lemma build_buf:
  assumes "length d = n"
  shows "RtpPacket_build pt seq ts ssrc (Some d) n m p =
           \<lparr>buf = rtp_header pt seq ts ssrc m @ d, payload_offset = 12\<rparr>"
proof -
  let ?r = "resize (12 + n) 0 (buf p)"
  have "?r[0 := 0x80, 1 := (if m then 0x80 else 0x00) OR (pt AND 0x7F),
      2 := byte_at 1 seq, 3 := byte_at 0 seq, 4 := byte_at 3 ts, 5 := byte_at 2 ts,
      6 := byte_at 1 ts, 7 := byte_at 0 ts, 8 := byte_at 3 ssrc, 9 := byte_at 2 ssrc,
      10 := byte_at 1 ssrc, 11 := byte_at 0 ssrc] = rtp_header pt seq ts ssrc m @ drop 12 ?r"
    by (subst list12_update) (simp_all add: rtp_header_def write_u16_def write_u32_def)
  then show ?thesis
    using assms by (auto simp: RtpPacket_build_def kRtpMinHeaderLen_def Let_def memcpy_at_def)
qed

text \<open>The accessors on a packet with such a header.\<close>

lemma marker_bit: "drop_bit 7 ((if m then 0x80 else 0) OR (pt AND 0x7F) :: u8) AND 1 \<noteq> 0 \<longleftrightarrow> m"
  by (simp add: and_one_eq flip: bit_iff_odd_drop_bit)

lemma type_bits: "((if m then 0x80 else 0) OR (pt AND 0x7F)) AND 0x7F = (pt AND 0x7F :: u8)"
  by (simp add: and.assoc bit.conj_disj_distrib2)

lemma built_accessors [wire_simps]:
  fixes d
  defines "p \<equiv> (\<lambda>pt seq ts ssrc m. \<lparr>buf = rtp_header pt seq ts ssrc m @ d, payload_offset = 12\<rparr>)"
  shows "RtpPacket_version (p pt seq ts ssrc m) = 2"
    and "\<not> RtpPacket_padding (p pt seq ts ssrc m)"
    and "\<not> RtpPacket_extension (p pt seq ts ssrc m)"
    and "RtpPacket_cc (p pt seq ts ssrc m) = 0"
    and "RtpPacket_marker (p pt seq ts ssrc m) = m"
    and "RtpPacket_payload_type (p pt seq ts ssrc m) = pt AND 0x7F"
    and "RtpPacket_sequence (p pt seq ts ssrc m) = seq"
    and "RtpPacket_timestamp (p pt seq ts ssrc m) = ts"
    and "RtpPacket_ssrc (p pt seq ts ssrc m) = ssrc"
    and "payload_bytes (p pt seq ts ssrc m) = d"
  by (simp_all add: p_def rtp_header_def RtpPacket_version_def RtpPacket_padding_def
      RtpPacket_extension_def RtpPacket_cc_def RtpPacket_payload_type_def type_bits
      RtpPacket_sequence_def RtpPacket_timestamp_def RtpPacket_ssrc_def payload_bytes_def
      RtpPacket_marker_def marker_bit [simplified] read_u16_def read_u32_def write_u16_def
      write_u32_def wire_simps)

text \<open>Every built packet parses to itself, whatever object parses it.\<close>

lemma parse_built [wire_simps]:
  "RtpPacket_parse q (rtp_header pt seq ts ssrc m @ d) =
     (True, \<lparr>buf = rtp_header pt seq ts ssrc m @ d, payload_offset = 12\<rparr>)"
  by (simp add: RtpPacket_parse_def kRtpMinHeaderLen_def rtp_header_def Let_def)

section \<open>Sequence number comparison\<close>

lemma sint_u16_pos_iff: "sint (w :: u16) > 0 \<longleftrightarrow> 0 < unat w \<and> unat w < 2 ^ 15"
proof -
  have r: "- 32768 \<le> sint w" "sint w < 32768"
    using sint_ge [of w] sint_lt [of w] by simp_all
  have u: "uint w = sint w mod 65536"
    using uint_sint [of w] by (simp add: take_bit_eq_mod)
  show ?thesis
  proof (cases "0 \<le> sint w")
    case True
    with u r have "uint w = sint w" by (simp add: mod_pos_pos_trivial)
    with r show ?thesis by (auto simp: unat_eq_nat_uint)
  next
    case False
    then have "(sint w + 65536) mod 65536 = sint w + 65536"
      using r by (intro mod_pos_pos_trivial) simp_all
    then have "sint w mod 65536 = sint w + 65536" by simp
    with u r False show ?thesis by (auto simp: unat_eq_nat_uint)
  qed
qed

lemma seq_gt_iff: "seq_gt a b \<longleftrightarrow> 0 < unat (a - b) \<and> unat (a - b) < 2 ^ 15"
  by (simp only: seq_gt_def sint_u16_pos_iff)

section \<open>Consecutive packets\<close>

text \<open>The packets carry the sequence numbers \<open>s, s + 1, ...\<close> one after the other.\<close>

definition run_numbers :: "u16 \<Rightarrow> rtp_packet list \<Rightarrow> bool" where
  "run_numbers s del \<longleftrightarrow>
     map RtpPacket_sequence del = map (\<lambda>i. s + of_nat i) [0..<length del]"

lemma run_numbers_Nil [simp]: "run_numbers s []"
  by (simp add: run_numbers_def)

lemma run_numbers_Cons:
  "run_numbers s (p # del) \<longleftrightarrow> RtpPacket_sequence p = s \<and> run_numbers (s + 1) del"
  by (simp add: run_numbers_def upt_conv_Cons map_Suc_upt [symmetric] comp_def add.assoc
      del: upt_Suc)

section \<open>Properties\<close>

text \<open>C17. Whatever packet object \<open>build\<close> runs on, what it writes is a packet that \<open>parse\<close> accepts
  (on any object), leaving the same object; its accessors return exactly the fields and the payload
  that were passed in, the payload type reduced to its seven bits.\<close>

theorem rtp_build_parse_roundtrip:
  assumes "length d = n"
  shows "let p = RtpPacket_build pt seq ts ssrc (Some d) n m old in
    RtpPacket_parse q (RtpPacket_data p) = (True, p) \<and>
    RtpPacket_size p = 12 + n \<and>
    RtpPacket_version p = 2 \<and> \<not> RtpPacket_padding p \<and> \<not> RtpPacket_extension p \<and>
    RtpPacket_cc p = 0 \<and> RtpPacket_marker p = m \<and>
    RtpPacket_payload_type p = pt AND 0x7F \<and> RtpPacket_sequence p = seq \<and>
    RtpPacket_timestamp p = ts \<and> RtpPacket_ssrc p = ssrc \<and>
    RtpPacket_payload_size p = n \<and>
    RtpPacket_payload p = (if n = 0 then None else Some d)"
  using assms
  by (auto simp: Let_def build_buf RtpPacket_data_def RtpPacket_size_def wire_simps
      RtpPacket_payload_def RtpPacket_payload_size_def)

theorem rtp_build_parse_roundtrip_witness:
  "let p = RtpPacket_build 96 1234 90000 0xDEADBEEF (Some [1, 2, 3]) 3 True RtpPacket_default in
   RtpPacket_parse RtpPacket_default (RtpPacket_data p) = (True, p) \<and> RtpPacket_sequence p = 1234"
  using rtp_build_parse_roundtrip [where d = "[1, 2, 3]" and n = 3 and pt = 96 and seq = 1234
      and ts = 90000 and ssrc = "0xDEADBEEF" and m = True and old = RtpPacket_default
      and q = RtpPacket_default]
  by (simp add: Let_def)

text \<open>The calls that change an object.\<close>

datatype rtp_op = Parse bytes | Build u8 u16 u32 u32 "bytes option" nat bool

fun rtp_op_step :: "rtp_packet \<Rightarrow> rtp_op \<Rightarrow> rtp_packet" where
  "rtp_op_step p (Parse d) = snd (RtpPacket_parse p d)"
| "rtp_op_step p (Build pt seq ts ssrc pay n m) = RtpPacket_build pt seq ts ssrc pay n m p"

text \<open>Where the list of contributing sources ends, and where the header extension behind it ends.\<close>

definition csrc_end :: "rtp_packet \<Rightarrow> nat" where
  "csrc_end p = 12 + 4 * unat (RtpPacket_cc p)"

definition ext_end :: "rtp_packet \<Rightarrow> nat" where
  "ext_end p = csrc_end p + 4 + 4 * unat (read_u16 (buf p) (csrc_end p + 2))"

text \<open>The payload starts at one of these two places, at the second only if there is an extension that lies in the
  buffer.  A buffer too short for a header counts as payload as a whole.\<close>

definition rtp_wf :: "rtp_packet \<Rightarrow> bool" where
  "rtp_wf p \<longleftrightarrow>
     (if length (buf p) < 12 then payload_offset p = 0
      else payload_offset p = csrc_end p \<or>
        RtpPacket_extension p \<and> payload_offset p = ext_end p \<and> ext_end p \<le> length (buf p))"

lemma rtp_wf_ctor: "rtp_wf (RtpPacket_ctor d)"
  by (auto simp: RtpPacket_ctor_def rtp_wf_def csrc_end_def RtpPacket_cc_def kRtpMinHeaderLen_def)

lemma build_first_byte:
  assumes "case pay of Some d \<Rightarrow> n = length d | None \<Rightarrow> True"
  shows "buf (RtpPacket_build pt seq ts ssrc pay n m p) ! 0 = 0x80"
    and "length (buf (RtpPacket_build pt seq ts ssrc pay n m p)) = 12 + n"
  using assms by (cases pay; simp add: RtpPacket_build_def Let_def kRtpMinHeaderLen_def memcpy_at_def nth_append)+

lemma rtp_wf_step:
  assumes "rtp_wf p" and "case op of Build pt seq ts ssrc (Some d) n m \<Rightarrow> n = length d | _ \<Rightarrow> True"
  shows "rtp_wf (rtp_op_step p op)"
proof (cases op)
  case (Parse d)
  then show ?thesis
    using assms(1) by (auto simp: RtpPacket_parse_def Let_def rtp_wf_def csrc_end_def ext_end_def RtpPacket_cc_def
        RtpPacket_extension_def kRtpMinHeaderLen_def algebra_simps)
next
  case (Build pt seq ts ssrc pay n m)
  then have "case pay of Some d \<Rightarrow> n = length d | None \<Rightarrow> True" using assms(2) by (simp split: option.splits)
  note b = build_first_byte [OF this, of pt seq ts ssrc m p]
  have "payload_offset (RtpPacket_build pt seq ts ssrc pay n m p) = 12"
    by (simp add: RtpPacket_build_def Let_def kRtpMinHeaderLen_def)
  then show ?thesis
    unfolding Build rtp_op_step.simps rtp_wf_def csrc_end_def RtpPacket_cc_def using b by simp
qed

text \<open>A null pointer, or the bytes from \<open>k\<close> to the end of the buffer.\<close>

definition view_from :: "nat \<Rightarrow> bytes \<Rightarrow> bytes option" where
  "view_from k b = (if k < length b then Some (drop k b) else None)"

text \<open>C30. What a packet object shows as its payload.  Whatever it was made from and whatever \<open>parse\<close> and \<open>build\<close> calls it has
  seen since: if its buffer has twelve bytes or more, \<open>payload\<close> and \<open>payload_size\<close> give the bytes behind the list of
  contributing sources or, only where the extension bit is set, those behind the extension, up to the end of the
  buffer, and nothing (null and zero) if there are none.  If the buffer is shorter, which only the constructor brings
  about, they give all of it, though there is no header.  The constructor does not look at the extension bit: on
  bytes that \<open>parse\<close> accepts the two agree on the payload's start exactly if there is no extension.\<close>

theorem rtp_object_type:
  assumes "list_all (\<lambda>op. case op of Build pt seq ts ssrc (Some d) n m \<Rightarrow> n = length d | _ \<Rightarrow> True) ops"
    and "p = foldl rtp_op_step (RtpPacket_ctor bytes) ops" and "RtpPacket_parse q e = (True, p')"
  shows "(if RtpPacket_size p < 12
      then RtpPacket_payload p = view_from 0 (RtpPacket_data p) \<and> RtpPacket_payload_size p = RtpPacket_size p
      else \<exists>k. k \<in> (if RtpPacket_extension p then {csrc_end p, ext_end p} else {csrc_end p}) \<and>
        RtpPacket_payload p = view_from k (RtpPacket_data p) \<and> RtpPacket_payload_size p = RtpPacket_size p - k) \<and>
    payload_offset p' = (if RtpPacket_extension p' then ext_end p' else csrc_end p') \<and>
    (payload_offset (RtpPacket_ctor e) = payload_offset p' \<longleftrightarrow> \<not> RtpPacket_extension p')"
proof -
  have "rtp_wf (foldl rtp_op_step p0 ops)" if "rtp_wf p0" for p0
    using assms(1) that by (induction ops arbitrary: p0) (simp_all add: rtp_wf_step)
  from this [OF rtp_wf_ctor] have "rtp_wf p" unfolding assms(2) .
  moreover have "payload_offset p' = (if RtpPacket_extension p' then ext_end p' else csrc_end p')"
    "payload_offset (RtpPacket_ctor e) = payload_offset p' \<longleftrightarrow> \<not> RtpPacket_extension p'"
    using assms(3) by (auto simp: RtpPacket_parse_def Let_def RtpPacket_ctor_def kRtpMinHeaderLen_def
        RtpPacket_extension_def csrc_end_def ext_end_def RtpPacket_cc_def algebra_simps split: if_splits)
  moreover have "RtpPacket_payload p = view_from (payload_offset p) (RtpPacket_data p)"
    "RtpPacket_payload_size p = RtpPacket_size p - payload_offset p"
    by (simp_all add: RtpPacket_payload_def RtpPacket_payload_size_def RtpPacket_size_def RtpPacket_data_def view_from_def)
  ultimately show ?thesis
    unfolding rtp_wf_def RtpPacket_size_def [symmetric] by (auto split: if_splits)
qed

lemma rtp_object_type_witness:
  "RtpPacket_payload (foldl rtp_op_step (RtpPacket_ctor [1, 2]) [Parse [0x80]]) = Some [1, 2] \<and>
   payload_offset (RtpPacket_ctor ([0x90, 0] @ replicate 10 0 @ [0, 0, 0, 0, 7])) \<noteq>
     payload_offset (snd (RtpPacket_parse RtpPacket_default ([0x90, 0] @ replicate 10 0 @ [0, 0, 0, 0, 7])))"
proof -
  let ?e = "[0x90, 0] @ replicate 10 0 @ [0, 0, 0, 0, 7 :: u8]"
  have e: "RtpPacket_parse RtpPacket_default ?e = (True, \<lparr>buf = ?e, payload_offset = 16\<rparr>)" by code_simp
  moreover have "RtpPacket_extension \<lparr>buf = ?e, payload_offset = 16\<rparr>" by code_simp
  moreover have "foldl rtp_op_step (RtpPacket_ctor [1, 2]) [Parse [0x80]] = \<lparr>buf = [1, 2], payload_offset = 0\<rparr>" by code_simp
  ultimately show ?thesis
    using rtp_object_type [OF _ refl e, of "[Parse [0x80]]" "[1, 2]"]
    by (simp add: RtpPacket_size_def RtpPacket_data_def view_from_def)
qed

text \<open>\<open>parse\<close> either leaves the object alone and returns false, or it returns true and the object
  holds the whole input, of version two and at least twelve bytes long, with the payload offset
  behind the fixed header, the CSRC list and the extension (whose length field counts words) and
  never past the end of the buffer.\<close>

theorem rtp_parse_safe:
  "case RtpPacket_parse p d of (ok, p') \<Rightarrow>
     if ok
     then buf p' = d \<and> 12 \<le> length d \<and> RtpPacket_version p' = 2 \<and>
       payload_offset p' =
         12 + 4 * unat (RtpPacket_cc p') +
         (if RtpPacket_extension p'
          then 4 + 4 * unat (read_u16 d (14 + 4 * unat (RtpPacket_cc p'))) else 0) \<and>
       payload_offset p' \<le> length d
     else p' = p"
  by (auto simp: RtpPacket_parse_def Let_def kRtpMinHeaderLen_def RtpPacket_version_def
      RtpPacket_cc_def RtpPacket_extension_def algebra_simps)

text \<open>The wrap-around comparison: \<open>seq_gt (b + k) b\<close> holds exactly for the forward distances
  \<open>1..32767\<close>, so it is irreflexive and asymmetric, and of two different numbers exactly one is
  the newer unless they are half the number space apart, in which case neither is.\<close>

theorem seq_gt_window:
  "(seq_gt (b + k) b \<longleftrightarrow> 0 < unat k \<and> unat k < 2 ^ 15) \<and>
   \<not> (seq_gt a b \<and> seq_gt b a) \<and>
   (seq_gt a b \<or> seq_gt b a \<longleftrightarrow> a \<noteq> b \<and> unat (a - b) \<noteq> 2 ^ 15)"
proof -
  have "uint (b - a) = (- uint (a - b)) mod 65536"
    by (simp add: uint_word_ariths mod_minus_eq)
  then have u: "uint (b - a) = (if uint (a - b) = 0 then 0 else 65536 - uint (a - b))"
    using uint_lt2p [of "a - b"] by (simp add: zmod_zminus1_eq_if)
  have i: "int (unat (a - b)) = uint (a - b)" "int (unat (b - a)) = uint (b - a)" by simp_all
  from u have "unat (b - a) = (if unat (a - b) = 0 then 0 else 65536 - unat (a - b))"
    by (simp only: flip: i split: if_splits) linarith+
  moreover have "unat (a - b) < 65536" by simp
  moreover have "a \<noteq> b \<longleftrightarrow> 0 < unat (a - b)" by (simp add: unat_gt_0)
  ultimately show ?thesis by (auto simp: seq_gt_iff)
qed

end
