(* ===== verification/RingBuffer.thy ===== *)
theory RingBuffer
  imports Prelude
begin

text \<open>
  \<open>net::RingBuffer<T, N>\<close> of \<open>module01_network_core/include/net/ring_buffer.h\<close>: the lock-free
  single-producer single-consumer queue between the capture, encoder and network threads.  First the
  operations as functions of the object, refined to a bounded FIFO queue (the locale
  \<open>bounded_fifo\<close>); then the two threads as a step relation over the single loads and stores of
  \<open>push\<close> and \<open>pop\<close>, in the order the code performs them, on a memory where every load sees the last store;
  \<open>RingMemory\<close> has the weak memory of the machine.
\<close>

section \<open>A bounded FIFO queue\<close>

datatype 'a queue_op = Push 'a | Pop

text \<open>A run of operations, with the items accepted by \<open>push\<close>, those delivered by \<open>pop\<close> and the
  queue in the end; \<open>pop\<close> is called with the item variable \<open>z\<close>.\<close>

fun queue_run :: "('a \<Rightarrow> 'q \<Rightarrow> bool \<times> 'q) \<Rightarrow> ('a \<Rightarrow> 'q \<Rightarrow> bool \<times> 'a \<times> 'q) \<Rightarrow> 'a \<Rightarrow> 'q \<Rightarrow>
    'a queue_op list \<Rightarrow> 'a list \<times> 'a list \<times> 'q" where
  "queue_run push pop z q [] = ([], [], q)"
| "queue_run push pop z q (Push x # ops) =
     (let (ok, q') = push x q; (acc, del, q'') = queue_run push pop z q' ops in
      (if ok then x # acc else acc, del, q''))"
| "queue_run push pop z q (Pop # ops) =
     (let (ok, y, q') = pop z q; (acc, del, q'') = queue_run push pop z q' ops in
      (acc, if ok then y # del else del, q''))"

locale bounded_fifo =
  fixes inv :: "'q \<Rightarrow> bool"
    and abs :: "'q \<Rightarrow> 'a list"
    and cap :: nat
    and push :: "'a \<Rightarrow> 'q \<Rightarrow> bool \<times> 'q"
    and pop :: "'a \<Rightarrow> 'q \<Rightarrow> bool \<times> 'a \<times> 'q"
  assumes cap_bound: "inv q \<Longrightarrow> length (abs q) \<le> cap"
    and push_room: "inv q \<Longrightarrow> length (abs q) < cap \<Longrightarrow>
      fst (push x q) \<and> inv (snd (push x q)) \<and> abs (snd (push x q)) = abs q @ [x]"
    and push_full: "inv q \<Longrightarrow> length (abs q) = cap \<Longrightarrow> push x q = (False, q)"
    and pop_item: "inv q \<Longrightarrow> abs q = y # ys \<Longrightarrow>
      \<exists>q'. pop x q = (True, y, q') \<and> inv q' \<and> abs q' = ys"
    and pop_empty: "inv q \<Longrightarrow> abs q = [] \<Longrightarrow> pop x q = (False, x, q)"
begin

lemma push_cases:
  assumes "inv q"
  obtains (room) q' where "push x q = (True, q')" "inv q'" "abs q' = abs q @ [x]"
  | (full) "push x q = (False, q)" "length (abs q) = cap"
proof (cases "length (abs q) < cap")
  case True
  with push_room [OF assms this, of x] room show ?thesis by (cases "push x q") auto
next
  case False
  with cap_bound [OF assms] push_full [OF assms, of x] full show ?thesis by auto
qed

lemma pop_cases:
  assumes "inv q"
  obtains (item) y q' where "pop x q = (True, y, q')" "inv q'" "abs q = y # abs q'"
  | (empty) "pop x q = (False, x, q)" "abs q = []"
  using assms pop_item [OF assms, of _ _ x] pop_empty [OF assms, of x] by (cases "abs q") auto

text \<open>Nothing is lost, duplicated or reordered: what was queued and accepted is what was delivered,
  followed by what is still queued.\<close>

lemma run_fifo:
  "inv q \<Longrightarrow> queue_run push pop z q ops = (acc, del, q') \<Longrightarrow> inv q' \<and> abs q @ acc = del @ abs q'"
proof (induction ops arbitrary: q acc del)
  case Nil
  then show ?case by simp
next
  case (Cons op ops)
  show ?case
  proof (cases op)
    case (Push x)
    from \<open>inv q\<close> show ?thesis
    proof (cases rule: push_cases [where x = x])
      case (room q1)
      with Cons.IH [of q1] Cons.prems Push show ?thesis
        by (auto split: prod.splits)
    next
      case full
      with Cons.IH [of q] Cons.prems Push show ?thesis
        by (auto split: prod.splits)
    qed
  next
    case Pop
    from \<open>inv q\<close> show ?thesis
    proof (cases rule: pop_cases [where x = z])
      case (item y q1)
      with Cons.IH [of q1] Cons.prems Pop show ?thesis
        by (auto split: prod.splits)
    next
      case empty
      with Cons.IH [of q] Cons.prems Pop show ?thesis
        by (auto split: prod.splits)
    qed
  qed
qed

end

section \<open>The object and its operations\<close>

text \<open>\<open>size_t\<close> is 64 bits wide; \<open>N\<close> is the template parameter.\<close>

record 'a ring =
  head :: u64
  tail :: u64
  slots :: "'a list"

definition ring_push :: "u64 \<Rightarrow> 'a \<Rightarrow> 'a ring \<Rightarrow> bool \<times> 'a ring" where
  "ring_push N item r =
     (let h = head r; next_h = (h + 1) AND (N - 1) in
      if next_h = tail r then (False, r)
      else (True, r\<lparr>slots := (slots r)[unat h := item], head := next_h\<rparr>))"

definition ring_pop :: "u64 \<Rightarrow> 'a \<Rightarrow> 'a ring \<Rightarrow> bool \<times> 'a \<times> 'a ring" where
  "ring_pop N item r =
     (let t = tail r in
      if t = head r then (False, item, r)
      else (True, slots r ! unat t, r\<lparr>tail := (t + 1) AND (N - 1)\<rparr>))"

definition ring_empty :: "'a ring \<Rightarrow> bool" where
  "ring_empty r \<longleftrightarrow> head r = tail r"

definition ring_full :: "u64 \<Rightarrow> 'a ring \<Rightarrow> bool" where
  "ring_full N r \<longleftrightarrow> (head r + 1) AND (N - 1) = tail r"

definition ring_size :: "u64 \<Rightarrow> 'a ring \<Rightarrow> u64" where
  "ring_size N r = (head r - tail r + N) AND (N - 1)"

text \<open>The constructed object: both indices zero, the slots holding whatever \<open>T\<close> starts with.\<close>

definition ring_init :: "u64 \<Rightarrow> 'a \<Rightarrow> 'a ring" where
  "ring_init N x = \<lparr>head = 0, tail = 0, slots = replicate (unat N) x\<rparr>"

text \<open>The \<open>static_assert\<close> of the class, with at least one slot.\<close>

definition pow2_size :: "u64 \<Rightarrow> bool" where
  "pow2_size N \<longleftrightarrow> N AND (N - 1) = 0 \<and> N \<noteq> 0"

section \<open>Masking is reduction modulo the size\<close>

lemma odd_part: "n > 0 \<Longrightarrow> \<exists>k m. n = 2 ^ k * (2 * m + 1 :: nat)"
proof (induction n rule: less_induct)
  case (less n)
  show ?case
  proof (cases "even n")
    case True
    then obtain h where h: "n = 2 * h" by blast
    with less.prems less.IH [of h] obtain k m where "h = 2 ^ k * (2 * m + 1)" by auto
    with h show ?thesis by (intro exI [of _ "Suc k"] exI [of _ m]) simp
  next
    case False
    then obtain m where "n = 2 * m + 1" by (elim oddE)
    then show ?thesis by (intro exI [of _ 0] exI [of _ m]) simp
  qed
qed

lemma drop_block: "c < 2 ^ k \<Longrightarrow> drop_bit (Suc k) (c + 2 ^ k * (2 * m) :: nat) = m"
  unfolding drop_bit_eq_div power_Suc2 div_mult2_eq by simp

lemma pow2_size_exp:
  assumes "pow2_size N"
  obtains k where "unat N = 2 ^ k"
proof -
  from assms have N: "N \<noteq> 0" "N AND (N - 1) = 0" by (simp_all add: pow2_size_def)
  moreover have "unat (N AND (N - 1)) = unat N AND unat (N - 1)" by (rule unsigned_and_eq)
  ultimately have "unat N AND (unat N - 1) = 0"
    using unat_minus_one [of N] by simp
  moreover obtain k m where k: "unat N = 2 ^ k * (2 * m + 1)"
    using odd_part [of "unat N"] N(1) by (auto simp: unat_gt_0)
  moreover have "drop_bit (Suc k) (unat N) = m"
    unfolding drop_bit_eq_div k power_Suc2 div_mult2_eq by simp
  moreover have "unat N - 1 = (2 ^ k - 1) + 2 ^ k * (2 * m)"
    by (simp add: k algebra_simps)
  then have "drop_bit (Suc k) (unat N - 1) = m"
    using drop_block [of "2 ^ k - 1" k m] by simp
  ultimately have "m = 0"
    by (metis and.idem drop_bit_and drop_bit_of_0)
  with k that show ?thesis by simp
qed

lemma mask_index:
  assumes "pow2_size N"
  shows "unat (w AND (N - 1)) = unat w mod unat N"
proof -
  from assms obtain k where k: "unat N = 2 ^ k" by (rule pow2_size_exp)
  have "N \<noteq> 0" using assms by (simp add: pow2_size_def)
  then have "unat (N - 1) = mask k" using k unat_minus_one [of N] by (simp add: mask_eq_exp_minus_1)
  moreover have "unat (w AND (N - 1)) = unat w AND unat (N - 1)" by (rule unsigned_and_eq)
  ultimately show ?thesis by (simp add: k take_bit_eq_mod flip: take_bit_eq_mask)
qed

section \<open>The abstraction\<close>

definition ring_ok :: "u64 \<Rightarrow> 'a ring \<Rightarrow> bool" where
  "ring_ok N r \<longleftrightarrow> pow2_size N \<and> length (slots r) = unat N \<and>
     unat (head r) < unat N \<and> unat (tail r) < unat N"

definition ring_count :: "u64 \<Rightarrow> 'a ring \<Rightarrow> nat" where
  "ring_count N r = (unat (head r) + unat N - unat (tail r)) mod unat N"

text \<open>The queued items: the slots from the tail up to the head.\<close>

definition ring_list :: "u64 \<Rightarrow> 'a ring \<Rightarrow> 'a list" where
  "ring_list N r = map (\<lambda>i. slots r ! ((unat (tail r) + i) mod unat N)) [0..<ring_count N r]"

lemma pow2_size_pos: "pow2_size N \<Longrightarrow> 0 < unat N"
  by (simp add: pow2_size_def unat_gt_0)

lemma next_index:
  assumes "pow2_size N" "unat h < unat N"
  shows "unat ((h + 1) AND (N - 1)) = (unat h + 1) mod unat N"
proof (cases "h + 1 = 0")
  case True
  have "unat (h + 1) = (unat h + 1) mod 2 ^ 64" by (simp add: unat_word_ariths)
  moreover have "unat N < 18446744073709551616" by simp
  ultimately have False using True assms(2) by (simp add: mod_less)
  then show ?thesis ..
next
  case False
  then have "unat (h + 1) = unat h + 1" by (simp add: add.commute unatSuc)
  then show ?thesis using assms by (simp add: mask_index)
qed

text \<open>Indices on the ring as natural numbers.\<close>

lemma ring_diff:
  fixes h t n :: nat
  assumes "h < n" "t < n"
  shows "(h + n - t) mod n = (if t \<le> h then h - t else h + n - t)"
proof (cases "t \<le> h")
  case True
  then have "(h + n - t) mod n = (h - t + n) mod n" by simp
  also have "\<dots> = (h - t) mod n" by (rule mod_add_self2)
  finally show ?thesis using True assms(1) by simp
qed (use assms in simp)

lemma ring_next:
  fixes h n :: nat
  assumes "h < n"
  shows "(h + 1) mod n = (if h + 1 = n then 0 else h + 1)"
  using assms by simp

lemma next_ne_iff:
  fixes h t n :: nat
  assumes "h < n" "t < n"
  shows "(h + 1) mod n = t \<longleftrightarrow> (h + n - t) mod n + 1 = n"
  unfolding ring_next [OF assms(1)] ring_diff [OF assms] using assms by auto

lemma count_push:
  fixes h t n :: nat
  assumes "h < n" "t < n" "(h + 1) mod n \<noteq> t"
  shows "((h + 1) mod n + n - t) mod n = (h + n - t) mod n + 1"
proof -
  have "(h + 1) mod n < n" using assms by simp
  then show ?thesis
    unfolding ring_diff [OF assms(1,2)] ring_diff [OF \<open>(h + 1) mod n < n\<close> assms(2)]
    using assms unfolding ring_next [OF assms(1)] by auto
qed

lemma count_pop:
  fixes h t n :: nat
  assumes "h < n" "t < n" "t \<noteq> h"
  shows "(h + n - t) mod n = (h + n - (t + 1) mod n) mod n + 1"
proof -
  have "(t + 1) mod n < n" using assms by simp
  then show ?thesis
    unfolding ring_diff [OF assms(1,2)] ring_diff [OF assms(1) \<open>(t + 1) mod n < n\<close>]
    using assms unfolding ring_next [OF assms(2)] by auto
qed

lemma ring_index_ne:
  fixes h t n i :: nat
  assumes "h < n" "t < n" "i < (h + n - t) mod n"
  shows "(t + i) mod n \<noteq> h"
proof -
  have "(t + i) mod n = (if t + i < n then t + i else t + i - n)"
    using assms mod_less_divisor [of n "h + n - t"] by (simp add: mod_if)
  then show ?thesis
    using assms unfolding ring_diff [OF assms(1,2)] by (auto split: if_splits)
qed


section \<open>The operations refine the queue\<close>

lemma next_less: "pow2_size N \<Longrightarrow> unat ((h + 1) AND (N - 1)) < unat N"
  by (simp add: mask_index pow2_size_pos)

lemma full_iff_count:
  "ring_ok N r \<Longrightarrow> (head r + 1) AND (N - 1) = tail r \<longleftrightarrow> Suc (ring_count N r) = unat N"
  using next_ne_iff [of "unat (head r)" "unat N" "unat (tail r)"]
  by (simp add: ring_ok_def ring_count_def next_index word_unat_eq_iff)

lemma empty_iff_count: "ring_ok N r \<Longrightarrow> head r = tail r \<longleftrightarrow> ring_count N r = 0"
  using ring_diff [of "unat (head r)" "unat N" "unat (tail r)"]
  by (auto simp: ring_ok_def ring_count_def word_unat_eq_iff)

lemma count_less: "ring_ok N r \<Longrightarrow> ring_count N r < unat N"
  by (simp add: ring_ok_def ring_count_def pow2_size_pos)

lemma length_ring_list [simp]: "length (ring_list N r) = ring_count N r"
  by (simp add: ring_list_def)

text \<open>Writing the slot at the head index changes no queued item.\<close>

lemma ring_list_write:
  assumes "ring_ok N r"
  shows "ring_list N (r\<lparr>slots := (slots r)[unat (head r) := x]\<rparr>) = ring_list N r"
proof -
  have "(unat (tail r) + i) mod unat N \<noteq> unat (head r)" if "i < ring_count N r" for i
    using that assms ring_index_ne by (simp add: ring_count_def ring_ok_def)
  moreover have "ring_count N (r\<lparr>slots := s\<rparr>) = ring_count N r" for s
    by (simp add: ring_count_def)
  ultimately show ?thesis by (simp add: ring_list_def nth_list_update_neq [OF not_sym])
qed

text \<open>Moving the head over a written slot appends its content.\<close>

lemma ring_list_publish:
  assumes ok: "ring_ok N r" and room: "(head r + 1) AND (N - 1) \<noteq> tail r"
    and x: "slots r ! unat (head r) = x"
  shows "ring_list N (r\<lparr>head := (head r + 1) AND (N - 1)\<rparr>) = ring_list N r @ [x]"
proof -
  let ?n = "unat N" and ?h = "unat (head r)" and ?t = "unat (tail r)"
  have lt: "?h < ?n" "?t < ?n" and p: "pow2_size N" using ok by (simp_all add: ring_ok_def)
  have "(?h + 1) mod ?n \<noteq> ?t" using room next_index [OF p lt(1)] by (metis word_unat_eq_iff)
  then have c: "ring_count N (r\<lparr>head := (head r + 1) AND (N - 1)\<rparr>) = Suc (ring_count N r)"
    using count_push [OF lt] by (simp add: ring_count_def next_index [OF p lt(1)])
  have "(?t + ring_count N r) mod ?n = ?h"
    using lt by (auto simp: ring_count_def ring_diff)
  then show ?thesis using x by (simp add: ring_list_def c)
qed

text \<open>Moving the tail drops the first item.\<close>

lemma ring_list_release:
  assumes ok: "ring_ok N r" and ne: "tail r \<noteq> head r"
  shows "ring_list N r = slots r ! unat (tail r) # ring_list N (r\<lparr>tail := (tail r + 1) AND (N - 1)\<rparr>)"
proof -
  let ?n = "unat N" and ?h = "unat (head r)" and ?t = "unat (tail r)"
  have lt: "?h < ?n" "?t < ?n" and p: "pow2_size N" using ok by (simp_all add: ring_ok_def)
  have "?t \<noteq> ?h" using ne by (simp flip: word_unat_eq_iff)
  then have c: "ring_count N r = Suc (ring_count N (r\<lparr>tail := (tail r + 1) AND (N - 1)\<rparr>))"
    using count_pop [OF lt] by (simp add: ring_count_def next_index [OF p lt(2)])
  have "((?t + 1) mod ?n + i) mod ?n = (?t + Suc i) mod ?n" for i
    by (simp add: mod_simps)
  then show ?thesis
    using lt by (simp add: ring_list_def c next_index [OF p lt(2)] upt_conv_Cons map_Suc_upt [symmetric]
        del: upt_Suc)
qed

lemma ring_ok_push: "ring_ok N r \<Longrightarrow> ring_ok N (r\<lparr>head := (h + 1) AND (N - 1)\<rparr>)"
  by (simp add: ring_ok_def next_less)

lemma ring_ok_pop: "ring_ok N r \<Longrightarrow> ring_ok N (r\<lparr>tail := (h + 1) AND (N - 1)\<rparr>)"
  by (simp add: ring_ok_def next_less)

lemma ring_ok_write: "ring_ok N r \<Longrightarrow> ring_ok N (r\<lparr>slots := (slots r)[i := x]\<rparr>)"
  by (simp add: ring_ok_def)

lemma push_room_list:
  assumes ok: "ring_ok N r" and room: "(head r + 1) AND (N - 1) \<noteq> tail r"
  shows "ring_ok N (snd (ring_push N x r)) \<and> ring_list N (snd (ring_push N x r)) = ring_list N r @ [x]"
proof -
  let ?w = "r\<lparr>slots := (slots r)[unat (head r) := x]\<rparr>"
  have w: "ring_ok N ?w" using ok by (rule ring_ok_write)
  have eq: "snd (ring_push N x r) = ?w\<lparr>head := (head ?w + 1) AND (N - 1)\<rparr>"
    using room by (simp add: ring_push_def Let_def)
  have "slots ?w ! unat (head ?w) = x" using ok by (simp add: ring_ok_def)
  then have "ring_list N (?w\<lparr>head := (head ?w + 1) AND (N - 1)\<rparr>) = ring_list N ?w @ [x]"
    using room by (intro ring_list_publish [OF w]) simp_all
  then show ?thesis using ring_ok_push [OF w] ring_list_write [OF ok] by (simp only: eq)
qed

interpretation ring: bounded_fifo "ring_ok N" "ring_list N" "unat N - 1" "ring_push N" "ring_pop N"
  for N :: u64
proof unfold_locales
  fix r :: "'a ring" and x y :: 'a and ys :: "'a list"
  assume ok: "ring_ok N r"
  show "length (ring_list N r) \<le> unat N - 1"
    using count_less [OF ok] by simp
  show "fst (ring_push N x r) \<and> ring_ok N (snd (ring_push N x r)) \<and>
      ring_list N (snd (ring_push N x r)) = ring_list N r @ [x]"
    if "length (ring_list N r) < unat N - 1"
  proof -
    have "(head r + 1) AND (N - 1) \<noteq> tail r" using that full_iff_count [OF ok] by auto
    then show ?thesis using push_room_list [OF ok] by (auto simp: ring_push_def Let_def)
  qed
  show "ring_push N x r = (False, r)" if "length (ring_list N r) = unat N - 1"
    using that full_iff_count [OF ok] count_less [OF ok] by (simp add: ring_push_def Let_def)
  show "\<exists>q'. ring_pop N x r = (True, y, q') \<and> ring_ok N q' \<and> ring_list N q' = ys"
    if "ring_list N r = y # ys"
  proof -
    have "length (ring_list N r) \<noteq> 0" using that by simp
    then have ne: "tail r \<noteq> head r" using empty_iff_count [OF ok] by auto
    then show ?thesis
      using ring_list_release [OF ok ne] that ring_ok_pop [OF ok] by (simp add: ring_pop_def Let_def)
  qed
  show "ring_pop N x r = (False, x, r)" if "ring_list N r = []"
    using that empty_iff_count [OF ok] by (auto simp: ring_pop_def Let_def ring_list_def)
qed

lemma ring_ok_init: "pow2_size N \<Longrightarrow> ring_ok N (ring_init N x)"
  by (simp add: ring_ok_def ring_init_def pow2_size_pos)

lemma ring_list_init [simp]: "ring_list N (ring_init N x) = []"
  by (simp add: ring_list_def ring_count_def ring_init_def)

text \<open>The observers report the abstract queue.\<close>

lemma ring_size_count:
  assumes "ring_ok N r"
  shows "unat (ring_size N r) = ring_count N r"
proof -
  have p: "pow2_size N" and lt: "unat (head r) < unat N" "unat (tail r) < unat N"
    using assms by (simp_all add: ring_ok_def)
  obtain k where k: "unat N = 2 ^ k" using p by (rule pow2_size_exp)
  have "k < 64" using unat_u64_bound [of N] k power_increasing [of 64 k "2::nat"] by (cases "k < 64") auto
  then have "unat N dvd 2 ^ 64" unfolding k by (intro le_imp_power_dvd) simp
  then have "int (unat N) dvd int (2 ^ 64)" by (simp only: of_nat_dvd_iff)
  then have dvd: "uint N dvd 18446744073709551616" by simp
  have "uint (head r - tail r + N) mod int (unat N) =
      (uint (head r) - uint (tail r) + uint N) mod int (unat N)"
    by (simp add: uint_word_ariths mod_mod_cancel [OF dvd])
  also have "\<dots> = int (unat (head r) + unat N - unat (tail r)) mod int (unat N)"
    using lt by (simp add: of_nat_diff algebra_simps)
  finally have "int (unat (head r - tail r + N) mod unat N) =
      int ((unat (head r) + unat N - unat (tail r)) mod unat N)"
    by (simp add: of_nat_mod)
  then show ?thesis
    unfolding of_nat_eq_iff by (simp add: ring_size_def ring_count_def mask_index [OF p])
qed

section \<open>Properties of the operations\<close>

text \<open>C29. Seen as a sequential object the ring is a FIFO queue of capacity \<open>N - 1\<close>: starting from
  a well-formed ring, after any sequence of pushes and pops the items queued at the start followed by
  the accepted ones are exactly the delivered ones followed by those still queued; \<open>push\<close> is refused
  exactly when \<open>full\<close>, \<open>pop\<close> exactly when \<open>empty\<close>, and \<open>size\<close> is the number of queued items.\<close>

theorem ring_fifo:
  assumes "ring_ok N r" and "queue_run (ring_push N) (ring_pop N) z r ops = (acc, del, r')"
  shows "ring_list N r @ acc = del @ ring_list N r' \<and> ring_ok N r' \<and>
    unat (ring_size N r') = length (ring_list N r') \<and> length (ring_list N r') \<le> unat N - 1 \<and>
    (\<not> fst (ring_push N x r') \<longleftrightarrow> ring_full N r') \<and>
    (ring_full N r' \<longleftrightarrow> length (ring_list N r') = unat N - 1) \<and>
    (\<not> fst (ring_pop N x r') \<longleftrightarrow> ring_empty r') \<and> (ring_empty r' \<longleftrightarrow> ring_list N r' = [])"
proof -
  have r': "ring_ok N r'" and fifo: "ring_list N r @ acc = del @ ring_list N r'"
    using ring.run_fifo [OF assms] by auto
  have full: "ring_full N r' \<longleftrightarrow> length (ring_list N r') = unat N - 1"
    using full_iff_count [OF r'] count_less [OF r'] by (auto simp: ring_full_def)
  have empty: "ring_empty r' \<longleftrightarrow> ring_list N r' = []"
    using empty_iff_count [OF r'] by (simp add: ring_empty_def ring_list_def)
  have size: "unat (ring_size N r') = length (ring_list N r')"
    using r' by (simp add: ring_size_count)
  have push: "\<not> fst (ring_push N x r') \<longleftrightarrow> ring_full N r'"
    by (simp add: ring_push_def ring_full_def Let_def)
  have pop: "\<not> fst (ring_pop N x r') \<longleftrightarrow> ring_empty r'"
    by (simp add: ring_pop_def ring_empty_def Let_def eq_commute)
  show ?thesis
    using fifo r' size ring.cap_bound [OF r'] push full pop empty by (intro conjI)
qed

theorem ring_fifo_witness:
  "ring_list 4 (snd (snd (queue_run (ring_push 4) (ring_pop 4) 0 (ring_init 4 (0 :: nat))
     [Push 1, Push 2, Push 3, Push 4, Pop, Push 5, Pop]))) = [3, 5]"
proof -
  have ok: "ring_ok 4 (ring_init 4 (0 :: nat))"
    by (rule ring_ok_init) (simp add: pow2_size_def)
  have run: "queue_run (ring_push 4) (ring_pop 4) 0 (ring_init 4 (0 :: nat))
     [Push 1, Push 2, Push 3, Push 4, Pop, Push 5, Pop] =
     ([1, 2, 3, 5], [1, 2], \<lparr>head = 0, tail = 2, slots = [1, 2, 3, 5]\<rparr>)"
    by code_simp
  show ?thesis using ring_fifo [OF ok run] run by simp
qed

section \<open>The two threads\<close>

text \<open>
  The program counters of \<open>push\<close> (producer) and \<open>pop\<close> (consumer) between the shared accesses of the
  two functions, with the local variables each has read by then.  \<open>sent\<close> and \<open>received\<close> record the
  items of the calls that returned true.
\<close>

datatype 'a producer =
    PIdle
  | PLoaded 'a u64     \<comment> \<open>\<open>h\<close> read from \<open>head_\<close>\<close>
  | PChecked 'a u64    \<comment> \<open>\<open>tail_\<close> read, not full\<close>
  | PWritten 'a u64    \<comment> \<open>\<open>buf_[h]\<close> written\<close>

datatype 'a consumer =
    CIdle
  | CLoaded u64        \<comment> \<open>\<open>t\<close> read from \<open>tail_\<close>\<close>
  | CChecked u64       \<comment> \<open>\<open>head_\<close> read, not empty\<close>
  | CRead u64 'a       \<comment> \<open>\<open>buf_[t]\<close> read\<close>

record 'a spsc =
  rb :: "'a ring"
  prod :: "'a producer"
  cons :: "'a consumer"
  sent :: "'a list"
  received :: "'a list"

inductive spsc_step :: "u64 \<Rightarrow> 'a spsc \<Rightarrow> 'a spsc \<Rightarrow> bool" for N where
  p_load: "prod s = PIdle \<Longrightarrow> spsc_step N s (s\<lparr>prod := PLoaded x (head (rb s))\<rparr>)"
| p_full: "prod s = PLoaded x h \<Longrightarrow> (h + 1) AND (N - 1) = tail (rb s) \<Longrightarrow>
    spsc_step N s (s\<lparr>prod := PIdle\<rparr>)"
| p_check: "prod s = PLoaded x h \<Longrightarrow> (h + 1) AND (N - 1) \<noteq> tail (rb s) \<Longrightarrow>
    spsc_step N s (s\<lparr>prod := PChecked x h\<rparr>)"
| p_write: "prod s = PChecked x h \<Longrightarrow>
    spsc_step N s (s\<lparr>rb := (rb s)\<lparr>slots := (slots (rb s))[unat h := x]\<rparr>, prod := PWritten x h\<rparr>)"
| p_publish: "prod s = PWritten x h \<Longrightarrow>
    spsc_step N s (s\<lparr>rb := (rb s)\<lparr>head := (h + 1) AND (N - 1)\<rparr>, prod := PIdle,
      sent := sent s @ [x]\<rparr>)"
| c_load: "cons s = CIdle \<Longrightarrow> spsc_step N s (s\<lparr>cons := CLoaded (tail (rb s))\<rparr>)"
| c_empty: "cons s = CLoaded t \<Longrightarrow> t = head (rb s) \<Longrightarrow> spsc_step N s (s\<lparr>cons := CIdle\<rparr>)"
| c_check: "cons s = CLoaded t \<Longrightarrow> t \<noteq> head (rb s) \<Longrightarrow> spsc_step N s (s\<lparr>cons := CChecked t\<rparr>)"
| c_read: "cons s = CChecked t \<Longrightarrow>
    spsc_step N s (s\<lparr>cons := CRead t (slots (rb s) ! unat t)\<rparr>)"
| c_release: "cons s = CRead t x \<Longrightarrow>
    spsc_step N s (s\<lparr>rb := (rb s)\<lparr>tail := (t + 1) AND (N - 1)\<rparr>, cons := CIdle,
      received := received s @ [x]\<rparr>)"

definition spsc_init :: "u64 \<Rightarrow> 'a \<Rightarrow> 'a spsc" where
  "spsc_init N z = \<lparr>rb = ring_init N z, prod = PIdle, cons = CIdle, sent = [], received = []\<rparr>"

inductive spsc_reachable :: "u64 \<Rightarrow> 'a \<Rightarrow> 'a spsc \<Rightarrow> bool" for N z where
  start: "spsc_reachable N z (spsc_init N z)"
| step: "spsc_reachable N z s \<Longrightarrow> spsc_step N s s' \<Longrightarrow> spsc_reachable N z s'"

text \<open>What holds between the accesses: each thread's copy of its own index is current, a producer
  past its check has a free slot, a consumer past its check has an item.\<close>

fun prod_ok :: "u64 \<Rightarrow> 'a ring \<Rightarrow> 'a producer \<Rightarrow> bool" where
  "prod_ok N r PIdle \<longleftrightarrow> True"
| "prod_ok N r (PLoaded x h) \<longleftrightarrow> h = head r"
| "prod_ok N r (PChecked x h) \<longleftrightarrow> h = head r \<and> (head r + 1) AND (N - 1) \<noteq> tail r"
| "prod_ok N r (PWritten x h) \<longleftrightarrow> h = head r \<and> (head r + 1) AND (N - 1) \<noteq> tail r \<and>
     slots r ! unat (head r) = x"

fun cons_ok :: "'a ring \<Rightarrow> 'a consumer \<Rightarrow> bool" where
  "cons_ok r CIdle \<longleftrightarrow> True"
| "cons_ok r (CLoaded t) \<longleftrightarrow> t = tail r"
| "cons_ok r (CChecked t) \<longleftrightarrow> t = tail r \<and> tail r \<noteq> head r"
| "cons_ok r (CRead t x) \<longleftrightarrow> t = tail r \<and> tail r \<noteq> head r \<and> x = slots r ! unat (tail r)"

definition spsc_inv :: "u64 \<Rightarrow> 'a spsc \<Rightarrow> bool" where
  "spsc_inv N s \<longleftrightarrow> ring_ok N (rb s) \<and> sent s = received s @ ring_list N (rb s) \<and>
     prod_ok N (rb s) (prod s) \<and> cons_ok (rb s) (cons s)"

lemma spsc_inv_init: "pow2_size N \<Longrightarrow> spsc_inv N (spsc_init N z)"
  by (simp add: spsc_inv_def spsc_init_def ring_ok_init)

text \<open>The other thread's facts survive a thread's accesses.\<close>

lemma cons_ok_write:
  "ring_ok N r \<Longrightarrow> cons_ok r c \<Longrightarrow> cons_ok (r\<lparr>slots := (slots r)[unat (head r) := x]\<rparr>) c"
  by (cases c) (auto simp: nth_list_update word_unat_eq_iff)

lemma cons_ok_publish:
  "(head r + 1) AND (N - 1) \<noteq> tail r \<Longrightarrow> cons_ok r c \<Longrightarrow>
   cons_ok (r\<lparr>head := (head r + 1) AND (N - 1)\<rparr>) c"
  by (cases c) auto

lemma next_inj:
  assumes "pow2_size N" "unat h < unat N" "unat t < unat N"
    and "(h + 1) AND (N - 1) = (t + 1) AND (N - 1)"
  shows "h = t"
proof -
  have "(unat h + 1) mod unat N = (unat t + 1) mod unat N"
    using assms next_index by metis
  then have "unat h = unat t"
    using assms(2,3) unfolding ring_next [OF assms(2)] ring_next [OF assms(3)]
    by (auto split: if_splits)
  then show ?thesis by (simp add: word_unat_eq_iff)
qed

lemma prod_ok_release:
  assumes "ring_ok N r" "tail r \<noteq> head r" "prod_ok N r p"
  shows "prod_ok N (r\<lparr>tail := (tail r + 1) AND (N - 1)\<rparr>) p"
proof -
  have "(head r + 1) AND (N - 1) \<noteq> (tail r + 1) AND (N - 1)"
    using assms next_inj [of N "head r" "tail r"] by (auto simp: ring_ok_def)
  then show ?thesis using assms(3) by (cases p) auto
qed

lemma spsc_step_inv: "spsc_step N s s' \<Longrightarrow> spsc_inv N s \<Longrightarrow> spsc_inv N s'"
proof (induction rule: spsc_step.induct)
  case (p_write s x h)
  then show ?case
    using ring_list_write [of N "rb s" x] cons_ok_write [of N "rb s" "cons s" x]
    by (auto simp: spsc_inv_def ring_ok_def)
next
  case (p_publish s x h)
  then show ?case
    using ring_list_publish [of N "rb s" x] cons_ok_publish [of "rb s" N "cons s"]
      ring_ok_push [of N "rb s" h]
    by (auto simp: spsc_inv_def)
next
  case (c_release s t x)
  then show ?case
    using ring_list_release [of N "rb s"] prod_ok_release [of N "rb s" "prod s"]
      ring_ok_pop [of N "rb s" t]
    by (auto simp: spsc_inv_def)
qed (auto simp: spsc_inv_def)

lemma spsc_reachable_inv: "pow2_size N \<Longrightarrow> spsc_reachable N z s \<Longrightarrow> spsc_inv N s"
  by (rotate_tac, induction rule: spsc_reachable.induct)
     (auto intro: spsc_inv_init spsc_step_inv)

text \<open>However the accesses of one producer and one consumer interleave, the consumer has received
  a prefix of what the producer has sent, in order, and the rest is what the ring holds; and when the
  producer is about to write a slot while the consumer is about to read one, the slots differ.\<close>

theorem spsc_safe:
  assumes "pow2_size N" and "spsc_reachable N z s"
  shows "sent s = received s @ ring_list N (rb s) \<and> ring_count N (rb s) < unat N \<and>
    (case (prod s, cons s) of (PChecked x h, CChecked t) \<Rightarrow> unat h \<noteq> unat t | _ \<Rightarrow> True)"
proof -
  have inv: "spsc_inv N s" using assms by (rule spsc_reachable_inv)
  then have "case (prod s, cons s) of (PChecked x h, CChecked t) \<Rightarrow> unat h \<noteq> unat t | _ \<Rightarrow> True"
    by (auto simp: spsc_inv_def word_unat_eq_iff split: producer.splits consumer.splits)
  with inv count_less [of N "rb s"] show ?thesis by (simp add: spsc_inv_def)
qed

theorem spsc_safe_witness:
  "\<exists>s. spsc_reachable 2 (0 :: nat) s \<and> sent s = [7] \<and> received s = [] \<and> ring_list 2 (rb s) = [7]"
proof -
  let ?s0 = "spsc_init 2 (0 :: nat)"
  let ?s1 = "?s0\<lparr>prod := PLoaded 7 0\<rparr>" and ?s2 = "?s0\<lparr>prod := PChecked 7 0\<rparr>"
  let ?s3 = "?s0\<lparr>rb := (rb ?s0)\<lparr>slots := [7, 0]\<rparr>, prod := PWritten 7 0\<rparr>"
  let ?s4 = "?s0\<lparr>rb := (rb ?s0)\<lparr>slots := [7, 0], head := 1\<rparr>, prod := PIdle, sent := [7]\<rparr>"
  have N: "pow2_size 2" by (simp add: pow2_size_def)
  have "ring_init 2 (0 :: nat) = \<lparr>head = 0, tail = 0, slots = [0, 0]\<rparr>" by code_simp
  note defs = spsc_init_def this
  have st1: "spsc_step 2 ?s0 ?s1" using spsc_step.p_load [of ?s0 2 7] by (simp add: defs)
  have st2: "spsc_step 2 ?s1 ?s2" using spsc_step.p_check [of ?s1 7 0 2] by (simp add: defs)
  have st3: "spsc_step 2 ?s2 ?s3" using spsc_step.p_write [of ?s2 7 0 2] by (simp add: defs)
  have st4: "spsc_step 2 ?s3 ?s4" using spsc_step.p_publish [of ?s3 7 0 2] by (simp add: defs)
  note steps = spsc_reachable.step [OF _ st1] spsc_reachable.step [OF _ st2]
    spsc_reachable.step [OF _ st3] spsc_reachable.step [OF _ st4]
  have r: "spsc_reachable 2 0 ?s4" by (rule steps(4,3,2,1) spsc_reachable.start)+
  from spsc_safe [OF N r] have "ring_list 2 (rb ?s4) = [7]" by (simp add: defs)
  with r show ?thesis by (intro exI [of _ ?s4]) (simp add: defs)
qed

end
