(* ===== verification/RtpJitter.thy ===== *)
theory RtpJitter
  imports StdMap RtpPacket
begin

text \<open>
  \<open>RtpJitterBuffer\<close> of \<open>module02_rtp_rtcp\<close> (\<open>rtp_jitter_buffer.h\<close>, \<open>rtp_jitter_buffer.cpp\<close>): packets
  keyed by sequence number in a \<open>std::map\<close>, handed out strictly one number after the other from the
  number of the first packet pushed, with the 16-bit wrap-around of \<open>++next_seq_\<close>.
\<close>

record rtp_jitter =
  jbuf :: "(u16, rtp_packet) smap"
  next_seq :: u16
  jstarted :: bool

definition rtp_jitter_init :: rtp_jitter where
  "rtp_jitter_init = \<lparr>jbuf = [], next_seq = 0, jstarted = False\<rparr>"

definition jitter_push :: "rtp_jitter \<Rightarrow> rtp_packet \<Rightarrow> rtp_jitter" where
  "jitter_push j pkt =
     (let seq = RtpPacket_sequence pkt; j' = j\<lparr>jbuf := smap_emplace seq pkt (jbuf j)\<rparr> in
      if \<not> jstarted j then j'\<lparr>next_seq := seq, jstarted := True\<rparr> else j')"

definition jitter_pop_next :: "rtp_jitter \<Rightarrow> rtp_packet option \<times> rtp_jitter" where
  "jitter_pop_next j =
     (if jbuf j = [] then (None, j)
      else case smap_find (next_seq j) (jbuf j) of
        None \<Rightarrow> (None, j)
      | Some pkt \<Rightarrow>
          (Some pkt, j\<lparr>jbuf := smap_erase (next_seq j) (jbuf j), next_seq := next_seq j + 1\<rparr>))"

definition jitter_size :: "rtp_jitter \<Rightarrow> nat" where
  "jitter_size j = length (jbuf j)"

section \<open>The invariant\<close>

text \<open>The map is ordered and every packet is stored under its own sequence number.\<close>

definition jitter_ok :: "rtp_jitter \<Rightarrow> bool" where
  "jitter_ok j \<longleftrightarrow> smap_ok (jbuf j) \<and>
     (\<forall>k p. smap_find k (jbuf j) = Some p \<longrightarrow> RtpPacket_sequence p = k) \<and>
     (jstarted j \<or> jbuf j = [])"

lemma jitter_ok_init: "jitter_ok rtp_jitter_init"
  by (simp add: jitter_ok_def rtp_jitter_init_def)

lemma jitter_ok_push: "jitter_ok j \<Longrightarrow> jitter_ok (jitter_push j pkt)"
  by (auto simp: jitter_ok_def jitter_push_def Let_def smap_find_simps smap_ok_simps split: if_splits)

lemma jitter_ok_pop: "jitter_ok j \<Longrightarrow> jitter_ok (snd (jitter_pop_next j))"
  by (auto simp: jitter_ok_def jitter_pop_next_def smap_find_simps smap_ok_simps
      split: option.splits if_splits)

lemma pop_next_eq:
  "jitter_pop_next j =
     (case smap_find (next_seq j) (jbuf j) of
        None \<Rightarrow> (None, j)
      | Some pkt \<Rightarrow>
          (Some pkt, j\<lparr>jbuf := smap_erase (next_seq j) (jbuf j), next_seq := next_seq j + 1\<rparr>))"
  by (simp add: jitter_pop_next_def)

lemma push_fields [simp]:
  "jstarted (jitter_push j p)"
  "jstarted j \<Longrightarrow> next_seq (jitter_push j p) = next_seq j"
  "\<not> jstarted j \<Longrightarrow> next_seq (jitter_push j p) = RtpPacket_sequence p"
  "jbuf (jitter_push j p) = smap_emplace (RtpPacket_sequence p) p (jbuf j)"
  by (simp_all add: jitter_push_def Let_def)

section \<open>Many pushes\<close>

text \<open>The earliest pushed packet of a number is the one that is kept.\<close>

lemma pushes_find:
  "smap_find k (jbuf (foldl jitter_push j ps)) =
     (case smap_find k (jbuf j) of Some p \<Rightarrow> Some p
      | None \<Rightarrow> List.find (\<lambda>p. RtpPacket_sequence p = k) ps)"
  by (induction ps arbitrary: j) (auto simp: smap_find_simps split: option.splits)

lemma pushes_next:
  "jstarted j \<Longrightarrow> jstarted (foldl jitter_push j ps) \<and> next_seq (foldl jitter_push j ps) = next_seq j"
  by (induction ps arbitrary: j) simp_all

lemma pushes_ok: "jitter_ok j \<Longrightarrow> jitter_ok (foldl jitter_push j ps)"
  by (induction ps arbitrary: j) (simp_all add: jitter_ok_push)

section \<open>Many pops\<close>

fun jitter_pops :: "nat \<Rightarrow> rtp_jitter \<Rightarrow> rtp_packet option list \<times> rtp_jitter" where
  "jitter_pops 0 j = ([], j)"
| "jitter_pops (Suc n) j =
     (let (r, j') = jitter_pop_next j; (rs, j'') = jitter_pops n j' in (r # rs, j''))"

text \<open>A run of consecutive numbers that is present comes out in order, each packet once.\<close>

lemma pops_consecutive:
  assumes "n \<le> 2 ^ 16" and "\<forall>i<n. smap_find (next_seq j + of_nat i) (jbuf j) \<noteq> None"
  shows "fst (jitter_pops n j) = map (\<lambda>i. smap_find (next_seq j + of_nat i) (jbuf j)) [0..<n]"
  using assms
proof (induction n arbitrary: j)
  case 0
  then show ?case by simp
next
  case (Suc n)
  obtain p where p: "smap_find (next_seq j) (jbuf j) = Some p"
    using Suc.prems(2)[rule_format, of 0] by auto
  let ?j = "j\<lparr>jbuf := smap_erase (next_seq j) (jbuf j), next_seq := next_seq j + 1\<rparr>"
  have ne: "(of_nat (Suc i) :: u16) \<noteq> 0" if "i < n" for i
    using that Suc.prems(1) by (auto simp: word_of_nat_eq_0_iff simp flip: of_nat_Suc dest!: dvd_imp_le)
  have rest: "smap_find (next_seq ?j + of_nat i) (jbuf ?j) =
      smap_find (next_seq j + of_nat (Suc i)) (jbuf j)" if "i < n" for i
    using ne [OF that] by (simp add: smap_find_simps algebra_simps)
  have "fst (jitter_pops n ?j) = map (\<lambda>i. smap_find (next_seq ?j + of_nat i) (jbuf ?j)) [0..<n]"
    using Suc.prems rest by (intro Suc.IH) auto
  also have "\<dots> = map (\<lambda>i. smap_find (next_seq j + of_nat (Suc i)) (jbuf j)) [0..<n]"
    using rest by (intro map_cong) auto
  finally show ?case
    using p by (cases "jitter_pops n ?j")
      (simp add: pop_next_eq upt_conv_Cons map_Suc_upt [symmetric] comp_def del: upt_Suc)
qed

section \<open>Pushes and pops mixed\<close>

datatype jitter_op = JPush rtp_packet | JPop

text \<open>The packets a run of calls delivers, and the buffer in the end.\<close>

fun jitter_run :: "rtp_jitter \<Rightarrow> jitter_op list \<Rightarrow> rtp_packet list \<times> rtp_jitter" where
  "jitter_run j [] = ([], j)"
| "jitter_run j (JPush p # ops) = jitter_run (jitter_push j p) ops"
| "jitter_run j (JPop # ops) =
     (let (r, j') = jitter_pop_next j; (del, j'') = jitter_run j' ops in
      (case r of Some p \<Rightarrow> p # del | None \<Rightarrow> del, j''))"

lemma pop_next_cases:
  assumes "jitter_ok j" and "jstarted j"
  obtains (none) "jitter_pop_next j = (None, j)"
  | (some) p j' where "jitter_pop_next j = (Some p, j')" "RtpPacket_sequence p = next_seq j"
      "next_seq j' = next_seq j + 1" "jitter_ok j'" "jstarted j'"
proof (cases "smap_find (next_seq j) (jbuf j)")
  case None
  with none show ?thesis by (simp add: pop_next_eq)
next
  case (Some p)
  with some assms jitter_ok_pop [OF assms(1)] show ?thesis
    by (simp add: pop_next_eq jitter_ok_def)
qed

lemma run_in_order:
  assumes "jitter_ok j" and "jstarted j" and "jitter_run j ops = (del, j')"
  shows "run_numbers (next_seq j) del \<and> jstarted j'"
  using assms
proof (induction ops arbitrary: j del)
  case Nil
  then show ?case by simp
next
  case (Cons op ops)
  show ?case
  proof (cases op)
    case (JPush p)
    then show ?thesis
      using Cons.IH [of "jitter_push j p" del] Cons.prems by (simp add: jitter_ok_push)
  next
    case JPop
    from Cons.prems(1,2) show ?thesis
    proof (cases rule: pop_next_cases)
      case none
      with JPop Cons.IH [of j del] Cons.prems show ?thesis by (simp split: prod.splits)
    next
      case (some p j1)
      with JPop Cons.IH [of j1 "tl del"] Cons.prems show ?thesis
        by (auto simp: run_numbers_Cons split: prod.splits)
    qed
  qed
qed

section \<open>Properties\<close>

lemma pops_find:
  assumes "n \<le> 2 ^ 16" and "s = RtpPacket_sequence p"
    and "\<forall>i<n. \<exists>q\<in>set (p # ps). RtpPacket_sequence q = s + of_nat i"
  shows "fst (jitter_pops n (foldl jitter_push rtp_jitter_init (p # ps))) =
    map (\<lambda>i. List.find (\<lambda>q. RtpPacket_sequence q = s + of_nat i) (p # ps)) [0..<n]"
proof -
  let ?j1 = "jitter_push rtp_jitter_init p"
  let ?j = "foldl jitter_push ?j1 ps"
  have next_j: "next_seq ?j = s"
    using pushes_next [of ?j1 ps] assms(2) by (simp add: rtp_jitter_init_def)
  have find_j: "smap_find k (jbuf ?j) = List.find (\<lambda>q. RtpPacket_sequence q = k) (p # ps)" for k
    using pushes_find [of k rtp_jitter_init "p # ps"] by (simp add: rtp_jitter_init_def)
  have "\<forall>i<n. smap_find (next_seq ?j + of_nat i) (jbuf ?j) \<noteq> None"
    using assms(3) unfolding next_j find_j by (auto simp: find_None_iff simp del: List.find.simps)
  from pops_consecutive [OF assms(1) this] show ?thesis
    unfolding next_j find_j by simp
qed

text \<open>C18. Reordering after the first packet is undone.  The first packet pushed into a fresh buffer fixes the number
  \<open>s\<close> the buffer starts at; if the packets pushed hold, behind it in any order and with duplicates, the numbers
  \<open>s, s + 1, ..., s + n - 1\<close> (modulo \<open>2^16\<close>, so also across the wrap), then \<open>n\<close> calls of \<open>pop_next\<close> return
  them in that order, each the earliest pushed packet of its number.  Packets the first one overtook have numbers
  before \<open>s\<close> and are not among these.\<close>

theorem jitter_reorders:
  assumes "n \<le> 2 ^ 16" and "s = RtpPacket_sequence p"
    and "\<forall>i<n. \<exists>q\<in>set (p # ps). RtpPacket_sequence q = s + of_nat i"
  shows "fst (jitter_pops n (foldl jitter_push rtp_jitter_init (p # ps))) =
    map (\<lambda>i. List.find (\<lambda>q. RtpPacket_sequence q = s + of_nat i) (p # ps)) [0..<n]"
  using assms by (rule pops_find)

theorem jitter_reorders_witness:
  "map (map_option RtpPacket_sequence) (fst (jitter_pops 3 (foldl jitter_push rtp_jitter_init
     (map (\<lambda>q. RtpPacket_build 96 q 0 1 None 0 False RtpPacket_default) [65534, 0, 65535])))) =
   [Some 65534, Some 65535, Some 0]"
proof -
  let ?pk = "\<lambda>q. RtpPacket_build 96 q 0 1 None 0 False RtpPacket_default"
  have seq: "RtpPacket_sequence (?pk 65534) = 65534" "RtpPacket_sequence (?pk 65535) = 65535"
    "RtpPacket_sequence (?pk 0) = 0"
    by code_simp+
  have "\<forall>i<3. \<exists>q\<in>set (?pk 65534 # [?pk 0, ?pk 65535]). RtpPacket_sequence q = 65534 + of_nat i"
  proof (intro allI impI)
    fix i :: nat
    assume "i < 3"
    then have "i = 0 \<or> i = 1 \<or> i = 2" by arith
    then show "\<exists>q\<in>set (?pk 65534 # [?pk 0, ?pk 65535]). RtpPacket_sequence q = 65534 + of_nat i"
      by (elim disjE) (simp_all add: seq)
  qed
  from jitter_reorders [OF _ _ this] show ?thesis
    by (simp add: seq numeral_3_eq_3)
qed

text \<open>Whatever is pushed and popped after the first packet, the delivered packets carry
  consecutive numbers from the first packet's on: no number is skipped, repeated or reordered; and
  while the next number is missing, packets with other numbers, however many, unblock nothing.\<close>

theorem jitter_in_order:
  assumes "jitter_run (jitter_push rtp_jitter_init p) ops = (del, j)"
  shows "run_numbers (RtpPacket_sequence p) del \<and>
    (smap_find (next_seq j) (jbuf j) = None \<and> (\<forall>q\<in>set qs. RtpPacket_sequence q \<noteq> next_seq j) \<longrightarrow>
     fst (jitter_pop_next (foldl jitter_push j qs)) = None)"
proof -
  have run: "run_numbers (RtpPacket_sequence p) del \<and> jstarted j"
    using run_in_order [OF jitter_ok_push [OF jitter_ok_init] _ assms]
    by (simp add: rtp_jitter_init_def)
  moreover have "fst (jitter_pop_next (foldl jitter_push j qs)) = None"
    if "smap_find (next_seq j) (jbuf j) = None" "\<forall>q\<in>set qs. RtpPacket_sequence q \<noteq> next_seq j"
    using that run pushes_next [of j qs]
    by (auto simp: pop_next_eq pushes_find find_None_iff [THEN iffD2] split: option.split)
  ultimately show ?thesis by blast
qed

theorem jitter_in_order_witness:
  "\<exists>del j. jitter_run (jitter_push rtp_jitter_init (RtpPacket_ctor [128, 96, 0, 7, 0, 0, 0, 0, 0, 0, 0, 1]))
       [JPop, JPush (RtpPacket_ctor [128, 96, 0, 9, 0, 0, 0, 0, 0, 0, 0, 1]), JPop] = (del, j) \<and>
     map RtpPacket_sequence del = [7] \<and> run_numbers 7 del \<and>
     fst (jitter_pop_next (foldl jitter_push j
       [RtpPacket_ctor [128, 96, 0, 10, 0, 0, 0, 0, 0, 0, 0, 1]])) = None"
proof -
  let ?pk = "\<lambda>n. RtpPacket_ctor [128, 96, 0, n, 0, 0, 0, 0, 0, 0, 0, 1]"
  have seq: "RtpPacket_sequence (?pk 7) = 7" "RtpPacket_sequence (?pk 10) = 10"
    by code_simp+
  have run: "jitter_run (jitter_push rtp_jitter_init (?pk 7)) [JPop, JPush (?pk 9), JPop] =
      ([?pk 7], \<lparr>jbuf = [(9, ?pk 9)], next_seq = 8, jstarted = True\<rparr>)"
    by code_simp
  from jitter_in_order [OF run, of "[?pk 10]"] seq run show ?thesis
    by (simp add: smap_find_def)
qed

end
