(* ===== verification/WireStream.thy ===== *)
theory WireStream
  imports Prelude
begin

text \<open>
  The interface between a serializer that appends encoded records one after the other and the parsing
  loop that walks over them by offset: the FCI entries of an RTCP NACK and the attributes of a STUN
  message are both such streams.  A loop runs while a four-byte record header fits before the end,
  \<open>while (offset + 4 <= end)\<close>, and collects what each record yields.
\<close>

locale record_stream =
  fixes enc :: "'a \<Rightarrow> bytes"
    and valid :: "'a \<Rightarrow> bool"
    and emit :: "'a \<Rightarrow> 'b list"
    and loop :: "bytes \<Rightarrow> nat \<Rightarrow> nat \<Rightarrow> 'b list \<Rightarrow> bool \<times> 'b list"
  assumes loop_done: "\<not> off + 4 \<le> e \<Longrightarrow> loop d off e acc = (True, acc)"
    and loop_record: "valid a \<Longrightarrow> length pre + length (enc a) \<le> e \<Longrightarrow>
      loop (pre @ enc a @ post) (length pre) e acc =
      loop (pre @ enc a @ post) (length pre + length (enc a)) e (acc @ emit a)"
begin

text \<open>The loop reads back every record of the stream, in order.\<close>

lemma loop_stream:
  "list_all valid as \<Longrightarrow>
   loop (pre @ concat (map enc as) @ post) (length pre) (length pre + length (concat (map enc as))) acc =
     (True, acc @ concat (map emit as))"
proof (induction as arbitrary: pre acc)
  case Nil
  then show ?case by (simp add: loop_done)
next
  case (Cons a as)
  let ?rest = "concat (map enc as)"
  have "loop (pre @ enc a @ ?rest @ post) (length pre) (length pre + length (enc a @ ?rest)) acc =
      loop (pre @ enc a @ ?rest @ post) (length pre + length (enc a))
        (length pre + length (enc a @ ?rest)) (acc @ emit a)"
    using Cons.prems by (intro loop_record) simp_all
  also have "\<dots> = (True, (acc @ emit a) @ concat (map emit as))"
    using Cons.IH [of "pre @ enc a" "acc @ emit a"] Cons.prems by (simp add: add.assoc)
  finally show ?case by simp
qed

end

end
