(* ===== verification/Rtcp.thy ===== *)
theory Rtcp
  imports WireStream "HOL-Library.Multiset"
begin

text \<open>
  \<open>RtcpSR\<close> and \<open>RtcpNack\<close> of \<open>module02_rtp_rtcp\<close> (\<open>rtcp_packet.h\<close>, \<open>rtcp_packet.cpp\<close>): the sender
  report, and the generic NACK whose list of lost sequence numbers is compressed into pairs of a first
  number (FSN) and a bit mask of the sixteen numbers after it (BLP).  A \<open>parse\<close> returns its \<open>bool\<close> and
  the object afterwards, partial writes included.
\<close>

section \<open>Sender report\<close>

record rtcp_sr =
  sr_ssrc :: u32
  ntp_sec :: u32
  ntp_frac :: u32
  rtp_timestamp :: u32
  packet_count :: u32
  octet_count :: u32

definition RtcpSR_serialize :: "rtcp_sr \<Rightarrow> bytes" where
  "RtcpSR_serialize s =
     [0x80, 200] @ write_u16 6 @ write_u32 (sr_ssrc s) @ write_u32 (ntp_sec s) @
     write_u32 (ntp_frac s) @ write_u32 (rtp_timestamp s) @ write_u32 (packet_count s) @
     write_u32 (octet_count s)"

definition RtcpSR_parse :: "rtcp_sr \<Rightarrow> bytes \<Rightarrow> bool \<times> rtcp_sr" where
  "RtcpSR_parse s d =
     (let len = length d in
      if len < 28 then (False, s)
      else let version = drop_bit 6 (d ! 0) AND 0x03 in
      if version \<noteq> 2 then (False, s)
      else let pt = d ! 1 in
      if pt \<noteq> 200 then (False, s)
      else let length_words = read_u16 d 2; expected = (unat length_words + 1) * 4 in
      if len < expected then (False, s)
      else (True, \<lparr>sr_ssrc = read_u32 d 4, ntp_sec = read_u32 d 8, ntp_frac = read_u32 d 12,
                   rtp_timestamp = read_u32 d 16, packet_count = read_u32 d 20,
                   octet_count = read_u32 d 24\<rparr>))"

section \<open>Negative acknowledgement\<close>

record rtcp_nack =
  sender_ssrc :: u32
  media_ssrc :: u32
  lost_seqs :: "u16 list"

text \<open>The inner loop over \<open>j\<close>: \<open>seqs\<close> is the vector from index \<open>i + 1\<close> on.\<close>

fun blp_loop :: "u16 \<Rightarrow> u16 \<Rightarrow> u16 list \<Rightarrow> u16" where
  "blp_loop fsn blp [] = blp"
| "blp_loop fsn blp (s # seqs) =
     (let diff = uint s - uint fsn in
      if 1 \<le> diff \<and> diff \<le> 16 then blp_loop fsn (blp OR push_bit (nat (diff - 1)) 1) seqs
      else if diff > 16 then blp
      else blp_loop fsn blp seqs)"

text \<open>The loop that skips the numbers covered by the current BLP.\<close>

fun nack_skip :: "u16 \<Rightarrow> u16 list \<Rightarrow> u16 list" where
  "nack_skip fsn [] = []"
| "nack_skip fsn (s # seqs) = (if uint s - uint fsn \<le> 16 then nack_skip fsn seqs else s # seqs)"

lemma nack_skip_eq: "nack_skip fsn seqs = dropWhile (\<lambda>s. uint s - uint fsn \<le> 16) seqs"
  by (induction seqs) simp_all

text \<open>The outer loop: the argument is the vector from index \<open>i\<close> on.\<close>

function nack_pairs :: "u16 list \<Rightarrow> (u16 \<times> u16) list" where
  "nack_pairs [] = []"
| "nack_pairs (fsn # seqs) = (fsn, blp_loop fsn 0 seqs) # nack_pairs (nack_skip fsn seqs)"
  by pat_completeness auto
termination
  by (relation "measure length") (auto simp: nack_skip_eq less_Suc_eq_le length_dropWhile_le)

definition sorted_seqs :: "u16 list \<Rightarrow> u16 list" where
  "sorted_seqs seqs = remdups_adj (sort seqs)"

definition write_pair :: "u16 \<times> u16 \<Rightarrow> bytes" where
  "write_pair p = write_u16 (fst p) @ write_u16 (snd p)"

definition RtcpNack_serialize :: "rtcp_nack \<Rightarrow> bytes" where
  "RtcpNack_serialize n =
     (let seqs = sorted_seqs (lost_seqs n);
          pairs = nack_pairs seqs;
          total = 12 + length pairs * 4;
          length_words = of_nat (total div 4 - 1) :: u16
      in [0x81, 205] @ write_u16 length_words @ write_u32 (sender_ssrc n) @
         write_u32 (media_ssrc n) @ concat (map write_pair pairs))"

text \<open>One FSN and BLP expanded, the inner \<open>for\<close> loop of \<open>parse\<close>.\<close>

definition expand_pair :: "u16 \<times> u16 \<Rightarrow> u16 list" where
  "expand_pair p =
     fst p # map (\<lambda>i. fst p + of_nat i + 1) (filter (\<lambda>i. snd p AND push_bit i 1 \<noteq> 0) [0..<16])"

function nack_parse_loop :: "bytes \<Rightarrow> nat \<Rightarrow> nat \<Rightarrow> u16 list \<Rightarrow> u16 list" where
  "nack_parse_loop d offset expected lost =
     (if offset + 4 \<le> expected
      then let fsn = read_u16 d offset; blp = read_u16 d (offset + 2) in
        nack_parse_loop d (offset + 4) expected (lost @ expand_pair (fsn, blp))
      else lost)"
  by pat_completeness auto
termination
  by (relation "measure (\<lambda>(d, offset, expected, lost). expected - offset)") auto

declare nack_parse_loop.simps [simp del]

definition RtcpNack_parse :: "rtcp_nack \<Rightarrow> bytes \<Rightarrow> bool \<times> rtcp_nack" where
  "RtcpNack_parse n d =
     (let len = length d in
      if len < 12 then (False, n)
      else let version = drop_bit 6 (d ! 0) AND 0x03 in
      if version \<noteq> 2 then (False, n)
      else let fmt = d ! 0 AND 0x1F in
      if fmt \<noteq> 1 then (False, n)
      else let pt = d ! 1 in
      if pt \<noteq> 205 then (False, n)
      else let length_words = read_u16 d 2; expected = (unat length_words + 1) * 4 in
      if len < expected then (False, n)
      else (True, \<lparr>sender_ssrc = read_u32 d 4, media_ssrc = read_u32 d 8,
                   lost_seqs = nack_parse_loop d 12 expected []\<rparr>))"

section \<open>The compression covers exactly the sorted list\<close>

abbreviation near :: "u16 \<Rightarrow> u16 \<Rightarrow> bool" where
  "near fsn s \<equiv> uint s - uint fsn \<le> 16"

lemma blp_loop_bits:
  assumes "sorted_wrt (<) (fsn # seqs)"
  shows "bit (blp_loop fsn blp seqs) i \<longleftrightarrow>
    bit blp i \<or> (\<exists>s\<in>set (takeWhile (near fsn) seqs). uint s = uint fsn + 1 + int i)"
  using assms
proof (induction seqs arbitrary: blp)
  case Nil
  then show ?case by simp
next
  case (Cons s seqs)
  have gt: "uint s > uint fsn" using Cons.prems by (simp add: word_less_def)
  show ?case
  proof (cases "near fsn s")
    case True
    have "bit (push_bit (nat (uint s - uint fsn - 1)) (1 :: u16)) i \<longleftrightarrow>
        uint s = uint fsn + 1 + int i"
      using gt True by (auto simp: bit_exp_iff)
    then show ?thesis
      using Cons.IH [of "blp OR push_bit (nat (uint s - uint fsn - 1)) 1"] Cons.prems gt True
      by (auto simp: Let_def bit_or_iff)
  next
    case False
    then show ?thesis using gt by (simp add: Let_def)
  qed
qed

text \<open>One pair expands to the first number and the near ones after it.\<close>

lemma expand_pair_near:
  assumes "sorted_wrt (<) (fsn # seqs)"
  shows "expand_pair (fsn, blp_loop fsn 0 seqs) = fsn # takeWhile (near fsn) seqs"
proof -
  let ?blp = "blp_loop fsn 0 seqs" and ?tw = "takeWhile (near fsn) seqs"
  let ?idx = "filter (bit ?blp) [0..<16]"
  have tw_sorted: "sorted_wrt (<) ?tw" and above: "\<And>s. s \<in> set ?tw \<Longrightarrow> uint fsn < uint s \<and> near fsn s"
    using assms by (auto simp: sorted_wrt_append word_less_def dest: set_takeWhileD
        intro: sorted_wrt_takeWhile)
  have bits: "bit ?blp i \<longleftrightarrow> (\<exists>s\<in>set ?tw. uint s = uint fsn + 1 + int i)" for i
    using blp_loop_bits [OF assms, of 0 i] by simp
  have no_wrap: "uint (fsn + of_nat i + 1) = uint fsn + 1 + int i" if b: "bit ?blp i" for i
  proof -
    obtain s :: u16 where "uint s = uint fsn + 1 + int i" using b bits by blast
    then have "uint fsn + int (Suc i) < 65536" using uint_lt2p [of s] by simp
    from uint_add_small [OF this] show ?thesis by (simp add: algebra_simps)
  qed
  have "map (\<lambda>i. fsn + of_nat i + 1) ?idx = ?tw"
  proof (rule sorted_distinct_set_unique)
    have "sorted_wrt (\<lambda>i j. uint (fsn + of_nat i + 1) < uint (fsn + of_nat j + 1)) ?idx"
      by (rule sorted_wrt_mono_rel [OF _ sorted_wrt_filter [OF sorted_wrt_upt]])
         (auto simp: no_wrap)
    then have "sorted_wrt (<) (map (\<lambda>i. fsn + of_nat i + 1) ?idx)"
      by (simp add: sorted_wrt_map word_less_def)
    then show "sorted (map (\<lambda>i. fsn + of_nat i + 1) ?idx)" "distinct (map (\<lambda>i. fsn + of_nat i + 1) ?idx)"
      by (simp_all add: strict_sorted_iff)
    from tw_sorted show "sorted ?tw" "distinct ?tw" by (simp_all add: strict_sorted_iff)
    show "set (map (\<lambda>i. fsn + of_nat i + 1) ?idx) = set ?tw"
    proof (intro equalityI subsetI)
      fix s assume "s \<in> set (map (\<lambda>i. fsn + of_nat i + 1) ?idx)"
      then obtain i where "bit ?blp i" "s = fsn + of_nat i + 1" by auto
      with no_wrap bits show "s \<in> set ?tw" by (metis word_uint_eq_iff)
    next
      fix s assume s: "s \<in> set ?tw"
      define i where "i = nat (uint s - uint fsn - 1)"
      have i: "uint s = uint fsn + 1 + int i" "i < 16" using above [OF s] by (auto simp: i_def)
      then have "bit ?blp i" using bits s by blast
      moreover from this i no_wrap have "s = fsn + of_nat i + 1" by (simp add: word_uint_eq_iff)
      ultimately show "s \<in> set (map (\<lambda>i. fsn + of_nat i + 1) ?idx)" using i(2) by auto
    qed
  qed
  moreover have "(b AND push_bit i 1 \<noteq> 0) = bit b i" for b :: u16 and i
    by (simp add: and_exp_eq_0_iff_not_bit)
  ultimately show ?thesis by (simp add: expand_pair_def)
qed

lemma nack_pairs_expand:
  "sorted_wrt (<) seqs \<Longrightarrow> concat (map expand_pair (nack_pairs seqs)) = seqs"
proof (induction seqs rule: nack_pairs.induct)
  case 1
  then show ?case by simp
next
  case (2 fsn seqs)
  have "sorted_wrt (<) (nack_skip fsn seqs)"
    using "2.prems" by (simp add: nack_skip_eq sorted_wrt_dropWhile)
  with "2.IH" have "concat (map expand_pair (nack_pairs (nack_skip fsn seqs))) = nack_skip fsn seqs"
    by simp
  then show ?case
    by (simp add: expand_pair_near [OF "2.prems"] nack_skip_eq)
qed

section \<open>The number of pairs\<close>

lemma nack_pairs_span:
  "sorted_wrt (<) seqs \<Longrightarrow> seqs \<noteq> [] \<Longrightarrow>
   17 * (int (length (nack_pairs seqs)) - 1) + uint (hd seqs) < 65536"
proof (induction seqs rule: nack_pairs.induct)
  case 1
  then show ?case by simp
next
  case (2 fsn seqs)
  let ?rest = "nack_skip fsn seqs"
  show ?case
  proof (cases "?rest = []")
    case True
    then show ?thesis using uint_lt2p [of fsn] by simp
  next
    case False
    then have "\<not> near fsn (hd ?rest)"
      using hd_dropWhile [of "near fsn" seqs] unfolding nack_skip_eq by blast
    moreover have "sorted_wrt (<) ?rest"
      using "2.prems" by (simp add: nack_skip_eq sorted_wrt_dropWhile)
    then have "17 * (int (length (nack_pairs ?rest)) - 1) + uint (hd ?rest) < 65536"
      using False by (rule "2.IH")
    ultimately show ?thesis by simp
  qed
qed

lemma nack_pairs_bound:
  assumes "sorted_wrt (<) seqs"
  shows "length (nack_pairs seqs) \<le> 3856"
proof (cases "seqs = []")
  case False
  with nack_pairs_span [OF assms] have "17 * (int (length (nack_pairs seqs)) - 1) < 65536"
    by (smt (verit) uint_ge_0)
  then show ?thesis by presburger
qed simp

lemma strict_remdups_adj: "sorted xs \<Longrightarrow> sorted_wrt (<) (remdups_adj (xs :: 'a::linorder list))"
  by (induction xs rule: remdups_adj.induct) (auto simp: less_le)

lemma sorted_seqs_sorted: "sorted_wrt (<) (sorted_seqs seqs)"
  by (simp add: sorted_seqs_def strict_remdups_adj)

lemma set_sorted_seqs [simp]: "set (sorted_seqs seqs) = set seqs"
  by (simp add: sorted_seqs_def)

section \<open>Serializing and parsing\<close>

lemma length_write_pair [simp]: "length (write_pair p) = 4"
  by (simp add: write_pair_def)

interpretation fci: record_stream write_pair "\<lambda>_. True" expand_pair
  "\<lambda>d off e acc. (True, nack_parse_loop d off e acc)"
proof unfold_locales
  fix off e :: nat and d pre post :: bytes and acc :: "u16 list" and p :: "u16 \<times> u16"
  show "(True, nack_parse_loop d off e acc) = (True, acc)" if "\<not> off + 4 \<le> e"
    using that by (simp add: nack_parse_loop.simps [of d off e acc])
  assume "length pre + length (write_pair p) \<le> e"
  moreover have "read_u16 (pre @ write_pair p @ post) (length pre) = fst p"
    using read_u16_write [of "length pre" pre "fst p" "write_u16 (snd p) @ post"]
    by (simp add: write_pair_def)
  moreover have "read_u16 (pre @ write_pair p @ post) (length pre + 2) = snd p"
    using read_u16_write [of "length pre + 2" "pre @ write_u16 (fst p)" "snd p" post]
    by (simp add: write_pair_def)
  ultimately show "(True, nack_parse_loop (pre @ write_pair p @ post) (length pre) e acc) =
      (True, nack_parse_loop (pre @ write_pair p @ post) (length pre + length (write_pair p)) e
        (acc @ expand_pair p))"
    by (subst nack_parse_loop.simps) simp
qed

lemma length_concat_pairs [simp]: "length (concat (map write_pair ps)) = 4 * length ps"
  by (induction ps) simp_all

lemma nack_parse_accepts:
  assumes "12 \<le> length d" "d ! 0 = 0x81" "d ! 1 = 205"
    and "(unat (read_u16 d 2) + 1) * 4 \<le> length d"
  shows "RtcpNack_parse n d =
    (True, \<lparr>sender_ssrc = read_u32 d 4, media_ssrc = read_u32 d 8,
      lost_seqs = nack_parse_loop d 12 ((unat (read_u16 d 2) + 1) * 4) []\<rparr>)"
proof -
  have "drop_bit 6 (0x81 :: u8) AND 3 = 2" "(0x81 :: u8) AND 0x1F = 1" by code_simp+
  with assms(2) have "drop_bit 6 (d ! 0) AND 3 = 2" "d ! 0 AND 0x1F = 1" by (simp_all only:)
  with assms(1,3,4) show ?thesis by (simp add: RtcpNack_parse_def Let_def)
qed

section \<open>Properties\<close>

lemma parse_serialized_nack:
  "RtcpNack_parse q (RtcpNack_serialize n) = (True, n\<lparr>lost_seqs := sorted_seqs (lost_seqs n)\<rparr>)"
  "length (RtcpNack_serialize n) = 12 + 4 * length (nack_pairs (sorted_seqs (lost_seqs n)))"
proof -
  let ?seqs = "sorted_seqs (lost_seqs n)"
  let ?ps = "nack_pairs ?seqs"
  define k :: u16 where "k = of_nat (length ?ps + 2)"
  let ?hdr = "[0x81, 205] @ write_u16 k @ write_u32 (sender_ssrc n) @ write_u32 (media_ssrc n)"
  have bound: "length ?ps \<le> 3856" by (rule nack_pairs_bound [OF sorted_seqs_sorted])
  then have k: "unat k = length ?ps + 2"
    unfolding k_def by (intro unat_of_nat_u16) simp
  have ser: "RtcpNack_serialize n = ?hdr @ concat (map write_pair ?ps)"
    by (simp add: RtcpNack_serialize_def Let_def k_def algebra_simps)
  have rd: "read_u16 (?hdr @ r) 2 = k" "read_u32 (?hdr @ r) 4 = sender_ssrc n"
    "read_u32 (?hdr @ r) 8 = media_ssrc n" for r
    using read_u16_write [of 2 "[0x81, 205]"] read_u32_write [of 4 "[0x81, 205] @ write_u16 x" for x]
      read_u32_write [of 8 "[0x81, 205] @ write_u16 x @ write_u32 y" for x y] by simp_all
  have "(True, nack_parse_loop (?hdr @ concat (map write_pair ?ps) @ []) (length ?hdr)
      (length ?hdr + length (concat (map write_pair ?ps))) []) =
      (True, [] @ concat (map expand_pair ?ps))"
    by (rule fci.loop_stream) (simp add: list_all_iff)
  then have loop: "nack_parse_loop (?hdr @ concat (map write_pair ?ps)) 12 (12 + 4 * length ?ps) [] = ?seqs"
    using nack_pairs_expand [OF sorted_seqs_sorted] by simp
  have "RtcpNack_parse q (?hdr @ concat (map write_pair ?ps)) = (True, n\<lparr>lost_seqs := ?seqs\<rparr>)"
  proof (subst nack_parse_accepts)
    show "(True, \<lparr>sender_ssrc = read_u32 (?hdr @ concat (map write_pair ?ps)) 4,
        media_ssrc = read_u32 (?hdr @ concat (map write_pair ?ps)) 8,
        lost_seqs = nack_parse_loop (?hdr @ concat (map write_pair ?ps)) 12
          ((unat (read_u16 (?hdr @ concat (map write_pair ?ps)) 2) + 1) * 4) []\<rparr>) =
      (True, n\<lparr>lost_seqs := ?seqs\<rparr>)"
      using loop unfolding rd k by (simp add: mult.commute)
  qed (simp_all only: rd k, simp_all)
  then show "RtcpNack_parse q (RtcpNack_serialize n) = (True, n\<lparr>lost_seqs := ?seqs\<rparr>)" by (simp add: ser)
  show "length (RtcpNack_serialize n) = 12 + 4 * length ?ps" by (simp add: ser)
qed

text \<open>C6. A NACK survives the wire: parsing what \<open>serialize\<close> wrote for any list of lost numbers (in
  any order, with repetitions, up to all \<open>2^16\<close> of them) restores both SSRCs and exactly the lost
  numbers, sorted and without repetitions; the message is \<open>12\<close> bytes and four per pair, with at most
  3856 pairs, so its length field never overflows.\<close>

theorem nack_roundtrip:
  "RtcpNack_parse q (RtcpNack_serialize n) =
     (True, n\<lparr>lost_seqs := sorted_seqs (lost_seqs n)\<rparr>) \<and>
   set (sorted_seqs (lost_seqs n)) = set (lost_seqs n) \<and>
   sorted_wrt (<) (sorted_seqs (lost_seqs n)) \<and>
   length (RtcpNack_serialize n) = 12 + 4 * length (nack_pairs (sorted_seqs (lost_seqs n))) \<and>
   length (nack_pairs (sorted_seqs (lost_seqs n))) \<le> 3856"
  using parse_serialized_nack nack_pairs_bound [OF sorted_seqs_sorted] sorted_seqs_sorted by simp

text \<open>A sender report survives the wire: \<open>serialize\<close> writes 28 bytes, \<open>parse\<close> accepts them, also
  with bytes after them, and restores all six fields.\<close>

theorem sender_report_roundtrip:
  "RtcpSR_parse q (RtcpSR_serialize s @ trailing) = (True, s) \<and> length (RtcpSR_serialize s) = 28"
proof -
  let ?h = "[0x80, 200]" and ?l = "write_u16 6" and ?a = "write_u32 (sr_ssrc s)"
  let ?b = "write_u32 (ntp_sec s)" and ?c = "write_u32 (ntp_frac s)"
  let ?d = "write_u32 (rtp_timestamp s)" and ?e = "write_u32 (packet_count s)"
  let ?f = "write_u32 (octet_count s)"
  let ?m = "RtcpSR_serialize s @ trailing"
  have "read_u16 ?m 2 = 6" "read_u32 ?m 4 = sr_ssrc s" "read_u32 ?m 8 = ntp_sec s"
    "read_u32 ?m 12 = ntp_frac s" "read_u32 ?m 16 = rtp_timestamp s"
    "read_u32 ?m 20 = packet_count s" "read_u32 ?m 24 = octet_count s"
    using read_u16_write [of 2 "?h"] read_u32_write [of 4 "?h @ ?l"]
      read_u32_write [of 8 "?h @ ?l @ ?a"] read_u32_write [of 12 "?h @ ?l @ ?a @ ?b"]
      read_u32_write [of 16 "?h @ ?l @ ?a @ ?b @ ?c"]
      read_u32_write [of 20 "?h @ ?l @ ?a @ ?b @ ?c @ ?d"]
      read_u32_write [of 24 "?h @ ?l @ ?a @ ?b @ ?c @ ?d @ ?e"]
    by (simp_all add: RtcpSR_serialize_def)
  then show ?thesis
    by (simp add: RtcpSR_parse_def Let_def) (simp add: RtcpSR_serialize_def)
qed

end
