(* ===== verification/Fec.thy ===== *)
theory Fec
  imports StdMap RtpPacket
begin

text \<open>
  \<open>XorFecEncoder\<close> and \<open>XorFecDecoder\<close> of \<open>module08_weak_network\<close> (\<open>fec.h\<close>, \<open>fec.cpp\<close>): one XOR parity
  packet per group of \<open>group_size\<close> data packets, from which the decoder rebuilds a single lost packet.
  The group size is a positive number (the code divides by it), a natural number here.
\<close>

section \<open>Encoder\<close>

record fec_encoder =
  enc_group_size :: nat
  enc_count :: nat
  xor_buf :: bytes
  enc_base_seq :: u16
  fec_ssrc :: u32
  fec_seq :: u16

definition XorFecEncoder :: "nat \<Rightarrow> fec_encoder" where
  "XorFecEncoder n =
     \<lparr>enc_group_size = n, enc_count = 0, xor_buf = [], enc_base_seq = 0, fec_ssrc = 0xFEC00000,
      fec_seq = 0\<rparr>"

text \<open>Grow the accumulator to the payload's length, then XOR the payload into it: the code that the
  encoder and the decoder both contain.\<close>

definition xor_into :: "bytes \<Rightarrow> bytes \<Rightarrow> bytes" where
  "xor_into acc payload =
     xor_loop (if length acc < length payload then resize (length payload) 0 acc else acc) payload"

definition encoder_feed :: "fec_encoder \<Rightarrow> rtp_packet \<Rightarrow> rtp_packet option \<times> fec_encoder" where
  "encoder_feed e pkt =
     (let payload = payload_bytes pkt;
          e1 = (if enc_count e = 0
                then e\<lparr>enc_base_seq := RtpPacket_sequence pkt, xor_buf := payload\<rparr>
                else e\<lparr>xor_buf := xor_into (xor_buf e) payload\<rparr>);
          e2 = e1\<lparr>enc_count := enc_count e1 + 1\<rparr> in
      if enc_count e2 = enc_group_size e2
      then (Some (RtpPacket_build 127 (fec_seq e2) (ucast (enc_base_seq e2)) (fec_ssrc e2)
                    (Some (xor_buf e2)) (length (xor_buf e2)) False RtpPacket_default),
            e2\<lparr>fec_seq := fec_seq e2 + 1, enc_count := 0, xor_buf := []\<rparr>)
      else (None, e2))"

section \<open>Decoder\<close>

record fec_group =
  pkts :: "rtp_packet option list"
  fec :: "rtp_packet option"
  received_cnt :: nat

definition empty_group :: fec_group where
  "empty_group = \<lparr>pkts = [], fec = None, received_cnt = 0\<rparr>"

record fec_decoder =
  dec_group_size :: nat
  groups :: "(u16, fec_group) smap"

definition XorFecDecoder :: "nat \<Rightarrow> fec_decoder" where
  "XorFecDecoder n = \<lparr>dec_group_size = n, groups = []\<rparr>"

text \<open>\<open>auto& g = groups_[base_seq]; if (g.pkts.empty()) g.pkts.resize(group_size_)\<close>.\<close>

definition group_at :: "nat \<Rightarrow> u16 \<Rightarrow> (u16, fec_group) smap \<Rightarrow> fec_group" where
  "group_at n base_seq gs =
     (let g = (case smap_find base_seq gs of Some g \<Rightarrow> g | None \<Rightarrow> empty_group) in
      if pkts g = [] then g\<lparr>pkts := resize n None (pkts g)\<rparr> else g)"

definition decoder_insert :: "nat \<Rightarrow> (u16, fec_group) smap \<Rightarrow> rtp_packet \<Rightarrow> bool \<Rightarrow> (u16, fec_group) smap" where
  "decoder_insert n gs pkt is_fec =
     (if is_fec
      then let base_seq = ucast (RtpPacket_timestamp pkt AND 0xFFFF); g = group_at n base_seq gs in
        smap_store base_seq (g\<lparr>fec := Some pkt\<rparr>) gs
      else let seq = RtpPacket_sequence pkt;
               base_seq = of_nat ((unat seq div n) * n);
               g = group_at n base_seq gs;
               idx = int (unat seq) - int (unat base_seq);
               g' = (if 0 \<le> idx \<and> idx < int n \<and> pkts g ! nat idx = None
                     then g\<lparr>pkts := (pkts g)[nat idx := Some pkt], received_cnt := received_cnt g + 1\<rparr>
                     else g)
        in smap_store base_seq g' gs)"

definition missing_idx :: "nat \<Rightarrow> fec_group \<Rightarrow> nat list" where
  "missing_idx n g = filter (\<lambda>i. pkts g ! i = None) [0..<n]"

text \<open>The XOR of the parity payload with the payloads that are there.\<close>

definition recover_payload :: "nat \<Rightarrow> fec_group \<Rightarrow> rtp_packet \<Rightarrow> nat \<Rightarrow> bytes" where
  "recover_payload n g f missing =
     fold (\<lambda>i recovered. if i = missing then recovered
             else xor_into recovered (payload_bytes (the (pkts g ! i)))) [0..<n] (payload_bytes f)"

text \<open>Payload type, timestamp and SSRC of the first packet that is there.\<close>

definition infer_fields :: "nat \<Rightarrow> fec_group \<Rightarrow> u8 \<times> u32 \<times> u32" where
  "infer_fields n g =
     (case List.find (\<lambda>i. pkts g ! i \<noteq> None) [0..<n] of
        Some i \<Rightarrow> let p = the (pkts g ! i) in
          (RtpPacket_payload_type p, RtpPacket_timestamp p, RtpPacket_ssrc p)
      | None \<Rightarrow> (96, 0, 0))"

definition recover_group :: "nat \<Rightarrow> u16 \<Rightarrow> fec_group \<Rightarrow> rtp_packet \<Rightarrow> nat \<Rightarrow> rtp_packet" where
  "recover_group n bs g f missing =
     (let recovered = recover_payload n g f missing;
          (pt, ts, ssrc) = infer_fields n g;
          rec_seq = bs + of_nat missing
      in RtpPacket_build pt rec_seq ts ssrc (Some recovered) (length recovered) False
           RtpPacket_default)"

text \<open>The loop over the groups: the first one with a parity packet and exactly one hole.\<close>

fun try_recover :: "nat \<Rightarrow> (u16 \<times> fec_group) list \<Rightarrow> (u16 \<times> rtp_packet) option" where
  "try_recover n [] = None"
| "try_recover n ((bs, g) # rest) =
     (case fec g of
        None \<Rightarrow> try_recover n rest
      | Some f \<Rightarrow>
          if length (pkts g) \<noteq> n then try_recover n rest
          else if length (missing_idx n g) \<noteq> 1 then try_recover n rest
          else Some (bs, recover_group n bs g f (last (missing_idx n g))))"

definition decoder_feed :: "fec_decoder \<Rightarrow> rtp_packet \<Rightarrow> bool \<Rightarrow> rtp_packet option \<times> fec_decoder" where
  "decoder_feed d pkt is_fec =
     (let gs = decoder_insert (dec_group_size d) (groups d) pkt is_fec in
      case try_recover (dec_group_size d) gs of
        Some (bs, rec_pkt) \<Rightarrow> (Some rec_pkt, d\<lparr>groups := smap_erase bs gs\<rparr>)
      | None \<Rightarrow> (None, d\<lparr>groups := gs\<rparr>))"

section \<open>XOR of payloads\<close>

lemma get0_xor_into: "get0 (xor_into acc p) j = get0 acc j XOR get0 p j"
  by (simp add: xor_into_def vec_simps)

lemma length_xor_into: "length (xor_into acc p) = max (length acc) (length p)"
  by (simp add: xor_into_def)

lemma xor_into_Nil [simp]: "xor_into [] p = p"
  by (rule get0_eqI) (simp_all add: get0_xor_into length_xor_into)

text \<open>Column \<open>j\<close> of a list of payloads.\<close>

definition xor_col :: "bytes list \<Rightarrow> nat \<Rightarrow> u8" where
  "xor_col ps j = foldr (\<lambda>p x. get0 p j XOR x) ps 0"

lemma xor_col_simps [simp]:
  "xor_col [] j = 0"
  "xor_col (p # ps) j = get0 p j XOR xor_col ps j"
  by (simp_all add: xor_col_def)

lemma xor_col_append: "xor_col (ps @ qs) j = xor_col ps j XOR xor_col qs j"
  by (induction ps) (simp_all add: ac_simps)

definition max_len :: "bytes list \<Rightarrow> nat" where
  "max_len ps = foldr (\<lambda>p. max (length p)) ps 0"

lemma max_len_simps [simp]:
  "max_len [] = 0" "max_len (p # ps) = max (length p) (max_len ps)"
  by (simp_all add: max_len_def)

lemma max_len_append: "max_len (ps @ qs) = max (max_len ps) (max_len qs)"
  by (induction ps) (simp_all add: max.assoc)

lemma get0_foldl_xor: "get0 (foldl xor_into acc ps) j = get0 acc j XOR xor_col ps j"
  by (induction ps arbitrary: acc) (simp_all add: get0_xor_into xor.assoc)

lemma length_foldl_xor: "length (foldl xor_into acc ps) = max (length acc) (max_len ps)"
  by (induction ps arbitrary: acc) (simp_all add: length_xor_into max.assoc)

lemma xor_buf_cancel:
  assumes "m < length ps"
  shows "xor_col ps j XOR xor_col (take m ps @ drop (Suc m) ps) j = get0 (ps ! m) j"
proof -
  have "xor_col ps j = xor_col (take m ps @ ps ! m # drop (Suc m) ps) j"
    using assms by (simp add: id_take_nth_drop [symmetric])
  then show ?thesis
    by (simp add: xor_col_append ac_simps)
qed

lemma max_len_all_but_one:
  assumes "m < length ps"
  shows "max_len ps = max (length (ps ! m)) (max_len (take m ps @ drop (Suc m) ps))"
proof -
  have "max_len ps = max_len (take m ps @ ps ! m # drop (Suc m) ps)"
    using assms by (simp add: id_take_nth_drop [symmetric])
  then show ?thesis by (simp add: max_len_append ac_simps)
qed

section \<open>Runs of the encoder\<close>

fun encoder_run :: "fec_encoder \<Rightarrow> rtp_packet list \<Rightarrow> rtp_packet option list \<times> fec_encoder" where
  "encoder_run e [] = ([], e)"
| "encoder_run e (p # ps) =
     (let (r, e') = encoder_feed e p; (rs, e'') = encoder_run e' ps in (r # rs, e''))"

lemma encoder_run_append:
  "encoder_run e (ps @ qs) =
     (let (rs, e') = encoder_run e ps; (rs', e'') = encoder_run e' qs in (rs @ rs', e''))"
  by (induction ps arbitrary: e) (simp_all add: Let_def split: prod.splits)

lemma encoder_run_inside:
  "0 < enc_count e \<Longrightarrow> enc_count e + length ps < enc_group_size e \<Longrightarrow>
   encoder_run e ps =
     (replicate (length ps) None,
      e\<lparr>enc_count := enc_count e + length ps,
        xor_buf := foldl xor_into (xor_buf e) (map payload_bytes ps)\<rparr>)"
  by (induction ps arbitrary: e) (simp_all add: encoder_feed_def Let_def)

text \<open>The packet the encoder emits for a group.\<close>

definition parity_packet :: "fec_encoder \<Rightarrow> rtp_packet list \<Rightarrow> rtp_packet" where
  "parity_packet e ps =
     (let x = foldl xor_into [] (map payload_bytes ps) in
      RtpPacket_build 127 (fec_seq e) (ucast (RtpPacket_sequence (hd ps))) (fec_ssrc e) (Some x)
        (length x) False RtpPacket_default)"

lemma encoder_run_group:
  assumes "enc_count e = 0" and "enc_group_size e = length ps" and "ps \<noteq> []"
  shows "encoder_run e ps =
    (replicate (length ps - 1) None @ [Some (parity_packet e ps)],
     e\<lparr>enc_count := 0, xor_buf := [], enc_base_seq := RtpPacket_sequence (hd ps),
       fec_seq := fec_seq e + 1\<rparr>)"
proof (cases "length ps = 1")
  case True
  then obtain p where "ps = [p]" by (auto simp: length_Suc_conv)
  with assms show ?thesis
    by (simp add: encoder_feed_def parity_packet_def Let_def)
next
  case False
  with assms(3) obtain p qs q where ps: "ps = p # qs @ [q]"
    by (cases ps; cases "tl ps" rule: rev_cases) auto
  let ?e1 = "e\<lparr>enc_base_seq := RtpPacket_sequence p, xor_buf := payload_bytes p, enc_count := 1\<rparr>"
  have one: "encoder_feed e p = (None, ?e1)"
    using assms ps by (simp add: encoder_feed_def Let_def)
  have "encoder_run ?e1 qs = (replicate (length qs) None,
      ?e1\<lparr>enc_count := 1 + length qs,
          xor_buf := foldl xor_into (payload_bytes p) (map payload_bytes qs)\<rparr>)"
    using assms(2) ps by (subst encoder_run_inside) simp_all
  with one show ?thesis
    using assms by (simp add: ps encoder_run_append encoder_feed_def parity_packet_def Let_def)
qed

lemma parity_packet_fields:
  "payload_bytes (parity_packet e ps) = foldl xor_into [] (map payload_bytes ps)"
  "RtpPacket_timestamp (parity_packet e ps) = ucast (RtpPacket_sequence (hd ps))"
  "RtpPacket_payload_type (parity_packet e ps) = 127"
  "RtpPacket_sequence (parity_packet e ps) = fec_seq e"
  "RtpPacket_ssrc (parity_packet e ps) = fec_ssrc e"
  by (simp_all add: parity_packet_def Let_def build_buf wire_simps)

section \<open>Runs of the decoder\<close>

fun decoder_run :: "fec_decoder \<Rightarrow> (rtp_packet \<times> bool) list \<Rightarrow> rtp_packet option list \<times> fec_decoder" where
  "decoder_run d [] = ([], d)"
| "decoder_run d ((p, is_fec) # ps) =
     (let (r, d') = decoder_feed d p is_fec; (rs, d'') = decoder_run d' ps in (r # rs, d''))"

lemma recover_payload_eq:
  "recover_payload n g f missing =
     foldl xor_into (payload_bytes f)
       (map (\<lambda>i. payload_bytes (the (pkts g ! i))) (filter (\<lambda>i. i \<noteq> missing) [0..<n]))"
proof -
  have "fold (\<lambda>i r. if i = missing then r else xor_into r (h i)) is acc =
      foldl xor_into acc (map h (filter (\<lambda>i. i \<noteq> missing) is))" for h acc "is"
    by (induction "is" arbitrary: acc) simp_all
  then show ?thesis by (simp add: recover_payload_def)
qed

text \<open>A group of which some packets have come in: \<open>Some i\<close> stands for data packet \<open>i\<close>, \<^const>\<open>None\<close> for
  the parity packet.\<close>

definition got_group :: "rtp_packet list \<Rightarrow> rtp_packet \<Rightarrow> nat option set \<Rightarrow> fec_group" where
  "got_group ps f S =
     \<lparr>pkts = map (\<lambda>i. if Some i \<in> S then Some (ps ! i) else None) [0..<length ps],
      fec = (if None \<in> S then Some f else None),
      received_cnt = card {i. Some i \<in> S}\<rparr>"

definition got_groups :: "u16 \<Rightarrow> rtp_packet list \<Rightarrow> rtp_packet \<Rightarrow> nat option set \<Rightarrow> (u16, fec_group) smap" where
  "got_groups b ps f S = (if S = {} then [] else [(b, got_group ps f S)])"

definition fec_input :: "rtp_packet list \<Rightarrow> rtp_packet \<Rightarrow> nat option \<Rightarrow> rtp_packet \<times> bool" where
  "fec_input ps f x = (case x of Some i \<Rightarrow> (ps ! i, False) | None \<Rightarrow> (f, True))"

lemma got_group_empty:
  "got_group ps f {} = \<lparr>pkts = replicate (length ps) None, fec = None, received_cnt = 0\<rparr>"
  by (simp add: got_group_def map_replicate_const)

lemma group_at_got:
  "ps \<noteq> [] \<Longrightarrow> group_at (length ps) b (got_groups b ps f S) = got_group ps f S"
  by (auto simp: group_at_def got_groups_def got_group_empty empty_group_def resize_def
      smap_find_def Let_def) (auto simp: got_group_def)

lemma store_got: "smap_store b g (got_groups b ps f S) = [(b, g)]"
  by (simp add: got_groups_def)

definition aligned_group :: "u16 \<Rightarrow> rtp_packet list \<Rightarrow> rtp_packet \<Rightarrow> bool" where
  "aligned_group b ps f \<longleftrightarrow>
     ps \<noteq> [] \<and> length ps dvd unat b \<and> unat b + length ps \<le> 2 ^ 16 \<and>
     (\<forall>i<length ps. RtpPacket_sequence (ps ! i) = b + of_nat i) \<and>
     RtpPacket_timestamp f = ucast b"

lemma aligned_unat:
  assumes "aligned_group b ps f" and "i < length ps"
  shows "unat (RtpPacket_sequence (ps ! i)) = unat b + i"
proof -
  have "unat b + i < 65536" using assms by (auto simp: aligned_group_def)
  then have "unat (b + of_nat i) = unat b + i"
    by (simp add: unat_word_ariths unat_of_nat)
  with assms show ?thesis by (simp add: aligned_group_def)
qed

lemma got_group_data:
  assumes "i < length ps" and "Some i \<notin> S" and "finite S"
  shows "got_group ps f (insert (Some i) S) =
    (got_group ps f S)\<lparr>pkts := (pkts (got_group ps f S))[i := Some (ps ! i)],
      received_cnt := received_cnt (got_group ps f S) + 1\<rparr>"
proof -
  have fin: "finite {j. Some j \<in> S}"
    using assms(3) finite_vimageI [of S Some] by (simp add: vimage_def)
  have "{j. Some j \<in> insert (Some i) S} = insert i {j. Some j \<in> S}" by auto
  with fin assms show ?thesis
    by (auto simp: got_group_def intro!: nth_equalityI simp: nth_list_update)
qed

lemma decoder_insert_data:
  assumes base: "of_nat (unat (RtpPacket_sequence p) div n * n) = b"
    and u: "unat (RtpPacket_sequence p) = unat b + i" and i: "i < n"
    and hole: "pkts (group_at n b gs) ! i = None"
  shows "decoder_insert n gs p False =
    smap_store b ((group_at n b gs)\<lparr>pkts := (pkts (group_at n b gs))[i := Some p],
      received_cnt := received_cnt (group_at n b gs) + 1\<rparr>) gs"
proof -
  have idx: "int (unat (RtpPacket_sequence p)) - int (unat b) = int i" using u by linarith
  have "0 \<le> int i \<and> int i < int n \<and> pkts (group_at n b gs) ! nat (int i) = None"
    using i hole by simp
  then show ?thesis
    unfolding decoder_insert_def Let_def base idx by simp
qed

lemma insert_got:
  assumes ok: "aligned_group b ps f" and x: "x \<notin> S" and i: "\<And>i. x = Some i \<Longrightarrow> i < length ps"
    and fin: "finite S"
  shows "(case fec_input ps f x of (p, is_fec) \<Rightarrow>
      decoder_insert (length ps) (got_groups b ps f S) p is_fec) = got_groups b ps f (insert x S)"
proof (cases x)
  case None
  then have "got_group ps f (insert None S) = (got_group ps f S)\<lparr>fec := Some f\<rparr>"
    by (simp add: got_group_def)
  moreover have "(ucast (ucast b AND 0xFFFF :: u32) :: u16) = b"
    by (rule bit_word_eqI) (auto simp: bit_simps bit_0xFFFF_int)
  ultimately show ?thesis
    using None ok
    by (simp add: fec_input_def decoder_insert_def Let_def group_at_got aligned_group_def store_got)
       (simp add: got_groups_def)
next
  case (Some i)
  let ?q = "ps ! i"
  from Some i have il: "i < length ps" by simp
  have u: "unat (RtpPacket_sequence ?q) = unat b + i" using aligned_unat [OF ok il] .
  from ok obtain k where k: "unat b = length ps * k" by (auto simp: aligned_group_def dvd_def)
  then have "unat (RtpPacket_sequence ?q) div length ps = k"
    using il by (cases "length ps = 0") (simp_all add: u)
  then have base: "(of_nat (unat (RtpPacket_sequence ?q) div length ps * length ps) :: u16) = b"
    using k by (metis mult.commute of_nat_unat ucast_id)
  have ne: "ps \<noteq> []" using il by auto
  have hole: "pkts (group_at (length ps) b (got_groups b ps f S)) ! i = None"
    using il x Some by (simp add: group_at_got [OF ne]) (simp add: got_group_def)
  have "decoder_insert (length ps) (got_groups b ps f S) ?q False =
      [(b, got_group ps f (insert (Some i) S))]"
    using decoder_insert_data [OF base u il hole] il x Some fin
    by (simp add: group_at_got [OF ne] store_got got_group_data)
  with Some show ?thesis by (simp add: fec_input_def) (simp add: got_groups_def)
qed

text \<open>All of a group but data packet \<open>m\<close>.\<close>

definition all_but :: "nat \<Rightarrow> nat \<Rightarrow> nat option set" where
  "all_but m n = insert None (Some ` ({..<n} - {m}))"

lemma missing_got:
  "missing_idx (length ps) (got_group ps f S) = filter (\<lambda>i. Some i \<notin> S) [0..<length ps]"
  by (auto simp: missing_idx_def got_group_def intro!: filter_cong)

lemma upt_split: "m < n \<Longrightarrow> [0..<n] = [0..<m] @ m # [Suc m..<n]"
  using upt_add_eq_append [of 0 m "n - m"] by (simp add: upt_conv_Cons)

lemma map_nth_all_but:
  assumes "m < length ps"
  shows "map (\<lambda>i. h (ps ! i)) (filter (\<lambda>i. i \<noteq> m) [0..<length ps]) = map h (take m ps @ drop (Suc m) ps)"
proof -
  have "filter (\<lambda>i. i \<noteq> m) [0..<length ps] = [0..<m] @ [Suc m..<length ps]"
    by (subst upt_split [OF assms]) (auto simp: filter_id_conv)
  moreover have "map (\<lambda>i. h (ps ! i)) [0..<m] = map h (take m ps)"
    using assms by (intro nth_equalityI) simp_all
  moreover have "map (\<lambda>i. h (ps ! i)) [Suc m..<length ps] = map h (drop (Suc m) ps)"
    by (intro nth_equalityI) simp_all
  ultimately show ?thesis by simp
qed

lemma missing_all_but:
  assumes m: "m < n"
  shows "filter (\<lambda>i. Some i \<notin> all_but m n) [0..<n] = [m]"
proof -
  note upt_split [OF m]
  moreover have "filter (\<lambda>i. Some i \<notin> all_but m n) [0..<m] = []"
    "filter (\<lambda>i. Some i \<notin> all_but m n) [Suc m..<n] = []"
    using m by (auto simp: all_but_def filter_empty_conv)
  moreover have "Some m \<notin> all_but m n" by (auto simp: all_but_def)
  ultimately show ?thesis by simp
qed

lemma try_recover_early:
  assumes m: "m < length ps" and S: "S \<subset> all_but m (length ps)"
  shows "try_recover (length ps) (got_groups b ps f S) = None"
proof (cases "None \<in> S")
  case True
  with S obtain j where j: "Some j \<notin> S" "j < length ps" "j \<noteq> m"
    by (auto simp: all_but_def)
  have "Some m \<notin> S" using S by (auto simp: all_but_def)
  with j m have "{m, j} \<subseteq> set (filter (\<lambda>i. Some i \<notin> S) [0..<length ps])" by auto
  then have "card {m, j} \<le> length (filter (\<lambda>i. Some i \<notin> S) [0..<length ps])"
    by (metis List.finite_set card_mono card_length le_trans)
  with j(3) show ?thesis
    by (simp add: got_groups_def missing_got split: option.splits)
next
  case False
  then show ?thesis by (simp add: got_groups_def got_group_def)
qed

lemma try_recover_full:
  assumes "m < length ps"
  shows "try_recover (length ps) (got_groups b ps f (all_but m (length ps))) =
    Some (b, recover_group (length ps) b (got_group ps f (all_but m (length ps))) f m)"
proof -
  let ?S = "all_but m (length ps)"
  have "fec (got_group ps f ?S) = Some f" "length (pkts (got_group ps f ?S)) = length ps"
    by (simp_all add: got_group_def all_but_def)
  moreover have "got_groups b ps f ?S = [(b, got_group ps f ?S)]"
    by (simp add: got_groups_def all_but_def)
  ultimately show ?thesis
    using missing_all_but [OF assms] by (simp add: missing_got)
qed

lemma decoder_run_got:
  assumes ok: "aligned_group b ps f" and m: "m < length ps"
    and ord: "distinct ord" "ord \<noteq> []" "S \<inter> set ord = {}" "S \<union> set ord = all_but m (length ps)"
  shows "decoder_run \<lparr>dec_group_size = length ps, groups = got_groups b ps f S\<rparr> (map (fec_input ps f) ord) =
    (replicate (length ord - 1) None @
       [Some (recover_group (length ps) b (got_group ps f (all_but m (length ps))) f m)],
     XorFecDecoder (length ps))"
  using ord
proof (induction ord arbitrary: S)
  case Nil
  then show ?case by simp
next
  case (Cons x ord)
  have fin: "finite S"
  proof (rule finite_subset)
    show "S \<subseteq> all_but m (length ps)" using Cons.prems(4) by blast
    show "finite (all_but m (length ps))" by (simp add: all_but_def)
  qed
  have i: "i < length ps" if "x = Some i" for i
    using Cons.prems(4) that by (auto simp: all_but_def)
  obtain p is_fec where x: "fec_input ps f x = (p, is_fec)" by (cases "fec_input ps f x")
  with insert_got [OF ok, of x S, OF _ i fin] Cons.prems(3)
  have ins: "decoder_insert (length ps) (got_groups b ps f S) p is_fec = got_groups b ps f (insert x S)"
    by simp
  show ?case
  proof (cases ord)
    case Nil
    with Cons.prems have full: "insert x S = all_but m (length ps)" by simp
    have "smap_erase b (got_groups b ps f (insert x S)) = []"
      by (simp add: got_groups_def smap_erase_def)
    with Nil show ?thesis
      using try_recover_full [OF m, of b f]
      by (simp add: x decoder_feed_def ins full XorFecDecoder_def)
  next
    case (Cons y ys)
    then have early: "insert x S \<subset> all_but m (length ps)"
      using Cons.prems by (auto simp flip: Cons.prems(4))
    have "decoder_run \<lparr>dec_group_size = length ps, groups = got_groups b ps f (insert x S)\<rparr>
        (map (fec_input ps f) ord) =
      (replicate (length ord - 1) None @
         [Some (recover_group (length ps) b (got_group ps f (all_but m (length ps))) f m)],
       XorFecDecoder (length ps))"
      using Cons.prems Cons by (intro Cons.IH) auto
    with Cons show ?thesis
      by (simp add: x decoder_feed_def ins try_recover_early [OF m early] split: prod.splits)
  qed
qed

lemma recovered_payload:
  assumes m: "m < length ps" and f: "payload_bytes f = foldl xor_into [] (map payload_bytes ps)"
  shows "recover_payload (length ps) (got_group ps f (all_but m (length ps))) f m =
    resize (max_len (map payload_bytes ps)) 0 (payload_bytes (ps ! m))"
proof -
  let ?g = "got_group ps f (all_but m (length ps))" and ?ds = "map payload_bytes ps"
  let ?others = "take m ?ds @ drop (Suc m) ?ds"
  have "map (\<lambda>i. payload_bytes (the (pkts ?g ! i))) (filter (\<lambda>i. i \<noteq> m) [0..<length ps]) =
      map (\<lambda>i. payload_bytes (ps ! i)) (filter (\<lambda>i. i \<noteq> m) [0..<length ps])"
    by (auto simp: got_group_def all_but_def)
  then have eq: "recover_payload (length ps) ?g f m = foldl xor_into (foldl xor_into [] ?ds) ?others"
    using map_nth_all_but [OF m, of payload_bytes]
    by (simp add: recover_payload_eq f take_map drop_map)
  have len: "length (payload_bytes (ps ! m)) \<le> max_len ?ds" "max_len ?others \<le> max_len ?ds"
    using max_len_all_but_one [of m ?ds] m by simp_all
  from len(2) have "max (max_len ?ds) (max_len ?others) = max_len ?ds" by simp
  note len = len this
  show ?thesis
  proof (rule get0_eqI)
    show "length (recover_payload (length ps) ?g f m) =
        length (resize (max_len ?ds) 0 (payload_bytes (ps ! m)))"
      unfolding eq length_foldl_xor using len(3) by simp
    show "get0 (recover_payload (length ps) ?g f m) j =
        get0 (resize (max_len ?ds) 0 (payload_bytes (ps ! m))) j" for j
      unfolding eq get0_foldl_xor using xor_buf_cancel [of m ?ds j] m len(1) by (simp add: get0_resize)
  qed
qed

lemma infer_fields_got:
  assumes "m < length ps" and "2 \<le> length ps"
  defines "q \<equiv> ps ! (if m = 0 then 1 else 0)"
  shows "infer_fields (length ps) (got_group ps f (all_but m (length ps))) =
    (RtpPacket_payload_type q, RtpPacket_timestamp q, RtpPacket_ssrc q)"
proof -
  let ?k = "if m = 0 then 1 else 0 :: nat"
  have got: "pkts (got_group ps f (all_but m (length ps))) ! i =
      (if i \<noteq> m then Some (ps ! i) else None)" if "i < length ps" for i
    using that by (auto simp: got_group_def all_but_def)
  have k: "?k < length ps" "?k \<noteq> m" "\<forall>j<?k. j = m" using assms by auto
  then have "List.find (\<lambda>i. pkts (got_group ps f (all_but m (length ps))) ! i \<noteq> None) [0..<length ps] = Some ?k"
    unfolding find_Some_iff by (intro exI [of _ ?k]) (simp add: got)
  then show ?thesis
    using got [OF k(1)] k(2) by (simp add: infer_fields_def Let_def q_def)
qed

text \<open>What the decoder does on data packets alone, or with a parity packet of an unaligned group: every
  group holds either data or a parity packet, never both.\<close>

definition apart :: "nat \<Rightarrow> (u16, fec_group) smap \<Rightarrow> bool" where
  "apart n gs \<longleftrightarrow> smap_ok gs \<and> (\<forall>k g. smap_find k gs = Some g \<longrightarrow>
     (if n dvd unat k then fec g = None else pkts g = replicate n None))"

lemma apart_group_at:
  assumes "apart n gs" and "0 < n"
  shows "if n dvd unat k then fec (group_at n k gs) = None
    else pkts (group_at n k gs) = replicate n None"
  using assms unfolding apart_def
  by (auto simp: group_at_def empty_group_def resize_def Let_def split: option.splits)

lemma apart_store:
  "apart n gs \<Longrightarrow> (if n dvd unat k then fec g = None else pkts g = replicate n None) \<Longrightarrow>
   apart n (smap_store k g gs)"
  by (simp add: apart_def smap_ok_simps smap_find_simps)

lemma data_base_aligned:
  fixes seq :: u16
  shows "n dvd unat (of_nat (unat seq div n * n) :: u16)"
proof -
  have "unat seq div n * n \<le> unat seq" by (metis div_mult_mod_eq le_add1)
  then have "unat seq div n * n < 65536" using unat_u16_bound [of seq] by linarith
  then have "unat (of_nat (unat seq div n * n) :: u16) = unat seq div n * n" by (rule unat_of_nat_u16)
  then show ?thesis by simp
qed

lemma apart_insert:
  assumes "apart n gs" and "0 < n"
    and fec: "is_fec \<Longrightarrow> \<not> n dvd unat (ucast (RtpPacket_timestamp p AND 0xFFFF) :: u16)"
  shows "apart n (decoder_insert n gs p is_fec)"
proof (cases is_fec)
  case True
  with apart_group_at [OF assms(1,2), of "ucast (RtpPacket_timestamp p AND 0xFFFF)"] fec assms(1)
  show ?thesis by (simp add: decoder_insert_def Let_def apart_store)
next
  case False
  let ?b = "of_nat (unat (RtpPacket_sequence p) div n * n) :: u16"
  have "fec (group_at n ?b gs) = None"
    using apart_group_at [OF assms(1,2), of ?b] data_base_aligned by (simp only: if_True)
  with False data_base_aligned [of n "RtpPacket_sequence p"] assms(1) show ?thesis
    unfolding decoder_insert_def Let_def by (simp only: if_False) (rule apart_store, auto)
qed

lemma apart_no_recovery:
  assumes "2 \<le> n" and "\<forall>(k, g)\<in>set gs. if n dvd unat k then fec g = None else pkts g = replicate n None"
  shows "try_recover n gs = None"
proof -
  have "missing_idx n g = [0..<n]" if "pkts g = replicate n None" for g
    using that by (auto simp: missing_idx_def filter_id_conv)
  with assms show ?thesis
    by (induction n gs rule: try_recover.induct) (auto split: option.splits if_splits)
qed

lemma apart_run:
  assumes "2 \<le> dec_group_size d" and "apart (dec_group_size d) (groups d)"
    and "\<forall>(p, is_fec)\<in>set ps. is_fec \<longrightarrow>
      \<not> dec_group_size d dvd unat (ucast (RtpPacket_timestamp p AND 0xFFFF) :: u16)"
  shows "fst (decoder_run d ps) = replicate (length ps) None"
  using assms
proof (induction ps arbitrary: d)
  case Nil
  then show ?case by simp
next
  case (Cons q ps)
  obtain p is_fec where q: "q = (p, is_fec)" by (cases q)
  let ?gs = "decoder_insert (dec_group_size d) (groups d) p is_fec"
  have ap: "apart (dec_group_size d) ?gs"
    using Cons.prems q by (intro apart_insert) auto
  then have "try_recover (dec_group_size d) ?gs = None"
    using Cons.prems(1) by (intro apart_no_recovery) (auto simp: apart_def sm.entry_iff_find)
  moreover have "fst (decoder_run (d\<lparr>groups := ?gs\<rparr>) ps) = replicate (length ps) None"
    using Cons.prems ap by (intro Cons.IH) auto
  ultimately show ?case
    by (simp add: q decoder_feed_def split: prod.splits) (metis fst_conv)
qed

section \<open>Properties\<close>

text \<open>One parity packet per full group: from a group boundary, feeding \<open>n\<close> packets makes the encoder
  return nothing \<open>n - 1\<close> times and then a packet of type 127 with the encoder's SSRC and running
  sequence number, the group's first sequence number as its timestamp and, as its payload, the
  column-wise XOR of the payloads as if padded with zeros to the longest; the encoder is at a group
  boundary again, so this repeats group after group.\<close>

theorem fec_encoder_group:
  assumes "enc_count e = 0" and "enc_group_size e = length ps" and "ps \<noteq> []"
  shows "\<exists>f. encoder_run e ps =
      (replicate (length ps - 1) None @ [Some f],
       e\<lparr>enc_count := 0, xor_buf := [], enc_base_seq := RtpPacket_sequence (hd ps),
         fec_seq := fec_seq e + 1\<rparr>) \<and>
    RtpPacket_payload_type f = 127 \<and> RtpPacket_sequence f = fec_seq e \<and>
    RtpPacket_ssrc f = fec_ssrc e \<and> RtpPacket_timestamp f = ucast (RtpPacket_sequence (hd ps)) \<and>
    length (payload_bytes f) = max_len (map payload_bytes ps) \<and>
    (\<forall>j. get0 (payload_bytes f) j = xor_col (map payload_bytes ps) j)"
  using encoder_run_group [OF assms]
  by (auto simp: parity_packet_fields length_foldl_xor get0_foldl_xor)

theorem fec_encoder_group_witness:
  "\<exists>f. fst (encoder_run (XorFecEncoder 2)
      [RtpPacket_build 96 4 0 1 (Some [1, 2]) 2 False RtpPacket_default,
       RtpPacket_build 96 5 0 1 (Some [7]) 1 False RtpPacket_default]) = [None, Some f] \<and>
    RtpPacket_timestamp f = 4 \<and> get0 (payload_bytes f) 0 = 6"
proof -
  let ?p = "RtpPacket_build 96 4 0 1 (Some [1, 2]) 2 False RtpPacket_default"
  let ?q = "RtpPacket_build 96 5 0 1 (Some [7]) 1 False RtpPacket_default"
  have "RtpPacket_sequence ?p = 4" "payload_bytes ?p = [1, 2]" "payload_bytes ?q = [7]"
    by (simp_all add: build_buf wire_simps)
  moreover have "ucast (4 :: u16) = (4 :: u32)" "(1 :: u8) XOR 7 = 6" by code_simp+
  moreover have "enc_count (XorFecEncoder 2) = 0"
    "enc_group_size (XorFecEncoder 2) = length [?p, ?q]" "[?p, ?q] \<noteq> []"
    by (simp_all add: XorFecEncoder_def)
  from fec_encoder_group [OF this] obtain f where "fst (encoder_run (XorFecEncoder 2) [?p, ?q]) = [None, Some f]"
    "RtpPacket_timestamp f = ucast (RtpPacket_sequence ?p)"
    "\<forall>j. get0 (payload_bytes f) j = xor_col (map payload_bytes [?p, ?q]) j"
    by auto
  moreover have "get0 [1, 2] 0 = 1" "get0 [7] 0 = 7" by (simp_all add: get0_def)
  ultimately show ?thesis by (intro exI [of _ f]) (simp del: encoder_run.simps)
qed

text \<open>The recovered packet, field by field.\<close>

lemma recovered_packet:
  assumes "2 \<le> n" and "length ps = n" and "n dvd unat b" and "unat b + n \<le> 2 ^ 16"
    and "\<forall>i<n. RtpPacket_sequence (ps ! i) = b + of_nat i"
    and "enc_count e = 0" and "enc_group_size e = n" and "last (fst (encoder_run e ps)) = Some f"
    and "m < n" and "distinct ord" and "set ord = insert None (Some ` ({..<n} - {m}))"
  defines "q \<equiv> ps ! (if m = 0 then 1 else 0)"
  shows "decoder_run (XorFecDecoder n) (map (fec_input ps f) ord) =
      (replicate (n - 1) None @ [Some \<lparr>buf = rtp_header (RtpPacket_payload_type q) (RtpPacket_sequence (ps ! m))
           (RtpPacket_timestamp q) (RtpPacket_ssrc q) False @
         resize (max_len (map payload_bytes ps)) 0 (payload_bytes (ps ! m)), payload_offset = 12\<rparr>],
       XorFecDecoder n)"
proof -
  have m: "m < length ps" and ne: "ps \<noteq> []" using assms by auto
  have "f = parity_packet e ps" using assms(2,6-8) encoder_run_group [of e ps] ne by simp
  then have pf: "payload_bytes f = foldl xor_into [] (map payload_bytes ps)"
    and ts: "RtpPacket_timestamp f = ucast b"
    using assms(1,2,5) ne by (simp_all add: parity_packet_fields hd_conv_nth)
  then have ok: "aligned_group b ps f" using assms ne by (simp add: aligned_group_def)
  have card: "length ord = n"
  proof -
    have "card (set ord) = Suc (card ({..<n} - {m}))"
      using assms(11) by (simp add: card_image image_iff)
    then show ?thesis using assms(9) distinct_card [OF assms(10)] by simp
  qed
  have "decoder_run (XorFecDecoder (length ps)) (map (fec_input ps f) ord) =
      (replicate (length ord - 1) None @
         [Some (recover_group (length ps) b (got_group ps f (all_but m (length ps))) f m)],
       XorFecDecoder (length ps))"
  proof -
    have S: "set ord = all_but m (length ps)"
      unfolding all_but_def assms(2) by (rule assms(11))
    then have "None \<in> set ord" by (simp add: all_but_def)
    then have ne: "ord \<noteq> []" by auto
    have "{} \<union> set ord = all_but m (length ps)" using S by simp
    from decoder_run_got [OF ok m assms(10) ne _ this] show ?thesis
      by (simp add: got_groups_def XorFecDecoder_def)
  qed
  moreover have "RtpPacket_sequence (ps ! m) = b + of_nat m" using assms(5,9) by simp
  moreover have two: "2 \<le> length ps" using assms(1,2) by simp
  ultimately show ?thesis
    unfolding card assms(2) [symmetric] q_def
    by (simp add: recover_group_def recovered_payload [OF m pf] infer_fields_got [OF m two] Let_def build_buf)
qed

text \<open>C5. One loss per group is repaired: let the data packets of a group carry the sequence numbers
  \<open>b, b + 1, ..., b + n - 1\<close> with \<open>n\<close> dividing \<open>b\<close>, and let \<open>f\<close> be the parity packet the encoder emits
  for them.  Fed to a fresh decoder in any order without packet \<open>m\<close>, these packets make it return
  nothing until the last one has come in, and then the lost packet: its sequence number, its payload
  (padded with zeros to the longest of the group), and the payload type, timestamp and SSRC of the
  first packet of the group that was received.  The decoder then holds no group any more.\<close>

theorem fec_recovers_lost_packet:
  assumes "2 \<le> n" and "length ps = n" and "n dvd unat b" and "unat b + n \<le> 2 ^ 16"
    and "\<forall>i<n. RtpPacket_sequence (ps ! i) = b + of_nat i"
    and "enc_count e = 0" and "enc_group_size e = n" and "last (fst (encoder_run e ps)) = Some f"
    and "m < n" and "distinct ord" and "set ord = insert None (Some ` ({..<n} - {m}))"
  shows "\<exists>r. decoder_run (XorFecDecoder n) (map (fec_input ps f) ord) =
      (replicate (n - 1) None @ [Some r], XorFecDecoder n) \<and>
    RtpPacket_sequence r = RtpPacket_sequence (ps ! m) \<and>
    payload_bytes r = resize (max_len (map payload_bytes ps)) 0 (payload_bytes (ps ! m)) \<and>
    (let q = ps ! (if m = 0 then 1 else 0) in
     RtpPacket_payload_type r = RtpPacket_payload_type q \<and>
     RtpPacket_timestamp r = RtpPacket_timestamp q \<and> RtpPacket_ssrc r = RtpPacket_ssrc q)"
proof -
  have "RtpPacket_payload_type p AND 0x7F = RtpPacket_payload_type p" for p
    by (simp add: RtpPacket_payload_type_def and.assoc)
  with recovered_packet [OF assms] show ?thesis by (simp add: built_accessors Let_def)
qed

theorem fec_recovers_lost_packet_witness:
  "\<exists>f r. fst (decoder_run (XorFecDecoder 2)
        [(f, True), (RtpPacket_build 96 4 0 1 (Some [1, 2]) 2 False RtpPacket_default, False)]) =
      [None, Some r] \<and>
    RtpPacket_sequence r = 5 \<and> payload_bytes r = [7, 0]"
proof -
  let ?p = "RtpPacket_build 96 4 0 1 (Some [1, 2]) 2 False RtpPacket_default"
  let ?q = "RtpPacket_build 96 5 0 1 (Some [7]) 1 False RtpPacket_default"
  let ?f = "parity_packet (XorFecEncoder 2) [?p, ?q]"
  have pq: "RtpPacket_sequence ?p = 4" "RtpPacket_sequence ?q = 5" "payload_bytes ?p = [1, 2]"
    "payload_bytes ?q = [7]"
    by (simp_all add: build_buf wire_simps)
  have enc: "enc_count (XorFecEncoder 2) = 0" "enc_group_size (XorFecEncoder 2) = 2"
    by (simp_all add: XorFecEncoder_def)
  have last: "last (fst (encoder_run (XorFecEncoder 2) [?p, ?q])) = Some ?f"
    by (subst encoder_run_group) (simp_all add: enc)
  have seqs: "\<forall>i<2. RtpPacket_sequence ([?p, ?q] ! i) = 4 + of_nat i"
    using pq by (simp add: less_Suc_eq numeral_2_eq_2 del: One_nat_def)
  have len: "length [?p, ?q] = 2" by simp
  have al: "2 dvd unat (4 :: u16)" "unat (4 :: u16) + 2 \<le> 2 ^ 16" by simp_all
  have ord: "distinct [None, Some (0 :: nat)]"
    "set [None, Some 0] = insert None (Some ` ({..<2} - {1 :: nat}))"
    by (auto simp: less_Suc_eq numeral_2_eq_2)
  obtain r where "decoder_run (XorFecDecoder 2) (map (fec_input [?p, ?q] ?f) [None, Some 0]) =
      (replicate (2 - 1) None @ [Some r], XorFecDecoder 2)"
    "RtpPacket_sequence r = RtpPacket_sequence ([?p, ?q] ! 1)"
    "payload_bytes r = resize (max_len (map payload_bytes [?p, ?q])) 0 (payload_bytes ([?p, ?q] ! 1))"
    using fec_recovers_lost_packet [OF order_refl len al seqs enc last one_less_numeral_iff [THEN iffD2] ord]
    by fastforce
  with pq show ?thesis
    by (intro exI [of _ ?f] exI [of _ r]) (simp add: fec_input_def resize_def del: decoder_run.simps)
qed

text \<open>The decoder repairs nothing when the group boundaries of the sender are not multiples of the
  group size: it looks up data packets under the multiple of \<open>n\<close> below their sequence number, but a
  parity packet under the first sequence number of its group, so if that is never a multiple of \<open>n\<close>
  (a stream of groups of four whose first sequence number is odd, say), no packet whatsoever makes a
  fresh decoder return a recovered packet.\<close>

theorem fec_unaligned_never_recovers:
  assumes "2 \<le> n"
    and "\<forall>(p, is_fec)\<in>set ps. is_fec \<longrightarrow>
      \<not> n dvd unat (ucast (RtpPacket_timestamp p AND 0xFFFF) :: u16)"
  shows "fst (decoder_run (XorFecDecoder n) ps) = replicate (length ps) None"
  using assms by (intro apart_run) (simp_all add: XorFecDecoder_def apart_def)

theorem fec_unaligned_never_recovers_witness:
  "fst (decoder_run (XorFecDecoder 2)
     [(RtpPacket_build 96 5 0 1 (Some [7]) 1 False RtpPacket_default, False),
      (RtpPacket_build 127 0 5 0 (Some [3]) 1 False RtpPacket_default, True)]) = [None, None]"
proof -
  let ?ps = "[(RtpPacket_build 96 5 0 1 (Some [7]) 1 False RtpPacket_default, False),
      (RtpPacket_build 127 0 5 0 (Some [3]) 1 False RtpPacket_default, True)]"
  have "\<not> 2 dvd unat (ucast ((5 :: u32) AND 0xFFFF) :: u16)" by code_simp
  then have "\<forall>(p, is_fec)\<in>set ?ps. is_fec \<longrightarrow>
      \<not> 2 dvd unat (ucast (RtpPacket_timestamp p AND 0xFFFF) :: u16)"
    by (simp add: build_buf wire_simps)
  from fec_unaligned_never_recovers [OF order_refl this] show ?thesis
    by (simp add: numeral_2_eq_2)
qed

end
