(* ===== verification/Nack.thy ===== *)
theory Nack
  imports StdMap RtpPacket
begin

text \<open>
  \<open>NackManager\<close> of \<open>module08_weak_network\<close> (\<open>nack_manager.h\<close>, \<open>nack_manager.cpp\<close>): the receiver's record of
  the sequence numbers that are missing, with the time each was first missed.  Times are nanoseconds of
  the steady clock, as integers.  \<open>steady_clock::now()\<close> is read once per number the gap loop adds, so a
  call takes the readings as a function of that number.
\<close>

record nack_manager =
  received :: "u16 set"
  max_seen :: u16
  nack_started :: bool
  missing :: "(u16, int) smap"

definition nack_init :: nack_manager where
  "nack_init = \<lparr>received = {}, max_seen = 0, nack_started = False, missing = []\<rparr>"

text \<open>\<open>for (uint16_t s = prev + 1; s != seq; ++s)\<close>.\<close>

function gap_loop :: "u16 set \<Rightarrow> (u16 \<Rightarrow> int) \<Rightarrow> u16 \<Rightarrow> u16 \<Rightarrow> (u16, int) smap \<Rightarrow> (u16, int) smap" where
  "gap_loop recv now seq s miss =
     (if s = seq then miss
      else gap_loop recv now seq (s + 1) (if s \<notin> recv then smap_store s (now s) miss else miss))"
  by pat_completeness auto
termination
proof (relation "measure (\<lambda>(recv, now, seq, s, miss). unat (seq - s))")
  fix seq s :: u16
  assume "s \<noteq> seq"
  then have "seq - s \<noteq> 0" by simp
  then have "unat (seq - s - 1) < unat (seq - s)"
    by (simp add: unat_minus_one unat_gt_0)
  then have "unat (seq - (s + 1)) < unat (seq - s)" by (simp add: diff_diff_add)
  then show "((recv, now, seq, s + 1, if s \<notin> recv then smap_store s (now s) miss else miss),
      recv, now, seq, s, miss) \<in> measure (\<lambda>(recv, now, seq, s, miss). unat (seq - s))"
    for recv :: "u16 set" and now :: "u16 \<Rightarrow> int" and miss :: "(u16, int) smap"
    by simp
qed simp

declare gap_loop.simps [simp del]

definition on_receive :: "nack_manager \<Rightarrow> (u16 \<Rightarrow> int) \<Rightarrow> u16 \<Rightarrow> nack_manager" where
  "on_receive m now seq =
     (let m1 = m\<lparr>received := insert seq (received m)\<rparr> in
      if \<not> nack_started m1 then m1\<lparr>max_seen := seq, nack_started := True\<rparr>
      else
        let m2 = (if seq_gt seq (max_seen m1)
                  then m1\<lparr>missing := gap_loop (received m1) now seq (max_seen m1 + 1) (missing m1),
                          max_seen := seq\<rparr>
                  else m1)
        in case smap_find seq (missing m2) of
             Some _ \<Rightarrow> m2\<lparr>missing := smap_erase seq (missing m2)\<rparr>
           | None \<Rightarrow> m2)"

text \<open>\<open>duration_cast<milliseconds>\<close> drops the fraction, towards zero.\<close>

definition to_ms :: "int \<Rightarrow> int" where
  "to_ms ns = (if 0 \<le> ns then ns div 1000000 else - ((- ns) div 1000000))"

definition NACK_TIMEOUT_MS :: int where
  "NACK_TIMEOUT_MS = 100"

definition get_nack_list :: "nack_manager \<Rightarrow> int \<Rightarrow> u16 list" where
  "get_nack_list m now =
     map fst (filter (\<lambda>(seq, first_seen). to_ms (now - first_seen) \<ge> NACK_TIMEOUT_MS) (missing m))"

section \<open>The gap loop\<close>

lemma find_gap_loop:
  assumes "d < 2 ^ 16"
  shows "smap_find x (gap_loop recv now (s + of_nat d) s miss) =
    (if unat (x - s) < d \<and> x \<notin> recv then Some (now x) else smap_find x miss)"
  using assms
proof (induction d arbitrary: s miss)
  case 0
  then show ?case by (subst gap_loop.simps) simp
next
  case (Suc d)
  have ne: "(of_nat (Suc d) :: u16) \<noteq> 0"
    using Suc.prems by (auto simp: word_of_nat_eq_0_iff simp del: of_nat_Suc dest: dvd_imp_le)
  have dist: "unat (x - s) < Suc d \<longleftrightarrow> x = s \<or> unat (x - (s + 1)) < d"
  proof (cases "x = s")
    case False
    then have "x - s \<noteq> 0" by simp
    then have "unat (x - s - 1) = unat (x - s) - 1" "0 < unat (x - s)"
      by (simp_all add: unat_minus_one unat_gt_0)
    then show ?thesis using False by (auto simp: diff_diff_add)
  qed simp
  have "unat (- 1 :: u16) = 65535" by (simp add: unsigned_minus_1_eq_mask mask_eq_exp_minus_1)
  then have "unat (s - (s + 1)) = 65535" by simp
  then have "unat (x - (s + 1)) < d \<Longrightarrow> x \<noteq> s"
    using Suc.prems by auto
  let ?miss = "if s \<notin> recv then smap_store s (now s) miss else miss"
  have "gap_loop recv now (s + of_nat (Suc d)) s miss =
      gap_loop recv now ((s + 1) + of_nat d) (s + 1) ?miss"
    using ne by (subst gap_loop.simps) (simp add: add.assoc)
  moreover have "smap_find x (gap_loop recv now ((s + 1) + of_nat d) (s + 1) ?miss) =
      (if unat (x - (s + 1)) < d \<and> x \<notin> recv then Some (now x) else smap_find x ?miss)"
    using Suc.prems by (intro Suc.IH) simp
  ultimately show ?case
    using dist \<open>unat (x - (s + 1)) < d \<Longrightarrow> x \<noteq> s\<close> by (simp only:) (simp add: smap_find_simps)
qed

lemma ok_gap_loop: "smap_ok miss \<Longrightarrow> smap_ok (gap_loop recv now seq s miss)"
  by (induction recv now seq s miss rule: gap_loop.induct)
     (subst gap_loop.simps, simp add: smap_ok_simps)

section \<open>One packet\<close>

definition nack_ok :: "nack_manager \<Rightarrow> bool" where
  "nack_ok m \<longleftrightarrow> smap_ok (missing m) \<and> (nack_started m \<or> missing m = []) \<and>
     (\<forall>x\<in>received m. smap_find x (missing m) = None)"

lemma nack_ok_init: "nack_ok nack_init"
  by (simp add: nack_ok_def nack_init_def)

text \<open>Erasing a key that is not there changes nothing.\<close>

lemma on_receive_eq:
  "on_receive m now seq =
     m\<lparr>received := insert seq (received m),
       max_seen := (if \<not> nack_started m \<or> seq_gt seq (max_seen m) then seq else max_seen m),
       nack_started := True,
       missing := (if \<not> nack_started m then missing m
         else smap_erase seq
           (if seq_gt seq (max_seen m)
            then gap_loop (insert seq (received m)) now seq (max_seen m + 1) (missing m)
            else missing m))\<rparr>"
proof -
  have "smap_erase k miss = miss" if "smap_find k miss = None" for k and miss :: "(u16, int) smap"
    using that by (force simp: smap_erase_def smap_find_def map_of_eq_None_iff filter_id_conv)
  then show ?thesis
    by (simp add: on_receive_def Let_def split: option.split)
qed

lemma seq_gt_distance:
  assumes "seq_gt seq mx"
  obtains d where "seq = mx + 1 + of_nat d" and "d < 2 ^ 15" and "unat (seq - mx) = Suc d"
proof -
  from assms have d: "0 < unat (seq - mx)" "unat (seq - mx) < 2 ^ 15" by (simp_all add: seq_gt_iff)
  have "seq = mx + of_nat (unat (seq - mx))" by simp
  also have "\<dots> = mx + 1 + of_nat (unat (seq - mx) - 1)"
    using d(1) by (subst Suc_pred' [OF d(1)]) (simp only: of_nat_Suc add.assoc)
  finally show thesis by (rule that) (use d in simp_all)
qed

lemma find_on_receive:
  assumes "nack_started m" and "seq_gt seq (max_seen m)"
  shows "smap_find x (missing (on_receive m now seq)) =
    (if x = seq then None
     else if unat (x - (max_seen m + 1)) < unat (seq - max_seen m) - 1 \<and> x \<notin> received m
     then Some (now x) else smap_find x (missing m))"
proof -
  obtain d where d: "seq = max_seen m + 1 + of_nat d" "d < 2 ^ 15" "unat (seq - max_seen m) = Suc d"
    using seq_gt_distance [OF assms(2)] .
  have "smap_find x (gap_loop recv now seq (max_seen m + 1) miss) =
      (if unat (x - (max_seen m + 1)) < d \<and> x \<notin> recv then Some (now x) else smap_find x miss)" for recv miss
    unfolding d(1) using d(2) by (intro find_gap_loop) simp
  with assms d(3) show ?thesis
    by (simp add: on_receive_eq smap_find_simps)
qed

lemma nack_ok_on_receive:
  assumes "nack_ok m"
  shows "nack_ok (on_receive m now seq)"
proof -
  have "smap_ok (missing (on_receive m now seq))"
    using assms by (auto simp: on_receive_eq nack_ok_def smap_ok_simps ok_gap_loop)
  moreover have "smap_find x (missing (on_receive m now seq)) = None"
    if "x \<in> insert seq (received m)" for x
  proof (cases "nack_started m \<and> seq_gt seq (max_seen m)")
    case True
    then show ?thesis
      using that assms by (auto simp: find_on_receive nack_ok_def)
  next
    case False
    then show ?thesis
      using that assms by (auto simp: on_receive_eq nack_ok_def smap_find_simps)
  qed
  moreover have "received (on_receive m now seq) = insert seq (received m)"
    "nack_started (on_receive m now seq)"
    by (simp_all add: on_receive_eq)
  ultimately show ?thesis by (simp add: nack_ok_def)
qed

section \<open>Many packets\<close>

type_synonym nack_event = "u16 \<times> (u16 \<Rightarrow> int)"

definition nack_run :: "nack_manager \<Rightarrow> nack_event list \<Rightarrow> nack_manager" where
  "nack_run m evs = foldl (\<lambda>m (seq, now). on_receive m now seq) m evs"

lemma nack_run_simps [simp]:
  "nack_run m [] = m"
  "nack_run m ((seq, now) # evs) = nack_run (on_receive m now seq) evs"
  "nack_run m (evs @ [(seq, now)]) = on_receive (nack_run m evs) now seq"
  by (simp_all add: nack_run_def)

lemma nack_ok_run: "nack_ok m \<Longrightarrow> nack_ok (nack_run m evs)"
  by (induction evs arbitrary: m) (auto simp: nack_ok_on_receive)

lemma received_run: "received (nack_run m evs) = received m \<union> fst ` set evs"
proof (induction evs arbitrary: m)
  case (Cons e evs)
  then show ?case by (cases e) (simp add: on_receive_eq)
qed simp

text \<open>Forward distances from the first packet, while they stay below half the number space.\<close>

definition in_window :: "u16 \<Rightarrow> nack_event list \<Rightarrow> bool" where
  "in_window s0 evs \<longleftrightarrow> (\<forall>(s, _)\<in>set evs. unat (s - s0) < 2 ^ 15)"

lemma window_diff:
  fixes a b s0 :: u16
  shows "uint (a - b) = (uint (a - s0) - uint (b - s0)) mod 65536"
proof -
  have "a - b = (a - s0) - (b - s0)" by simp
  then show ?thesis by (simp only: uint_word_ariths) simp
qed

lemma window_unat:
  fixes a b s0 :: u16
  shows "unat (a - b) = (if unat (b - s0) \<le> unat (a - s0) then unat (a - s0) - unat (b - s0)
    else unat (a - s0) + 65536 - unat (b - s0))"
proof -
  define i j where "i = uint (a - s0)" and "j = uint (b - s0)"
  have ij: "int (unat (a - s0)) = i" "int (unat (b - s0)) = j" by (simp_all add: i_def j_def)
  have "unat (a - s0) < 65536" "unat (b - s0) < 65536" by simp_all
  then have bounds: "0 \<le> i" "i < 65536" "0 \<le> j" "j < 65536"
    using ij by linarith+
  have u: "uint (a - b) = (i - j) mod 65536"
    unfolding i_def j_def by (rule window_diff)
  have "(i - j) mod 65536 = (if j \<le> i then i - j else i - j + 65536)"
  proof (cases "j \<le> i")
    case True
    with bounds show ?thesis by (simp add: mod_pos_pos_trivial)
  next
    case False
    with bounds have "(i - j + 65536) mod 65536 = i - j + 65536"
      by (intro mod_pos_pos_trivial) simp_all
    with False show ?thesis by simp
  qed
  with u have eq: "uint (a - b) = (if j \<le> i then i - j else i - j + 65536)" by simp
  have c: "int (unat (a - b)) = uint (a - b)" by simp
  have le: "unat (b - s0) \<le> unat (a - s0) \<longleftrightarrow> j \<le> i" using ij by linarith
  show ?thesis
  proof (cases "j \<le> i")
    case True
    with eq have "uint (a - b) = i - j" by simp
    then have "unat (a - b) = unat (a - s0) - unat (b - s0)" using c ij True by linarith
    with True le show ?thesis by simp
  next
    case False
    with eq have "uint (a - b) = i - j + 65536" by simp
    then have "unat (a - b) = unat (a - s0) + 65536 - unat (b - s0)" using c ij bounds by linarith
    with False le show ?thesis by simp
  qed
qed

lemma window_seq_gt:
  fixes a b s0 :: u16
  assumes "unat (a - s0) < 2 ^ 15" and "unat (b - s0) < 2 ^ 15"
  shows "seq_gt a b \<longleftrightarrow> unat (b - s0) < unat (a - s0)"
  using assms by (auto simp: seq_gt_iff window_unat [of a b s0])

text \<open>The first event whose number lies beyond \<open>x\<close>, seen from the start of the window.\<close>

definition first_beyond :: "u16 \<Rightarrow> u16 \<Rightarrow> nack_event list \<Rightarrow> nack_event option" where
  "first_beyond s0 x evs = List.find (\<lambda>(s, _). unat (x - s0) < unat (s - s0)) evs"

lemma first_beyond_Nil [simp]: "first_beyond s0 x [] = None"
  by (simp add: first_beyond_def)

lemma first_beyond_snoc:
  "first_beyond s0 x (evs @ [(s, now)]) =
     (case first_beyond s0 x evs of Some e \<Rightarrow> Some e
      | None \<Rightarrow> if unat (x - s0) < unat (s - s0) then Some (s, now) else None)"
  unfolding first_beyond_def by (induction evs) auto

definition window_inv :: "u16 \<Rightarrow> nack_event list \<Rightarrow> nack_manager \<Rightarrow> bool" where
  "window_inv s0 evs m \<longleftrightarrow>
     nack_started m \<and> received m = insert s0 (fst ` set evs) \<and> max_seen m \<in> received m \<and>
     unat (max_seen m - s0) < 2 ^ 15 \<and>
     (\<forall>x. first_beyond s0 x evs \<noteq> None \<longleftrightarrow> unat (x - s0) < unat (max_seen m - s0)) \<and>
     (\<forall>x. smap_find x (missing m) =
        (if x \<in> received m then None else map_option (\<lambda>(_, now). now x) (first_beyond s0 x evs)))"

lemma window_invD:
  assumes "window_inv s0 evs m"
  shows "nack_started m" and "unat (max_seen m - s0) < 2 ^ 15" and "max_seen m \<in> received m"
    and "received m = insert s0 (fst ` set evs)"
    and "first_beyond s0 x evs \<noteq> None \<longleftrightarrow> unat (x - s0) < unat (max_seen m - s0)"
    and "smap_find x (missing m) =
      (if x \<in> received m then None else map_option (\<lambda>(_, now). now x) (first_beyond s0 x evs))"
  using assms unfolding window_inv_def by blast+

lemma received_step: "received (on_receive m now s) = insert s (received m)"
  by (simp add: on_receive_eq)

text \<open>The numbers the gap loop visits, seen from the start of the window.\<close>

lemma gap_range:
  fixes s s0 mx x :: u16
  assumes new: "unat (s - s0) < 2 ^ 15" and far: "unat (mx - s0) < unat (s - s0)"
  shows "unat (x - (mx + 1)) < unat (s - mx) - 1 \<longleftrightarrow>
    unat (mx - s0) < unat (x - s0) \<and> unat (x - s0) < unat (s - s0)"
proof -
  have "mx + 1 - s0 = mx - s0 + 1" by simp
  then have "unat (mx + 1 - s0) = unat (mx - s0) + 1"
    using assms by (simp only:) (simp add: unat_word_ariths)
  then show ?thesis
    using assms unat_u16_bound [of "x - s0"]
    by (auto simp: window_unat [of x "mx + 1" s0] window_unat [of s mx s0])
qed

lemma find_far:
  assumes inv: "window_inv s0 evs m" and new: "unat (s - s0) < 2 ^ 15"
    and far: "unat (max_seen m - s0) < unat (s - s0)" and gt: "seq_gt s (max_seen m)"
  shows "smap_find x (missing (on_receive m now s)) =
      (if x \<in> insert s (received m) then None
       else map_option (\<lambda>(_, now). now x) (first_beyond s0 x (evs @ [(s, now)])))"
proof (cases "x \<in> insert s (received m)")
  case True
  then show ?thesis
    using window_invD(6) [OF inv, of x] by (auto simp: find_on_receive [OF window_invD(1) [OF inv] gt])
next
  case False
  have "x = max_seen m" if "unat (x - s0) = unat (max_seen m - s0)"
    using that by (simp add: word_unat_eq_iff [symmetric])
  with False window_invD(3) [OF inv] consider (in_old) "unat (x - s0) < unat (max_seen m - s0)"
    | (in_new) "unat (max_seen m - s0) < unat (x - s0)" by fastforce
  then show ?thesis
  proof cases
    case in_old
    with window_invD(5) [OF inv, of x] obtain e where "first_beyond s0 x evs = Some e" by blast
    with False in_old window_invD(6) [OF inv, of x] show ?thesis
      unfolding find_on_receive [OF window_invD(1) [OF inv] gt] gap_range [OF new far]
      by (simp add: first_beyond_snoc)
  next
    case in_new
    with window_invD(5) [OF inv, of x] have "first_beyond s0 x evs = None" by fastforce
    with False in_new window_invD(6) [OF inv, of x] show ?thesis
      unfolding find_on_receive [OF window_invD(1) [OF inv] gt] gap_range [OF new far]
      by (simp add: first_beyond_snoc)
  qed
qed

lemma window_inv_step:
  assumes inv: "window_inv s0 evs m" and new: "unat (s - s0) < 2 ^ 15"
  shows "window_inv s0 (evs @ [(s, now)]) (on_receive m now s)"
proof -
  note D = window_invD [OF inv]
  have hist: "insert s (received m) = insert s0 (fst ` set (evs @ [(s, now)]))"
    using D(4) by auto
  have start: "nack_started (on_receive m now s)" by (simp add: on_receive_eq)
  show ?thesis
  proof (cases "unat (max_seen m - s0) < unat (s - s0)")
    case True
    then have gt: "seq_gt s (max_seen m)"
      using window_seq_gt [OF new D(2)] by simp
    then have mx: "max_seen (on_receive m now s) = s" by (simp add: on_receive_eq)
    have "first_beyond s0 x (evs @ [(s, now)]) \<noteq> None \<longleftrightarrow> unat (x - s0) < unat (s - s0)" for x
      using D(5) [of x] True by (auto simp: first_beyond_snoc split: option.splits)
    then show ?thesis
      using find_far [OF inv new True gt] new hist start
      unfolding window_inv_def mx received_step by blast
  next
    case False
    then have "\<not> seq_gt s (max_seen m)"
      using window_seq_gt [OF new D(2)] by simp
    then have eq: "max_seen (on_receive m now s) = max_seen m"
      "missing (on_receive m now s) = smap_erase s (missing m)"
      by (simp_all add: on_receive_eq D(1))
    have same: "first_beyond s0 x (evs @ [(s, now)]) = first_beyond s0 x evs" for x
      using D(5) [of x] False by (auto simp: first_beyond_snoc split: option.split)
    have "(if x = s then None else smap_find x (missing m)) =
        (if x \<in> insert s (received m) then None
         else map_option (\<lambda>(_, now). now x) (first_beyond s0 x evs))" for x
      using D(6) [of x] by simp
    then show ?thesis
      using D(2,3,5) hist start
      unfolding window_inv_def received_step eq same smap_find_simps by blast
  qed
qed

lemma window_inv_run:
  assumes "in_window s0 evs"
  shows "window_inv s0 evs (nack_run nack_init ((s0, now0) # evs))"
  using assms
proof (induction evs rule: rev_induct)
  case Nil
  have "nack_run nack_init [(s0, now0)] =
      \<lparr>received = {s0}, max_seen = s0, nack_started = True, missing = []\<rparr>"
    by (simp add: on_receive_def nack_init_def)
  then show ?case by (simp only: window_inv_def) simp
next
  case (snoc e evs)
  obtain s now where e: "e = (s, now)" by (cases e)
  with snoc show ?case
    using window_inv_step [of s0 evs "nack_run nack_init ((s0, now0) # evs)" s now]
    by (simp add: in_window_def nack_run_def)
qed

section \<open>Properties\<close>

text \<open>A reported number was missed at least 100 ms ago.\<close>

lemma to_ms_ge: "to_ms t \<ge> NACK_TIMEOUT_MS \<longleftrightarrow> t \<ge> 100000000"
proof -
  have "(- t) div 1000000 \<ge> 0" if "t < 0" using that by (simp add: pos_imp_zdiv_nonneg_iff)
  moreover have "t div 1000000 \<ge> 100 \<longleftrightarrow> t \<ge> 100000000"
    using mult_div_mod_eq [of 1000000 t]
      pos_mod_bound [of 1000000 t] pos_mod_sign [of 1000000 t] by linarith
  ultimately show ?thesis
    unfolding to_ms_def NACK_TIMEOUT_MS_def by (cases "0 \<le> t") (simp_all only: if_True if_False, linarith+)
qed

lemma nack_list_iff:
  assumes "smap_ok (missing m)"
  shows "x \<in> set (get_nack_list m t) \<longleftrightarrow>
    (\<exists>t0. smap_find x (missing m) = Some t0 \<and> t - t0 \<ge> 100000000)"
    and "sorted_wrt (<) (get_nack_list m t)"
proof -
  show "x \<in> set (get_nack_list m t) \<longleftrightarrow>
      (\<exists>t0. smap_find x (missing m) = Some t0 \<and> t - t0 \<ge> 100000000)"
    using assms by (force simp: get_nack_list_def to_ms_ge simp flip: sm.entry_iff_find)
  have "sorted_wrt (\<lambda>a b. fst a < fst b) (missing m)"
    using assms by (simp add: smap_ok_def sorted_wrt_map)
  then show "sorted_wrt (<) (get_nack_list m t)"
    unfolding get_nack_list_def sorted_wrt_map by (rule sorted_wrt_filter)
qed

lemma list_exact:
  fixes now0
  assumes "in_window s0 evs"
  defines "m \<equiv> nack_run nack_init ((s0, now0) # evs)"
  shows "sorted_wrt (<) (get_nack_list m t) \<and>
    (x \<in> set (get_nack_list m t) \<longleftrightarrow>
       x \<noteq> s0 \<and> x \<notin> fst ` set evs \<and>
       (\<exists>s now. first_beyond s0 x evs = Some (s, now) \<and> t - now x \<ge> 100000000))"
proof -
  note inv = window_inv_run [OF assms(1), of now0, folded m_def]
  have "smap_ok (missing m)"
    using nack_ok_run [OF nack_ok_init, of "(s0, now0) # evs"] unfolding m_def nack_ok_def by blast
  then show ?thesis
    using window_invD(6) [OF inv, of x] by (auto simp: nack_list_iff window_invD(4) [OF inv])
qed

text \<open>C8. While the numbers stay within half the number space of the first one, the NACK list is exact:
  at time \<open>t\<close> it holds, in ascending order, just the numbers that have not been received, that lie
  behind some received number, and that were first missed (when the first such number came in) at
  least 100 milliseconds before \<open>t\<close>.\<close>

theorem nack_list_exact:
  fixes now0
  assumes "in_window s0 evs"
  defines "m \<equiv> nack_run nack_init ((s0, now0) # evs)"
  shows "sorted_wrt (<) (get_nack_list m t) \<and>
    (x \<in> set (get_nack_list m t) \<longleftrightarrow>
       x \<noteq> s0 \<and> x \<notin> fst ` set evs \<and>
       (\<exists>s now. first_beyond s0 x evs = Some (s, now) \<and> t - now x \<ge> 100000000))"
  unfolding m_def using assms(1) by (rule list_exact)

theorem nack_list_exact_witness:
  "3 \<in> set (get_nack_list (nack_run nack_init [(1, \<lambda>_. 0), (2, \<lambda>_. 5), (4, \<lambda>_. 7)]) 100000007) \<and>
   3 \<notin> set (get_nack_list (nack_run nack_init [(1, \<lambda>_. 0), (2, \<lambda>_. 5), (4, \<lambda>_. 7)]) 100000006)"
proof -
  have "in_window 1 [(2, \<lambda>_. 5), (4, \<lambda>_. 7)]" by (simp add: in_window_def)
  from nack_list_exact [OF this, where x = 3 and t = 100000007 and ?now0.0 = "\<lambda>_. 0"]
    nack_list_exact [OF this, where x = 3 and t = 100000006 and ?now0.0 = "\<lambda>_. 0"]
  show ?thesis by (simp add: first_beyond_def)
qed

text \<open>Whatever packets come in, a number that was received once is never reported again, and \<open>received_\<close>
  only ever grows: after the number space has been used up, a packet that is lost under a number that
  an earlier packet had is never reported.\<close>

theorem nack_received_never_reported:
  "set (get_nack_list (nack_run nack_init evs) t) \<inter> fst ` set evs = {} \<and>
   received (nack_run nack_init evs) = fst ` set evs"
proof -
  have "nack_ok (nack_run nack_init evs)" by (rule nack_ok_run [OF nack_ok_init])
  moreover have "received (nack_run nack_init evs) = fst ` set evs"
    by (simp add: received_run) (simp add: nack_init_def)
  ultimately show ?thesis by (auto simp: nack_ok_def nack_list_iff)
qed

end
