(* ===== verification/VideoPacketizer.thy ===== *)
theory VideoPacketizer
  imports RtpPacket
begin

text \<open>
  \<open>RtpVideoPacketizer\<close> of \<open>module07_video\<close> (\<open>rtp_video_packetizer.h\<close>, \<open>rtp_video_packetizer.cpp\<close>): an
  H.264 NAL unit becomes one RTP packet, or a run of FU-A fragments (RFC 6184) when it is longer than
  \<open>MAX_RTP_PAYLOAD\<close>.  A pointer with its length is a byte list; the sequence number, which the code
  updates through a reference, is passed in and returned.  Section three is the receiver of the RFC,
  the reference the packets are measured against.
\<close>

definition MAX_RTP_PAYLOAD :: nat where
  "MAX_RTP_PAYLOAD = 1200"

definition skip_start_code :: "bytes \<Rightarrow> bytes" where
  "skip_start_code d =
     (if length d \<ge> 4 \<and> d ! 0 = 0 \<and> d ! 1 = 0 \<and> d ! 2 = 0 \<and> d ! 3 = 1 then drop 4 d
      else if length d \<ge> 3 \<and> d ! 0 = 0 \<and> d ! 1 = 0 \<and> d ! 2 = 1 then drop 3 d
      else d)"

section \<open>Fragmentation\<close>

definition fu_header :: "u8 \<Rightarrow> bool \<Rightarrow> bool \<Rightarrow> u8" where
  "fu_header nal_type is_first is_last =
     (let h = (if is_first then nal_type OR 0x80 else nal_type) in if is_last then h OR 0x40 else h)"

function fua_loop ::
    "u8 \<Rightarrow> u32 \<Rightarrow> u32 \<Rightarrow> u8 \<Rightarrow> u8 \<Rightarrow> bool \<Rightarrow> u16 \<Rightarrow> bytes \<Rightarrow> rtp_packet list \<times> u16" where
  "fua_loop pt ts ssrc ind nal_type first seq src =
     (if src = [] then ([], seq)
      else let chunk = min (length src) (MAX_RTP_PAYLOAD - 2);
               last = (chunk = length src);
               payload = memcpy_at 2 (take chunk src)
                 ((replicate (2 + chunk) 0)[0 := ind, 1 := fu_header nal_type first last]);
               pkt = RtpPacket_build pt seq ts ssrc (Some payload) (length payload) last RtpPacket_default;
               (rest, seq') = fua_loop pt ts ssrc ind nal_type False (seq + 1) (drop chunk src)
      in (pkt # rest, seq'))"
  by pat_completeness auto
termination
  by (relation "measure (\<lambda>(_, _, _, _, _, _, _, src). length src)") (auto simp: MAX_RTP_PAYLOAD_def)

declare fua_loop.simps [simp del]

definition make_fua_packets :: "bytes \<Rightarrow> u8 \<Rightarrow> u16 \<Rightarrow> u32 \<Rightarrow> u32 \<Rightarrow> rtp_packet list \<times> u16" where
  "make_fua_packets nal_data pt seq ts ssrc =
     (let nal_header = nal_data ! 0;
          fu_indicator = (nal_header AND 0xE0) OR 28;
          nal_type = nal_header AND 0x1F
      in fua_loop pt ts ssrc fu_indicator nal_type True seq (drop 1 nal_data))"

definition packetize :: "bytes \<Rightarrow> u8 \<Rightarrow> u16 \<Rightarrow> u32 \<Rightarrow> u32 \<Rightarrow> rtp_packet list \<times> u16" where
  "packetize nal pt seq ts ssrc =
     (let nal_data = skip_start_code nal; nal_size = length nal_data in
      if nal_size = 0 then ([], seq)
      else if nal_size \<le> MAX_RTP_PAYLOAD
      then ([RtpPacket_build pt seq ts ssrc (Some nal_data) nal_size True RtpPacket_default], seq + 1)
      else make_fua_packets nal_data pt seq ts ssrc)"

section \<open>The receiver of RFC 6184\<close>

definition fu_start :: "rtp_packet \<Rightarrow> bool" where
  "fu_start p \<longleftrightarrow> payload_bytes p ! 1 AND 0x80 \<noteq> 0"

definition fu_end :: "rtp_packet \<Rightarrow> bool" where
  "fu_end p \<longleftrightarrow> payload_bytes p ! 1 AND 0x40 \<noteq> 0"

text \<open>The NAL header is put together from the indicator and the FU header of the first fragment; the
  fragments follow, from the one with the start bit to the one with the end bit.\<close>

definition depacketize :: "rtp_packet list \<Rightarrow> bytes option" where
  "depacketize ps =
     (case ps of [] \<Rightarrow> None
      | p # rest \<Rightarrow>
          let d = payload_bytes p in
          if d = [] then None
          else if d ! 0 AND 0x1F \<noteq> 28 then (if rest = [] then Some d else None)
          else if map fu_start ps = True # replicate (length rest) False \<and>
                  map fu_end ps = replicate (length rest) False @ [True]
          then Some (((d ! 0 AND 0xE0) OR (d ! 1 AND 0x1F)) #
                     concat (map (\<lambda>q. drop 2 (payload_bytes q)) ps))
          else None)"

section \<open>Bits of the two header bytes\<close>

lemma indicator_bits:
  fixes h :: u8
  shows "((h AND 0xE0) OR 28) AND 0x1F = 28" "((h AND 0xE0) OR 28) AND 0xE0 = h AND 0xE0"
  by (simp_all add: bit.conj_disj_distrib2 and.assoc)

lemma fu_header_bits:
  fixes t :: u8
  shows "fu_header (t AND 0x1F) a b AND 0x80 \<noteq> 0 \<longleftrightarrow> a"
    and "fu_header (t AND 0x1F) a b AND 0x40 \<noteq> 0 \<longleftrightarrow> b"
    and "fu_header (t AND 0x1F) a b AND 0x1F = t AND 0x1F"
  by (simp_all add: fu_header_def Let_def bit.conj_disj_distrib2 and.assoc)

lemma header_join: "(h AND 0xE0) OR (h AND 0x1F) = (h :: u8)"
proof -
  have "(h AND 0xE0) OR (h AND 0x1F) = h AND (0xE0 OR 0x1F)"
    by (simp only: bit.conj_disj_distrib)
  also have "(0xE0 OR 0x1F :: u8) = - 1" by simp
  finally show ?thesis by simp
qed

section \<open>The loop\<close>

text \<open>One fragment: the packet that the loop builds from a piece of the NAL unit.\<close>

definition fragment :: "u8 \<Rightarrow> u32 \<Rightarrow> u32 \<Rightarrow> u8 \<Rightarrow> u8 \<Rightarrow> u16 \<Rightarrow> bytes \<Rightarrow> bool \<Rightarrow> bool \<Rightarrow> rtp_packet" where
  "fragment pt ts ssrc ind nal_type seq piece a b =
     \<lparr>buf = rtp_header pt seq ts ssrc b @ ind # fu_header nal_type a b # piece, payload_offset = 12\<rparr>"

lemma fragment_built:
  "RtpPacket_build pt seq ts ssrc
     (Some (memcpy_at 2 piece ((replicate (2 + length piece) 0)[0 := ind, 1 := fu_header nal_type a b])))
     (length (memcpy_at 2 piece ((replicate (2 + length piece) 0)[0 := ind, 1 := fu_header nal_type a b])))
     b p = fragment pt ts ssrc ind nal_type seq piece a b"
  by (simp add: build_buf fragment_def memcpy_at_def numeral_2_eq_2)

lemma fua_loop_step:
  assumes "src \<noteq> []"
  defines "chunk \<equiv> min (length src) 1198"
  shows "fua_loop pt ts ssrc ind t a seq src =
    (let (rest, seq') = fua_loop pt ts ssrc ind t False (seq + 1) (drop chunk src)
     in (fragment pt ts ssrc ind t seq (take chunk src) a (chunk = length src) # rest, seq'))"
proof -
  have len: "length (take chunk src) = chunk" by (simp add: chunk_def)
  have size: "MAX_RTP_PAYLOAD - 2 = 1198" by (simp add: MAX_RTP_PAYLOAD_def)
  show ?thesis
    using assms(1) fragment_built [of pt seq ts ssrc "take chunk src", unfolded len]
    by (subst fua_loop.simps) (simp only: size Let_def if_False flip: chunk_def)
qed

lemma fua_loop_simps:
  "fua_loop pt ts ssrc ind t a seq [] = ([], seq)"
  "src \<noteq> [] \<Longrightarrow> length src \<le> 1198 \<Longrightarrow>
   fua_loop pt ts ssrc ind t a seq src = ([fragment pt ts ssrc ind t seq src a True], seq + 1)"
  "1198 < length src \<Longrightarrow>
   fua_loop pt ts ssrc ind t a seq src =
     (let (rest, seq') = fua_loop pt ts ssrc ind t False (seq + 1) (drop 1198 src)
      in (fragment pt ts ssrc ind t seq (take 1198 src) a False # rest, seq'))"
proof -
  show nil: "fua_loop pt ts ssrc ind t a seq [] = ([], seq)" for a seq by (simp add: fua_loop.simps)
  show "fua_loop pt ts ssrc ind t a seq src = ([fragment pt ts ssrc ind t seq src a True], seq + 1)"
    if "src \<noteq> []" "length src \<le> 1198"
    using that by (simp add: fua_loop_step nil min_absorb1)
  show "fua_loop pt ts ssrc ind t a seq src =
     (let (rest, seq') = fua_loop pt ts ssrc ind t False (seq + 1) (drop 1198 src)
      in (fragment pt ts ssrc ind t seq (take 1198 src) a False # rest, seq'))"
    if "1198 < length src"
  proof -
    have "src \<noteq> []" "min (length src) 1198 = 1198" "1198 \<noteq> length src" using that by auto
    then show ?thesis by (simp add: fua_loop_step)
  qed
qed

lemma fragment_fields:
  "payload_bytes (fragment pt ts ssrc ind t seq piece a b) = ind # fu_header t a b # piece"
  "RtpPacket_sequence (fragment pt ts ssrc ind t seq piece a b) = seq"
  "RtpPacket_timestamp (fragment pt ts ssrc ind t seq piece a b) = ts"
  "RtpPacket_ssrc (fragment pt ts ssrc ind t seq piece a b) = ssrc"
  "RtpPacket_payload_type (fragment pt ts ssrc ind t seq piece a b) = pt AND 0x7F"
  "RtpPacket_marker (fragment pt ts ssrc ind t seq piece a b) = b"
  by (simp_all add: fragment_def wire_simps)

definition common_fields :: "u8 \<Rightarrow> u32 \<Rightarrow> u32 \<Rightarrow> rtp_packet \<Rightarrow> bool" where
  "common_fields pt ts ssrc p \<longleftrightarrow>
     RtpPacket_payload_type p = pt AND 0x7F \<and> RtpPacket_timestamp p = ts \<and> RtpPacket_ssrc p = ssrc"

definition fua_shape :: "u8 \<Rightarrow> u32 \<Rightarrow> u32 \<Rightarrow> u8 \<Rightarrow> u8 \<Rightarrow> bool \<Rightarrow> u16 \<Rightarrow> bytes \<Rightarrow> rtp_packet list \<Rightarrow> bool" where
  "fua_shape pt ts ssrc ind h a seq src ps \<longleftrightarrow>
     ps \<noteq> [] \<and> run_numbers seq ps \<and> concat (map (\<lambda>q. drop 2 (payload_bytes q)) ps) = src \<and>
     map fu_start ps = a # replicate (length ps - 1) False \<and>
     map fu_end ps = replicate (length ps - 1) False @ [True] \<and>
     map RtpPacket_marker ps = replicate (length ps - 1) False @ [True] \<and>
     (\<forall>p\<in>set ps. common_fields pt ts ssrc p \<and> length (payload_bytes p) \<le> 1200 \<and>
        2 < length (payload_bytes p) \<and> payload_bytes p ! 0 = ind \<and>
        payload_bytes p ! 1 AND 0x1F = h AND 0x1F)"

lemma fua_shape_last:
  "src \<noteq> [] \<Longrightarrow> length src \<le> 1198 \<Longrightarrow>
   fua_shape pt ts ssrc ind h a seq src [fragment pt ts ssrc ind (h AND 0x1F) seq src a True]"
  by (simp add: fua_shape_def run_numbers_Cons fragment_fields fu_start_def fu_end_def
      fu_header_bits common_fields_def)

lemma fua_shape_Cons:
  assumes "fua_shape pt ts ssrc ind h False (seq + 1) src ps" and "piece \<noteq> []" "length piece \<le> 1198"
  shows "fua_shape pt ts ssrc ind h a seq (piece @ src)
    (fragment pt ts ssrc ind (h AND 0x1F) seq piece a False # ps)"
proof -
  have "\<exists>n. length ps = Suc n" using assms(1) by (cases ps) (auto simp: fua_shape_def)
  with assms show ?thesis
    by (auto simp: fua_shape_def run_numbers_Cons fragment_fields fu_start_def fu_end_def
        fu_header_bits common_fields_def)
qed

lemma fua_loop_shape:
  assumes "src \<noteq> []"
  shows "case fua_loop pt ts ssrc ind (h AND 0x1F) a seq src of (ps, seq') \<Rightarrow>
    fua_shape pt ts ssrc ind h a seq src ps \<and> seq' = seq + of_nat (length ps)"
  using assms
proof (induction "length src" arbitrary: src a seq rule: less_induct)
  case less
  show ?case
  proof (cases "length src \<le> 1198")
    case True
    with less.prems show ?thesis by (simp add: fua_loop_simps fua_shape_last)
  next
    case False
    let ?r = "fua_loop pt ts ssrc ind (h AND 0x1F) False (seq + 1) (drop 1198 src)"
    have "case ?r of (ps, seq') \<Rightarrow>
        fua_shape pt ts ssrc ind h False (seq + 1) (drop 1198 src) ps \<and>
        seq' = seq + 1 + of_nat (length ps)"
      using False by (intro less.hyps) auto
    then obtain ps where r: "?r = (ps, seq + 1 + of_nat (length ps))"
      and ps: "fua_shape pt ts ssrc ind h False (seq + 1) (drop 1198 src) ps" by blast
    from less.prems fua_shape_Cons [OF ps, of "take 1198 src" a]
    have "fua_shape pt ts ssrc ind h a seq src
        (fragment pt ts ssrc ind (h AND 0x1F) seq (take 1198 src) a False # ps)" by simp
    with False r show ?thesis by (simp add: fua_loop_simps)
  qed
qed

section \<open>Properties\<close>

lemma packetize_cases:
  defines "raw \<equiv> \<lambda>nal. skip_start_code nal"
  shows "raw nal = [] \<Longrightarrow> packetize nal pt seq ts ssrc = ([], seq)"
    and "raw nal \<noteq> [] \<Longrightarrow> length (raw nal) \<le> 1200 \<Longrightarrow> packetize nal pt seq ts ssrc =
      ([RtpPacket_build pt seq ts ssrc (Some (raw nal)) (length (raw nal)) True RtpPacket_default], seq + 1)"
    and "length (raw nal) > 1200 \<Longrightarrow> packetize nal pt seq ts ssrc =
      fua_loop pt ts ssrc ((raw nal ! 0 AND 0xE0) OR 28) (raw nal ! 0 AND 0x1F) True seq (drop 1 (raw nal))"
  by (auto simp: packetize_def make_fua_packets_def raw_def MAX_RTP_PAYLOAD_def Let_def)

lemma packetize_shape:
  assumes "length (skip_start_code nal) > 1200"
    and "packetize nal pt seq ts ssrc = (ps, seq')"
  defines "h \<equiv> skip_start_code nal ! 0"
  shows "fua_shape pt ts ssrc ((h AND 0xE0) OR 28) h True seq (drop 1 (skip_start_code nal)) ps \<and>
    seq' = seq + of_nat (length ps)"
proof -
  have "drop 1 (skip_start_code nal) \<noteq> []" using assms(1) by simp
  from fua_loop_shape [OF this, of pt ts ssrc "(h AND 0xE0) OR 28" h True seq]
  show ?thesis
    using assms(2) unfolding packetize_cases(3) [OF assms(1)] h_def by simp
qed

text \<open>Every packet is one that \<open>build\<close> makes.\<close>

definition built :: "rtp_packet \<Rightarrow> bool" where
  "built p \<longleftrightarrow> (\<exists>pt seq ts ssrc m d. p = \<lparr>buf = rtp_header pt seq ts ssrc m @ d, payload_offset = 12\<rparr>)"

lemma header_is_built: "built \<lparr>buf = rtp_header pt seq ts ssrc m @ d, payload_offset = 12\<rparr>"
  unfolding built_def by blast

lemma fragment_is_built: "built (fragment pt ts ssrc ind nal_type seq piece a b)"
  unfolding built_def fragment_def by blast

lemma fua_loop_built: "\<forall>p\<in>set (fst (fua_loop pt ts ssrc ind t a seq src)). built p"
proof (induction "length src" arbitrary: a seq src rule: less_induct)
  case less
  consider "src = []" | "src \<noteq> []" "length src \<le> 1198" | "1198 < length src" by linarith
  then show ?case
  proof cases
    case 3
    then show ?thesis
      using less [of "drop 1198 src" False "seq + 1"] fragment_is_built
      by (auto simp: fua_loop_simps split: prod.split)
  qed (simp_all add: fua_loop_simps fragment_is_built)
qed

text \<open>All fragments but the last are full.\<close>

lemma fua_loop_full:
  "\<forall>p\<in>set (butlast (fst (fua_loop pt ts ssrc ind t a seq src))). length (payload_bytes p) = 1200"
proof (induction "length src" arbitrary: a seq src rule: less_induct)
  case less
  consider "src = []" | "src \<noteq> []" "length src \<le> 1198" | "1198 < length src" by linarith
  then show ?case
  proof cases
    case 3
    then show ?thesis
      using less [of "drop 1198 src" False "seq + 1"]
      by (auto simp: fua_loop_simps fragment_fields split: prod.split)
  qed (simp_all add: fua_loop_simps)
qed

lemma packetize_full:
  assumes "packetize nal pt seq ts ssrc = (ps, seq')"
  shows "\<forall>p\<in>set (butlast ps). length (payload_bytes p) = 1200"
proof -
  consider "skip_start_code nal = []" | "skip_start_code nal \<noteq> []" "length (skip_start_code nal) \<le> 1200"
    | "length (skip_start_code nal) > 1200" by linarith
  then show ?thesis
  proof cases
    case 3
    then show ?thesis using assms fua_loop_full by (metis packetize_cases(3) fst_conv)
  qed (use assms in \<open>auto simp: packetize_cases\<close>)
qed

text \<open>A packet that \<open>build\<close> made is decided by its fields.\<close>

lemma built_fields:
  assumes "built p"
  shows "p = \<lparr>buf = rtp_header (RtpPacket_payload_type p) (RtpPacket_sequence p) (RtpPacket_timestamp p)
    (RtpPacket_ssrc p) (RtpPacket_marker p) @ payload_bytes p, payload_offset = 12\<rparr>"
proof -
  have "rtp_header (pt AND 0x7F) seq ts ssrc m = rtp_header pt seq ts ssrc m" for pt seq ts ssrc m
    by (simp add: rtp_header_def and.assoc)
  with assms show ?thesis by (auto simp: built_def built_accessors)
qed

lemma packetize_built:
  assumes "packetize nal pt seq ts ssrc = (ps, seq')" and "p \<in> set ps"
  shows "built p"
proof -
  consider "skip_start_code nal = []" | "skip_start_code nal \<noteq> []" "length (skip_start_code nal) \<le> 1200"
    | "length (skip_start_code nal) > 1200" by linarith
  then show ?thesis
  proof cases
    case 2
    then show ?thesis using assms by (auto simp: packetize_cases build_buf header_is_built)
  next
    case 3
    then show ?thesis using assms fua_loop_built by (metis packetize_cases(3) fst_conv)
  qed (use assms in \<open>simp add: packetize_cases\<close>)
qed

lemma depacketize_packetize:
  assumes "skip_start_code nal \<noteq> []" and "skip_start_code nal ! 0 AND 0x1F \<noteq> 28"
  shows "depacketize (fst (packetize nal pt seq ts ssrc)) = Some (skip_start_code nal)"
proof (cases "length (skip_start_code nal) \<le> 1200")
  case True
  with assms show ?thesis
    by (simp add: packetize_cases depacketize_def build_buf wire_simps)
next
  case False
  obtain ps seq' where p: "packetize nal pt seq ts ssrc = (ps, seq')" by force
  let ?raw = "skip_start_code nal"
  from False packetize_shape [OF _ p]
  have shape: "fua_shape pt ts ssrc ((?raw ! 0 AND 0xE0) OR 28) (?raw ! 0) True seq (drop 1 ?raw) ps"
    by simp
  then obtain q rest where ps: "ps = q # rest" by (cases ps) (auto simp: fua_shape_def)
  have "payload_bytes q ! 0 = (?raw ! 0 AND 0xE0) OR 28" "payload_bytes q ! 1 AND 0x1F = ?raw ! 0 AND 0x1F"
    "payload_bytes q \<noteq> []"
    using shape by (auto simp: fua_shape_def ps)
  moreover have "?raw ! 0 # drop 1 ?raw = ?raw" using assms(1) by (cases ?raw) simp_all
  ultimately show ?thesis
    using shape unfolding p depacketize_def ps
    by (simp add: fua_shape_def indicator_bits header_join Let_def)
qed

text \<open>C9. A receiver that follows RFC 6184 gets back exactly the NAL unit, without its start code, from the
  packets it is split into, provided the NAL unit's own type is not that of a FU-A fragment; an empty
  unit yields no packets.\<close>

theorem video_roundtrip:
  assumes "skip_start_code nal \<noteq> []" and "skip_start_code nal ! 0 AND 0x1F \<noteq> 28"
  shows "depacketize (fst (packetize nal pt seq ts ssrc)) = Some (skip_start_code nal)"
  using assms by (rule depacketize_packetize)

theorem video_roundtrip_witness:
  "depacketize (fst (packetize [0, 0, 0, 1, 0x65, 1, 2] 96 9 1000 1)) = Some [0x65, 1, 2] \<and>
   depacketize (fst (packetize (replicate 3000 0x65) 96 9 1000 1)) = Some (replicate 3000 0x65)"
proof -
  have raw: "skip_start_code [0, 0, 0, 1, 0x65, 1, 2] = [0x65, 1, 2]" by (simp add: skip_start_code_def)
  have raw': "skip_start_code (replicate 3000 0x65) = replicate 3000 0x65"
    by (simp add: skip_start_code_def)
  show ?thesis
    using video_roundtrip [of "[0, 0, 0, 1, 0x65, 1, 2]" 96 9 1000 1]
      video_roundtrip [of "replicate 3000 0x65" 96 9 1000 1]
    unfolding raw raw' by simp
qed

lemma packetize_numbers:
  assumes "packetize nal pt seq ts ssrc = (ps, seq')"
  shows "run_numbers seq ps"
proof -
  consider "skip_start_code nal = []" | "skip_start_code nal \<noteq> []" "length (skip_start_code nal) \<le> 1200"
    | "length (skip_start_code nal) > 1200" by linarith
  then show ?thesis
  proof cases
    case 3
    with packetize_shape [OF 3 assms] show ?thesis by (auto simp: fua_shape_def)
  qed (use assms in \<open>auto simp: packetize_cases run_numbers_Cons build_buf wire_simps\<close>)
qed

text \<open>Every packet of a NAL unit has a payload of at most 1200 bytes and the given type, timestamp and
  SSRC; the packets are numbered consecutively from \<open>seq\<close> and the counter ends behind them; the marker
  is set on the last one only, and if there are several, the start bit on the first only.\<close>

theorem video_packets:
  assumes "packetize nal pt seq ts ssrc = (ps, seq')"
  shows "run_numbers seq ps \<and> seq' = seq + of_nat (length ps) \<and>
    (ps = [] \<longleftrightarrow> skip_start_code nal = []) \<and>
    (\<forall>p\<in>set ps. common_fields pt ts ssrc p \<and> 0 < length (payload_bytes p) \<and>
       length (payload_bytes p) \<le> MAX_RTP_PAYLOAD) \<and>
    (ps \<noteq> [] \<longrightarrow> map RtpPacket_marker ps = replicate (length ps - 1) False @ [True]) \<and>
    (length (skip_start_code nal) > MAX_RTP_PAYLOAD \<longrightarrow>
       map fu_start ps = True # replicate (length ps - 1) False \<and>
       map fu_end ps = replicate (length ps - 1) False @ [True] \<and>
       (\<forall>p\<in>set ps. payload_bytes p ! 0 AND 0x1F = 28))"
proof -
  consider "skip_start_code nal = []" | "skip_start_code nal \<noteq> []" "length (skip_start_code nal) \<le> 1200"
    | "length (skip_start_code nal) > 1200" by linarith
  then show ?thesis
  proof cases
    case 3
    with packetize_shape [OF 3 assms] show ?thesis
      by (auto simp: fua_shape_def indicator_bits MAX_RTP_PAYLOAD_def)
  qed (use assms in \<open>auto simp: packetize_cases run_numbers_Cons build_buf wire_simps
      common_fields_def MAX_RTP_PAYLOAD_def\<close>)
qed

theorem video_packets_witness:
  "\<exists>ps seq'. packetize (replicate 3000 0x65) 96 65535 1000 1 = (ps, seq') \<and> run_numbers 65535 ps \<and>
     map fu_start ps = True # replicate (length ps - 1) False \<and>
     (\<forall>p\<in>set ps. length (payload_bytes p) \<le> 1200)"
proof -
  have "skip_start_code (replicate 3000 0x65) = replicate 3000 0x65"
    by (simp add: skip_start_code_def)
  moreover obtain ps seq' where p: "packetize (replicate 3000 0x65) 96 65535 1000 1 = (ps, seq')"
    by force
  ultimately show ?thesis
    using video_packets [OF p] by (intro exI [of _ ps] exI [of _ seq']) (simp add: MAX_RTP_PAYLOAD_def)
qed

end
