(* ===== verification/Sfu.thy ===== *)
theory Sfu
  imports RtpPacket
begin

text \<open>
  \<open>SfuRoom\<close> and the room table of \<open>SfuServer\<close> of \<open>module09_sfu\<close> (\<open>sfu_room.h\<close>, \<open>sfu_room.cpp\<close>,
  \<open>sfu_server.h\<close>, \<open>sfu_server.cpp\<close>).  The mutex of a room makes its operations atomic (\<open>SfuThreads\<close>), so each is a
  function of the room; what an operation passes to \<open>send_fn_\<close> is the list of its calls in order.
\<close>

section \<open>A room\<close>

record sfu_room =
  room_id :: string
  peer_ssrc_map :: "int \<rightharpoonup> u32"
  peers :: "int list"
  next_ssrc :: u32

definition SfuRoom :: "string \<Rightarrow> sfu_room" where
  "SfuRoom rid = \<lparr>room_id = rid, peer_ssrc_map = Map.empty, peers = [], next_ssrc = 0x10000000\<rparr>"

definition add_peer :: "sfu_room \<Rightarrow> int \<Rightarrow> sfu_room" where
  "add_peer r p =
     (case peer_ssrc_map r p of
        Some _ \<Rightarrow> r
      | None \<Rightarrow> r\<lparr>peer_ssrc_map := (peer_ssrc_map r)(p \<mapsto> next_ssrc r), next_ssrc := next_ssrc r + 1,
                  peers := peers r @ [p]\<rparr>)"

definition remove_peer :: "sfu_room \<Rightarrow> int \<Rightarrow> sfu_room" where
  "remove_peer r p =
     r\<lparr>peer_ssrc_map := (peer_ssrc_map r)(p := None), peers := filter (\<lambda>q. q \<noteq> p) (peers r)\<rparr>"

definition kRtpMinLen :: nat where
  "kRtpMinLen = 12"

definition route_rtp :: "sfu_room \<Rightarrow> int \<Rightarrow> bytes \<Rightarrow> (int \<times> bytes) list" where
  "route_rtp r from_id d =
     (if length d < kRtpMinLen then []
      else case peer_ssrc_map r from_id of
        None \<Rightarrow> []
      | Some out_ssrc \<Rightarrow>
          let b = d[8 := byte_at 3 out_ssrc, 9 := byte_at 2 out_ssrc,
                    10 := byte_at 1 out_ssrc, 11 := byte_at 0 out_ssrc]
          in map (\<lambda>q. (q, b)) (filter (\<lambda>q. q \<noteq> from_id) (peers r)))"

definition route_rtcp :: "sfu_room \<Rightarrow> int \<Rightarrow> bytes \<Rightarrow> (int \<times> bytes) list" where
  "route_rtcp r from_id d =
     (if length d < 4 then [] else map (\<lambda>q. (q, d)) (filter (\<lambda>q. q \<noteq> from_id) (peers r)))"

section \<open>The server's rooms\<close>

record sfu_server =
  udp_port :: u16
  rooms :: "string \<rightharpoonup> sfu_room"

definition SfuServer :: "u16 \<Rightarrow> sfu_server" where
  "SfuServer port = \<lparr>udp_port = port, rooms = Map.empty\<rparr>"

text \<open>The returned pointer leads to the room in the table.\<close>

definition get_or_create_room :: "sfu_server \<Rightarrow> string \<Rightarrow> sfu_room \<times> sfu_server" where
  "get_or_create_room s rid =
     (case rooms s rid of
        Some r \<Rightarrow> (r, s)
      | None \<Rightarrow> let r = SfuRoom rid in (r, s\<lparr>rooms := (rooms s)(rid \<mapsto> r)\<rparr>))"

section \<open>The invariant of a room\<close>

datatype room_op = AddPeer int | RemovePeer int

fun room_step :: "sfu_room \<Rightarrow> room_op \<Rightarrow> sfu_room" where
  "room_step r (AddPeer p) = add_peer r p"
| "room_step r (RemovePeer p) = remove_peer r p"

text \<open>The membership that the calls describe.\<close>

fun member_step :: "int set \<Rightarrow> room_op \<Rightarrow> int set" where
  "member_step S (AddPeer p) = insert p S"
| "member_step S (RemovePeer p) = S - {p}"

definition room_ok :: "sfu_room \<Rightarrow> bool" where
  "room_ok r \<longleftrightarrow> distinct (peers r) \<and> set (peers r) = dom (peer_ssrc_map r)"

lemma room_ok_SfuRoom: "room_ok (SfuRoom rid)"
  by (simp add: room_ok_def SfuRoom_def)

lemma room_ok_step:
  assumes "room_ok r"
  shows "room_ok (room_step r op) \<and>
    dom (peer_ssrc_map (room_step r op)) = member_step (dom (peer_ssrc_map r)) op"
  using assms
  by (cases op) (auto simp: room_ok_def add_peer_def remove_peer_def split: option.splits if_splits)

lemma room_ok_run:
  "room_ok r \<Longrightarrow> room_ok (foldl room_step r ops) \<and>
   dom (peer_ssrc_map (foldl room_step r ops)) = foldl member_step (dom (peer_ssrc_map r)) ops"
  by (induction ops arbitrary: r) (simp_all add: room_ok_step)

section \<open>SSRC allocation\<close>

text \<open>After \<open>n\<close> allocations every SSRC in use has one of the first \<open>n\<close> indices, and no two peers have
  the same.\<close>

definition ssrc_at :: "nat \<Rightarrow> u32" where
  "ssrc_at i = 0x10000000 + of_nat i"

lemma ssrc_at_inj: "i < 2 ^ 32 \<Longrightarrow> j < 2 ^ 32 \<Longrightarrow> ssrc_at i = ssrc_at j \<longleftrightarrow> i = j"
  by (simp add: ssrc_at_def word_of_nat_eq_iff take_bit_nat_eq_self)

definition alloc_ok :: "nat \<Rightarrow> sfu_room \<Rightarrow> bool" where
  "alloc_ok n r \<longleftrightarrow> next_ssrc r = ssrc_at n \<and>
     (\<forall>p s. peer_ssrc_map r p = Some s \<longrightarrow> (\<exists>i<n. s = ssrc_at i)) \<and>
     (\<forall>p q s. peer_ssrc_map r p = Some s \<and> peer_ssrc_map r q = Some s \<longrightarrow> p = q)"

lemma alloc_ok_step:
  assumes "alloc_ok n r" and "n < 2 ^ 32"
  shows "\<exists>n'. alloc_ok n' (room_step r op) \<and> n' \<le> Suc n"
proof (cases "\<exists>p. op = AddPeer p \<and> peer_ssrc_map r p = None")
  case True
  then obtain p where p: "op = AddPeer p" "peer_ssrc_map r p = None" by blast
  have fresh: "peer_ssrc_map r q \<noteq> Some (ssrc_at n)" for q
  proof
    assume "peer_ssrc_map r q = Some (ssrc_at n)"
    with assms(1) obtain i where "i < n" "ssrc_at n = ssrc_at i" unfolding alloc_ok_def by blast
    with assms(2) show False by (simp add: ssrc_at_inj)
  qed
  have eq: "peer_ssrc_map (room_step r op) = (peer_ssrc_map r)(p \<mapsto> ssrc_at n)"
    "next_ssrc (room_step r op) = ssrc_at (Suc n)"
    using p assms(1) by (simp_all add: add_peer_def alloc_ok_def ssrc_at_def)
  have "alloc_ok (Suc n) (room_step r op)"
    using assms(1) fresh unfolding alloc_ok_def eq
    by (auto split: if_splits) (meson less_SucI)+
  then show ?thesis by blast
next
  case False
  then have "alloc_ok n (room_step r op)"
    using assms(1) by (cases op) (auto simp: alloc_ok_def add_peer_def remove_peer_def split: if_splits)
  then show ?thesis by (metis le_SucI order_refl)
qed

lemma alloc_ok_run:
  "alloc_ok n r \<Longrightarrow> n + length ops \<le> 2 ^ 32 \<Longrightarrow>
   \<exists>n'. alloc_ok n' (foldl room_step r ops) \<and> n' \<le> n + length ops"
proof (induction ops arbitrary: n r)
  case Nil
  then show ?case by auto
next
  case (Cons op ops)
  then obtain n1 where "alloc_ok n1 (room_step r op)" "n1 \<le> Suc n"
    using alloc_ok_step [of n r op] by auto
  with Cons.IH [of n1 "room_step r op"] Cons.prems(2) show ?case
    by (auto intro: le_trans)
qed

lemma alloc_ok_SfuRoom: "alloc_ok 0 (SfuRoom rid)"
  by (simp add: alloc_ok_def SfuRoom_def ssrc_at_def)

section \<open>Rewriting the SSRC\<close>

definition with_ssrc :: "u32 \<Rightarrow> bytes \<Rightarrow> bytes" where
  "with_ssrc s d = take 8 d @ write_u32 s @ drop 12 d"

lemma rewrite_ssrc:
  assumes "length d \<ge> 12"
  shows "d[8 := byte_at 3 s, 9 := byte_at 2 s, 10 := byte_at 1 s, 11 := byte_at 0 s] = with_ssrc s d"
proof -
  have d: "d = take 8 d @ d ! 8 # d ! 9 # d ! 10 # d ! 11 # drop 12 d"
    using assms id_take_nth_drop [of 8 d] Cons_nth_drop_Suc [of 9 d, symmetric]
      Cons_nth_drop_Suc [of 10 d, symmetric] Cons_nth_drop_Suc [of 11 d, symmetric] by simp
  have "length (take 8 d) = 8" using assms by simp
  then show ?thesis
    by (subst d) (simp add: with_ssrc_def write_u32_def list_update_append)
qed

lemmas rewrite_ssrc' = rewrite_ssrc [unfolded One_nat_def]

lemma with_ssrc_fields:
  assumes "length d \<ge> 12"
  shows "length (with_ssrc s d) = length d"
    and "RtpPacket_ssrc (RtpPacket_ctor (with_ssrc s d)) = s"
    and "RtpPacket_sequence (RtpPacket_ctor (with_ssrc s d)) = RtpPacket_sequence (RtpPacket_ctor d)"
    and "RtpPacket_timestamp (RtpPacket_ctor (with_ssrc s d)) = RtpPacket_timestamp (RtpPacket_ctor d)"
    and "payload_bytes (RtpPacket_ctor (with_ssrc s d)) = payload_bytes (RtpPacket_ctor d)"
proof -
  show len: "length (with_ssrc s d) = length d" using assms by (simp add: with_ssrc_def)
  have low: "with_ssrc s d ! i = d ! i" if "i < 8" for i
    using that assms by (simp add: with_ssrc_def nth_append)
  have high: "drop k (with_ssrc s d) = drop k d" if "k \<ge> 12" for k
    using that assms by (simp add: with_ssrc_def)
  have ctor: "buf (RtpPacket_ctor e) = e" for e by (simp add: RtpPacket_ctor_def)
  have "read_u32 (take 8 d @ write_u32 s @ drop 12 d) 8 = s"
    using assms by (intro read_u32_write) simp
  then show "RtpPacket_ssrc (RtpPacket_ctor (with_ssrc s d)) = s"
    using assms len by (simp add: RtpPacket_ssrc_def ctor with_ssrc_def)
  show "RtpPacket_sequence (RtpPacket_ctor (with_ssrc s d)) = RtpPacket_sequence (RtpPacket_ctor d)"
    "RtpPacket_timestamp (RtpPacket_ctor (with_ssrc s d)) = RtpPacket_timestamp (RtpPacket_ctor d)"
    by (simp_all add: RtpPacket_sequence_def RtpPacket_timestamp_def ctor len low read_u16_def read_u32_def)
  show "payload_bytes (RtpPacket_ctor (with_ssrc s d)) = payload_bytes (RtpPacket_ctor d)"
    using assms by (simp add: payload_bytes_def RtpPacket_ctor_def kRtpMinHeaderLen_def len low high)
qed

lemma route_rtp_eq:
  assumes "room_ok r"
  shows "route_rtp r p d =
    (if 12 \<le> length d \<and> p \<in> set (peers r)
     then map (\<lambda>q. (q, with_ssrc (the (peer_ssrc_map r p)) d)) (filter (\<lambda>q. q \<noteq> p) (peers r))
     else [])"
  using assms by (auto simp: route_rtp_def kRtpMinLen_def Let_def rewrite_ssrc' room_ok_def domIff
      split: option.split)

section \<open>Properties\<close>

text \<open>In a room that was built up by any calls of \<open>add_peer\<close> and \<open>remove_peer\<close> (up to \<open>2^32\<close> of them),
  the peer list has no duplicates, it holds just the peers with an SSRC, which are those that were
  added and not removed since, and no two of them have the same SSRC.\<close>

theorem sfu_room_consistent:
  assumes "length ops \<le> 2 ^ 32" and "r = foldl room_step (SfuRoom rid) ops"
  shows "distinct (peers r) \<and> set (peers r) = dom (peer_ssrc_map r) \<and>
    set (peers r) = foldl member_step {} ops \<and>
    (\<forall>p q s. peer_ssrc_map r p = Some s \<and> peer_ssrc_map r q = Some s \<longrightarrow> p = q)"
proof -
  have "room_ok r" "dom (peer_ssrc_map r) = foldl member_step {} ops"
    using room_ok_run [OF room_ok_SfuRoom, of rid ops] assms(2) by (simp_all add: SfuRoom_def)
  moreover have "\<exists>n. alloc_ok n r"
    using alloc_ok_run [OF alloc_ok_SfuRoom, of ops rid] assms by auto
  ultimately show ?thesis
    unfolding room_ok_def alloc_ok_def by metis
qed

theorem sfu_room_consistent_witness:
  "peers (foldl room_step (SfuRoom ''r'') [AddPeer 1, AddPeer 2, AddPeer 1, RemovePeer 1, AddPeer 3]) = [2, 3] \<and>
   set (peers (foldl room_step (SfuRoom ''r'') [AddPeer 1, AddPeer 2, AddPeer 1, RemovePeer 1, AddPeer 3])) =
     foldl member_step {} [AddPeer 1, AddPeer 2, AddPeer 1, RemovePeer 1, AddPeer 3]"
proof -
  let ?ops = "[AddPeer 1, AddPeer 2, AddPeer 1, RemovePeer 1, AddPeer 3]"
  have "peers (foldl room_step (SfuRoom ''r'') ?ops) = [2, 3]"
    by (simp add: add_peer_def remove_peer_def SfuRoom_def)
  moreover have "set (peers (foldl room_step (SfuRoom ''r'') ?ops)) = foldl member_step {} ?ops"
    by (rule sfu_room_consistent [OF _ refl, THEN conjunct2, THEN conjunct2, THEN conjunct1]) simp
  ultimately show ?thesis by blast
qed

text \<open>C20. \<open>route_rtp\<close> sends a packet of a registered peer once to each other registered peer and never back,
  with the SSRC of the sender's map entry in bytes 8 to 11 and every other byte as it came: sequence
  number, timestamp and payload of the packet are unchanged.  A packet that is shorter than an RTP
  header or comes from an unregistered peer goes nowhere.\<close>

theorem sfu_route_rtp:
  "let r = foldl room_step (SfuRoom rid) ops; s = the (peer_ssrc_map r p); b = with_ssrc s d in
   (if 12 \<le> length d \<and> p \<in> set (peers r)
    then route_rtp r p d = map (\<lambda>q. (q, b)) (filter (\<lambda>q. q \<noteq> p) (peers r)) \<and>
      length b = length d \<and> RtpPacket_ssrc (RtpPacket_ctor b) = s \<and>
      RtpPacket_sequence (RtpPacket_ctor b) = RtpPacket_sequence (RtpPacket_ctor d) \<and>
      RtpPacket_timestamp (RtpPacket_ctor b) = RtpPacket_timestamp (RtpPacket_ctor d) \<and>
      payload_bytes (RtpPacket_ctor b) = payload_bytes (RtpPacket_ctor d)
    else route_rtp r p d = []) \<and>
   distinct (map fst (route_rtp r p d))"
proof -
  define r where "r = foldl room_step (SfuRoom rid) ops"
  have ok: "room_ok r" using room_ok_run [OF room_ok_SfuRoom, of rid ops] by (simp add: r_def)
  note eq = route_rtp_eq [OF ok, of p d]
  have "distinct (map fst (route_rtp r p d))"
    using ok by (simp add: eq room_ok_def comp_def)
  with eq show ?thesis
    by (simp add: Let_def with_ssrc_fields flip: r_def)
qed

text \<open>\<open>route_rtcp\<close> forwards an RTCP packet of at least four bytes unchanged, with the SSRCs it came with,
  to every other peer of the room, also when its sender is not in the room; so what is sent on for a
  sender report names an SSRC other than the one \<open>route_rtp\<close> gives the sender's packets, unless the
  sender happens to use that one.\<close>

theorem sfu_route_rtcp:
  "let r = foldl room_step (SfuRoom rid) ops in
   route_rtcp r p d = (if length d < 4 then [] else map (\<lambda>q. (q, d)) (filter (\<lambda>q. q \<noteq> p) (peers r))) \<and>
   distinct (map fst (route_rtcp r p d)) \<and>
   (p \<in> set (peers r) \<or> length d < 4 \<or> route_rtcp r p d = map (\<lambda>q. (q, d)) (peers r))"
proof -
  define r where "r = foldl room_step (SfuRoom rid) ops"
  have ok: "room_ok r" using room_ok_run [OF room_ok_SfuRoom, of rid ops] by (simp add: r_def)
  have "filter (\<lambda>q. q \<noteq> p) (peers r) = peers r" if "p \<notin> set (peers r)"
    using that by (auto simp: filter_id_conv)
  then show ?thesis
    using ok by (cases "p \<in> set (peers r)")
      (simp_all add: route_rtcp_def room_ok_def comp_def Let_def flip: r_def)
qed

text \<open>\<open>get_or_create_room\<close> makes an empty room only for an identifier that has none, and otherwise returns
  the one in the table: a second call returns the same room and changes nothing, and the other rooms
  stay as they are.\<close>

theorem sfu_get_or_create:
  "case get_or_create_room s rid of (r, s') \<Rightarrow>
     rooms s' rid = Some r \<and> r = (case rooms s rid of Some r0 \<Rightarrow> r0 | None \<Rightarrow> SfuRoom rid) \<and>
     get_or_create_room s' rid = (r, s') \<and>
     (rid' = rid \<or> rooms s' rid' = rooms s rid')"
  by (auto simp: get_or_create_room_def Let_def split: option.splits)

end
