(* ===== verification/Whiteboard.thy ===== *)
theory Whiteboard
  imports Prelude "HOL-Library.List_Lexorder" "HOL-Library.Char_ord"
begin

text \<open>
  \<open>CrdtWhiteboard\<close> of \<open>module11_whiteboard\<close> (\<open>crdt_whiteboard.h\<close>, \<open>crdt_whiteboard.cpp\<close>): a
  last-write-wins element set of strokes with a Lamport clock of 64 bits.  A \<open>float\<close> is its bit pattern,
  since the code only copies it.  An \<open>unordered_map\<close> is a map; where the code iterates over one, the order
  is not determined and is an argument, a list of its entries.
\<close>

section \<open>Stamps\<close>

text \<open>The pair a write carries; \<open>std::string\<close> compares by unsigned characters, the order of
  \<open>HOL-Library.Char_ord\<close> and \<open>HOL-Library.List_Lexorder\<close>.\<close>

datatype stamp = Stamp (st_ts: u64) (st_pid: string)

definition lww_wins :: "u64 \<Rightarrow> string \<Rightarrow> u64 \<Rightarrow> string \<Rightarrow> bool" where
  "lww_wins ts_a pid_a ts_b pid_b = (if ts_a \<noteq> ts_b then ts_a > ts_b else pid_a > pid_b)"

instantiation stamp :: linorder
begin

definition less_stamp :: "stamp \<Rightarrow> stamp \<Rightarrow> bool" where
  "less_stamp a b = lww_wins (st_ts b) (st_pid b) (st_ts a) (st_pid a)"

definition less_eq_stamp :: "stamp \<Rightarrow> stamp \<Rightarrow> bool" where
  "less_eq_stamp a b \<longleftrightarrow> a = b \<or> a < b"

instance
proof
  fix a b c :: stamp
  show "a < b \<longleftrightarrow> a \<le> b \<and> \<not> b \<le> a"
    by (auto simp: less_stamp_def less_eq_stamp_def lww_wins_def split: if_splits)
  show "a \<le> a" by (simp add: less_eq_stamp_def)
  show "a \<le> b \<Longrightarrow> b \<le> c \<Longrightarrow> a \<le> c"
    by (auto simp: less_stamp_def less_eq_stamp_def lww_wins_def split: if_splits)
  show "a \<le> b \<Longrightarrow> b \<le> a \<Longrightarrow> a = b"
    by (auto simp: less_stamp_def less_eq_stamp_def lww_wins_def split: if_splits)
  show "a \<le> b \<or> b \<le> a"
    by (auto simp: less_stamp_def less_eq_stamp_def lww_wins_def stamp.expand)
qed

end

lemma lww_wins_stamp: "lww_wins t p t' p' \<longleftrightarrow> Stamp t' p' < Stamp t p"
  by (simp add: less_stamp_def)

lemma less_stamp_ts: "ts < ts' \<Longrightarrow> Stamp ts p < Stamp ts' p'"
  by (auto simp: less_stamp_def lww_wins_def)

section \<open>The whiteboard\<close>

record point =
  px :: u32
  py :: u32

record stroke =
  uuid :: string
  points :: "point list"
  color :: u32
  width :: u32

datatype add_entry = AddEntry (ae_stroke: stroke) (ae_ts: u64) (ae_pid: string)

datatype remove_entry = RemoveEntry (re_ts: u64) (re_pid: string)

record whiteboard =
  peer_id :: string
  lamport_ts :: u64
  added :: "string \<rightharpoonup> add_entry"
  removed :: "string \<rightharpoonup> remove_entry"

definition CrdtWhiteboard :: "string \<Rightarrow> whiteboard" where
  "CrdtWhiteboard pid = \<lparr>peer_id = pid, lamport_ts = 0, added = Map.empty, removed = Map.empty\<rparr>"

definition tick :: "whiteboard \<Rightarrow> whiteboard" where
  "tick w = w\<lparr>lamport_ts := lamport_ts w + 1\<rparr>"

definition update_clock :: "u64 \<Rightarrow> whiteboard \<Rightarrow> whiteboard" where
  "update_clock remote_ts w =
     (if remote_ts \<ge> lamport_ts w then w\<lparr>lamport_ts := remote_ts + 1\<rparr> else w)"

text \<open>The update that the local and the remote operations share.\<close>

definition put_add :: "add_entry \<Rightarrow> whiteboard \<Rightarrow> whiteboard" where
  "put_add e w =
     (let k = uuid (ae_stroke e) in
      case added w k of
        None \<Rightarrow> w\<lparr>added := (added w)(k \<mapsto> e)\<rparr>
      | Some it \<Rightarrow>
          if lww_wins (ae_ts e) (ae_pid e) (ae_ts it) (ae_pid it)
          then w\<lparr>added := (added w)(k \<mapsto> e)\<rparr> else w)"

definition put_remove :: "string \<Rightarrow> remove_entry \<Rightarrow> whiteboard \<Rightarrow> whiteboard" where
  "put_remove k e w =
     (case removed w k of
        None \<Rightarrow> w\<lparr>removed := (removed w)(k \<mapsto> e)\<rparr>
      | Some it \<Rightarrow>
          if lww_wins (re_ts e) (re_pid e) (re_ts it) (re_pid it)
          then w\<lparr>removed := (removed w)(k \<mapsto> e)\<rparr> else w)"

definition local_add :: "stroke \<Rightarrow> whiteboard \<Rightarrow> whiteboard" where
  "local_add s w =
     (let w1 = tick w in put_add (AddEntry s (lamport_ts w1) (peer_id w1)) w1)"

definition local_remove :: "string \<Rightarrow> whiteboard \<Rightarrow> whiteboard" where
  "local_remove k w =
     (let w1 = tick w in put_remove k (RemoveEntry (lamport_ts w1) (peer_id w1)) w1)"

definition remote_add :: "stroke \<Rightarrow> u64 \<Rightarrow> string \<Rightarrow> whiteboard \<Rightarrow> whiteboard" where
  "remote_add s ts pid w = put_add (AddEntry s ts pid) (update_clock ts w)"

definition remote_remove :: "string \<Rightarrow> u64 \<Rightarrow> string \<Rightarrow> whiteboard \<Rightarrow> whiteboard" where
  "remote_remove k ts pid w = put_remove k (RemoveEntry ts pid) (update_clock ts w)"

text \<open>\<open>as\<close> and \<open>rs\<close> are the entries of the other whiteboard's maps in the order of the iteration.\<close>

definition crdt_merge :: "(string \<times> add_entry) list \<Rightarrow> (string \<times> remove_entry) list \<Rightarrow> whiteboard \<Rightarrow> whiteboard" where
  "crdt_merge as rs w =
     fold (\<lambda>(k, e). remote_remove k (re_ts e) (re_pid e)) rs
       (fold (\<lambda>(_, e). remote_add (ae_stroke e) (ae_ts e) (ae_pid e)) as w)"

definition is_visible :: "whiteboard \<Rightarrow> string \<Rightarrow> bool" where
  "is_visible w k =
     (case added w k of
        None \<Rightarrow> False
      | Some a \<Rightarrow>
          (case removed w k of
             None \<Rightarrow> True
           | Some r \<Rightarrow> lww_wins (ae_ts a) (ae_pid a) (re_ts r) (re_pid r)))"

definition visible_strokes :: "(string \<times> add_entry) list \<Rightarrow> whiteboard \<Rightarrow> stroke list" where
  "visible_strokes as w = map (\<lambda>(_, e). ae_stroke e) (filter (\<lambda>(k, _). is_visible w k) as)"

text \<open>An iteration over a map visits each entry once.\<close>

definition iterates :: "('k \<times> 'v) list \<Rightarrow> ('k \<rightharpoonup> 'v) \<Rightarrow> bool" where
  "iterates xs m \<longleftrightarrow> distinct (map fst xs) \<and> map_of xs = m"

lemma iterates_iff: "iterates xs m \<Longrightarrow> (k, v) \<in> set xs \<longleftrightarrow> m k = Some v"
  unfolding iterates_def by (metis map_of_SomeD map_of_is_SomeI)

section \<open>A store where the last writer wins\<close>

text \<open>What the two maps have in common: a write replaces the entry of its key when its stamp is greater.
  Which entry a key ends up with depends on the writes alone, not on their order or repetition.\<close>

locale lww_store =
  fixes put :: "'e \<Rightarrow> 'm \<Rightarrow> 'm"
    and get :: "'k \<Rightarrow> 'm \<Rightarrow> 'e option"
    and key :: "'e \<Rightarrow> 'k"
    and stamp :: "'e \<Rightarrow> 's::linorder"
  assumes get_put: "get k (put e m) =
    (if k = key e \<and> (case get k m of None \<Rightarrow> True | Some e' \<Rightarrow> stamp e' < stamp e) then Some e else get k m)"
begin

text \<open>The entry of a key is a write with the greatest stamp.\<close>

definition holds :: "'e set \<Rightarrow> 'm \<Rightarrow> bool" where
  "holds S m \<longleftrightarrow> (\<forall>k. case get k m of
       None \<Rightarrow> \<forall>e\<in>S. key e \<noteq> k
     | Some e \<Rightarrow> e \<in> S \<and> key e = k \<and> (\<forall>e'\<in>S. key e' = k \<longrightarrow> stamp e' \<le> stamp e))"

definition unambiguous :: "'e set \<Rightarrow> bool" where
  "unambiguous S \<longleftrightarrow> (\<forall>e\<in>S. \<forall>e'\<in>S. key e = key e' \<and> stamp e = stamp e' \<longrightarrow> e = e')"

lemma holds_put: "holds S m \<Longrightarrow> holds (insert e S) (put e m)"
  unfolding holds_def
  by (rule allI, drule_tac x = k in spec) (fastforce simp: get_put split: option.splits)

lemma holds_fold: "holds S m \<Longrightarrow> holds (S \<union> set es) (fold put es m)"
proof (induction es arbitrary: S m)
  case (Cons e es)
  from Cons.IH [OF holds_put [OF Cons.prems, of e]] show ?case by simp
qed simp

lemma holds_get: "holds S m \<Longrightarrow> get k m = None \<longleftrightarrow> (\<forall>e\<in>S. key e \<noteq> k)"
  unfolding holds_def by (drule spec [of _ k]) (auto split: option.splits)

lemma holds_get_Some:
  "holds S m \<Longrightarrow> get k m = Some e \<Longrightarrow> e \<in> S \<and> key e = k \<and> (\<forall>e'\<in>S. key e' = k \<longrightarrow> stamp e' \<le> stamp e)"
  unfolding holds_def by (drule spec [of _ k]) simp

lemma holds_unique:
  assumes "holds S m" and "holds S m'" and "unambiguous S"
  shows "get k m = get k m'"
proof (cases "get k m")
  case None
  then show ?thesis using holds_get [OF assms(1), of k] holds_get [OF assms(2), of k] by simp
next
  case (Some e)
  then obtain e' where e': "get k m' = Some e'"
    using holds_get [OF assms(1), of k] holds_get [OF assms(2), of k] by fastforce
  have "e \<in> S" "key e = k" "\<forall>e'\<in>S. key e' = k \<longrightarrow> stamp e' \<le> stamp e"
    using holds_get_Some [OF assms(1) Some] by auto
  moreover have "e' \<in> S" "key e' = k" "\<forall>e\<in>S. key e = k \<longrightarrow> stamp e \<le> stamp e'"
    using holds_get_Some [OF assms(2) e'] by auto
  ultimately have "e = e'"
    using assms(3) unfolding unambiguous_def by (metis order_antisym)
  with Some e' show ?thesis by simp
qed

lemma holds_cong: "(\<And>k. get k m = get k m') \<Longrightarrow> holds S m \<longleftrightarrow> holds S m'"
  unfolding holds_def by simp

text \<open>The writes of a set may be replaced by the winners among them.\<close>

lemma holds_dominated:
  assumes "holds (S \<union> E) m" and "E \<subseteq> T"
    and "\<And>t. t \<in> T \<Longrightarrow> \<exists>e\<in>E. key e = key t \<and> stamp t \<le> stamp e"
  shows "holds (S \<union> T) m"
  unfolding holds_def
proof (rule allI, goal_cases)
  case (1 k)
  show ?case
  proof (cases "get k m")
    case None
    have "key t \<noteq> k" if "t \<in> T" for t
      using holds_get [OF assms(1), of k] None assms(3) [OF that] by auto
    then show ?thesis
      using holds_get [OF assms(1), of k] None by auto
  next
    case (Some e)
    note e = holds_get_Some [OF assms(1) Some]
    have "stamp t \<le> stamp e" if "t \<in> T" "key t = k" for t
      using e assms(3) [OF that(1)] that(2) by (metis UnI2 order_trans)
    then show ?thesis using e assms(2) Some by auto
  qed
qed

lemma holds_winners:
  assumes "holds T m"
  shows "{e. get (key e) m = Some e} \<subseteq> T"
    and "t \<in> T \<Longrightarrow> \<exists>e\<in>{e. get (key e) m = Some e}. key e = key t \<and> stamp t \<le> stamp e"
proof -
  show "{e. get (key e) m = Some e} \<subseteq> T" using holds_get_Some [OF assms] by blast
  assume t: "t \<in> T"
  then obtain e where e: "get (key t) m = Some e" using holds_get [OF assms, of "key t"] by auto
  have "key e = key t" "stamp t \<le> stamp e" using holds_get_Some [OF assms e] t by auto
  with e have "get (key e) m = Some e" by simp
  with \<open>key e = key t\<close> \<open>stamp t \<le> stamp e\<close>
  show "\<exists>e\<in>{e. get (key e) m = Some e}. key e = key t \<and> stamp t \<le> stamp e" by blast
qed

end

section \<open>The two maps as such stores\<close>

definition add_key :: "add_entry \<Rightarrow> string" where
  "add_key e = uuid (ae_stroke e)"

definition add_stamp :: "add_entry \<Rightarrow> stamp" where
  "add_stamp e = Stamp (ae_ts e) (ae_pid e)"

definition rem_stamp :: "string \<times> remove_entry \<Rightarrow> stamp" where
  "rem_stamp r = Stamp (re_ts (snd r)) (re_pid (snd r))"

definition get_removed :: "string \<Rightarrow> whiteboard \<Rightarrow> (string \<times> remove_entry) option" where
  "get_removed k w = map_option (\<lambda>e. (k, e)) (removed w k)"

interpretation adds: lww_store put_add "\<lambda>k w. added w k" add_key add_stamp
  by unfold_locales
     (auto simp: put_add_def add_key_def add_stamp_def lww_wins_stamp Let_def split: option.split)

interpretation rems: lww_store "\<lambda>(k, e). put_remove k e" get_removed fst rem_stamp
  by unfold_locales
     (auto simp: put_remove_def get_removed_def rem_stamp_def lww_wins_stamp Let_def split: option.split)

text \<open>The whiteboard holds the winners of the adds \<open>A\<close> and the removes \<open>R\<close>.\<close>

definition reflects :: "add_entry set \<Rightarrow> (string \<times> remove_entry) set \<Rightarrow> whiteboard \<Rightarrow> bool" where
  "reflects A R w \<longleftrightarrow> adds.holds A w \<and> rems.holds R w"

lemma reflects_empty: "reflects {} {} (CrdtWhiteboard pid)"
  by (simp add: reflects_def adds.holds_def rems.holds_def CrdtWhiteboard_def get_removed_def)

lemma untouched:
  "removed (put_add e w) = removed w" "added (put_remove k r w) = added w"
  "added (tick w) = added w" "removed (tick w) = removed w"
  "added (update_clock t w) = added w" "removed (update_clock t w) = removed w"
  "peer_id (put_add e w) = peer_id w" "peer_id (put_remove k r w) = peer_id w"
  "lamport_ts (put_add e w) = lamport_ts w" "lamport_ts (put_remove k r w) = lamport_ts w"
  "peer_id (tick w) = peer_id w" "peer_id (update_clock t w) = peer_id w"
  by (simp_all add: put_add_def put_remove_def tick_def update_clock_def Let_def split: option.split)

lemma reflects_clock:
  "reflects A R (tick w) \<longleftrightarrow> reflects A R w" "reflects A R (update_clock t w) \<longleftrightarrow> reflects A R w"
  unfolding reflects_def
  using adds.holds_cong [of "tick w" w A] rems.holds_cong [of "tick w" w R]
    adds.holds_cong [of "update_clock t w" w A] rems.holds_cong [of "update_clock t w" w R]
  by (simp_all add: untouched get_removed_def)

lemma reflects_put_add: "reflects A R w \<Longrightarrow> reflects (insert e A) R (put_add e w)"
  unfolding reflects_def
  using adds.holds_put [of A w e] rems.holds_cong [of "put_add e w" w R]
  by (simp add: get_removed_def untouched)

lemma reflects_put_remove: "reflects A R w \<Longrightarrow> reflects A (insert (k, e) R) (put_remove k e w)"
  unfolding reflects_def
  using rems.holds_put [of R w "(k, e)"] adds.holds_cong [of "put_remove k e w" w A]
  by (simp add: untouched)

lemma reflects_remote:
  "reflects A R w \<Longrightarrow> reflects (insert (AddEntry s ts pid) A) R (remote_add s ts pid w)"
  "reflects A R w \<Longrightarrow> reflects A (insert (k, RemoveEntry ts pid) R) (remote_remove k ts pid w)"
  by (simp_all add: remote_add_def remote_remove_def reflects_put_add reflects_put_remove reflects_clock)

lemma reflects_merge:
  assumes "reflects A R w"
  shows "reflects (A \<union> snd ` set as) (R \<union> set rs) (crdt_merge as rs w)"
proof -
  have adds: "reflects A R w \<Longrightarrow>
      reflects (A \<union> snd ` set as) R (fold (\<lambda>(_, e). remote_add (ae_stroke e) (ae_ts e) (ae_pid e)) as w)"
    for A w
  proof (induction as arbitrary: A w)
    case (Cons a as)
    obtain k e where a: "a = (k, e)" by (cases a)
    have "reflects (insert e A) R (remote_add (ae_stroke e) (ae_ts e) (ae_pid e) w)"
      using reflects_remote(1) [OF Cons.prems, of "ae_stroke e" "ae_ts e" "ae_pid e"] by simp
    from Cons.IH [OF this] a show ?case by simp
  qed simp
  have rems: "reflects A R w \<Longrightarrow>
      reflects A (R \<union> set rs) (fold (\<lambda>(k, e). remote_remove k (re_ts e) (re_pid e)) rs w)" for A R w
  proof (induction rs arbitrary: R w)
    case (Cons r rs)
    obtain k e where r: "r = (k, e)" by (cases r)
    have "reflects A (insert (k, e) R) (remote_remove k (re_ts e) (re_pid e) w)"
      using reflects_remote(2) [OF Cons.prems, of k "re_ts e" "re_pid e"] by simp
    from Cons.IH [OF this] r show ?case by simp
  qed simp
  show ?thesis
    unfolding crdt_merge_def by (intro rems adds assms)
qed

text \<open>Merging the state of a whiteboard that reflects some writes is as good as having seen them.\<close>

lemma reflects_merge_state:
  assumes w: "reflects A R w" and w': "reflects A' R' w'"
    and it: "iterates as (added w')" "iterates rs (removed w')"
  shows "reflects (A \<union> A') (R \<union> R') (crdt_merge as rs w)"
proof -
  have as: "snd ` set as = {e. added w' (add_key e) = Some e}"
  proof -
    have "(k, e) \<in> set as \<longleftrightarrow> added w' k = Some e" for k e
      using it(1) by (rule iterates_iff)
    moreover have "added w' k = Some e \<Longrightarrow> add_key e = k" for k e
      using w' adds.holds_get_Some unfolding reflects_def by blast
    ultimately show ?thesis by force
  qed
  have rs: "set rs = {r. get_removed (fst r) w' = Some r}"
    using iterates_iff [OF it(2)] by (auto simp: get_removed_def)
  have m: "adds.holds (A \<union> {e. added w' (add_key e) = Some e}) (crdt_merge as rs w)"
    "rems.holds (R \<union> {r. get_removed (fst r) w' = Some r}) (crdt_merge as rs w)"
    using reflects_merge [OF w, of as rs] unfolding reflects_def as rs by blast+
  have h: "adds.holds A' w'" "rems.holds R' w'" using w' unfolding reflects_def by blast+
  show ?thesis
    unfolding reflects_def
    using adds.holds_dominated [OF m(1) adds.holds_winners [OF h(1)]]
      rems.holds_dominated [OF m(2) rems.holds_winners [OF h(2)]] by blast
qed

section \<open>Whiteboards that exchange their operations\<close>

datatype crdt_op = OpAdd add_entry | OpRemove string remove_entry

fun apply_op :: "crdt_op \<Rightarrow> whiteboard \<Rightarrow> whiteboard" where
  "apply_op (OpAdd e) w = remote_add (ae_stroke e) (ae_ts e) (ae_pid e) w"
| "apply_op (OpRemove k r) w = remote_remove k (re_ts r) (re_pid r) w"

fun op_stamp :: "crdt_op \<Rightarrow> stamp" where
  "op_stamp (OpAdd e) = Stamp (ae_ts e) (ae_pid e)"
| "op_stamp (OpRemove k r) = Stamp (re_ts r) (re_pid r)"

definition adds_of :: "crdt_op set \<Rightarrow> add_entry set" where
  "adds_of S = {e. OpAdd e \<in> S}"

definition rems_of :: "crdt_op set \<Rightarrow> (string \<times> remove_entry) set" where
  "rems_of S = {(k, r). OpRemove k r \<in> S}"

lemma ops_of_simps:
  "adds_of (insert (OpAdd e) S) = insert e (adds_of S)" "rems_of (insert (OpAdd e) S) = rems_of S"
  "adds_of (insert (OpRemove k r) S) = adds_of S" "rems_of (insert (OpRemove k r) S) = insert (k, r) (rems_of S)"
  "adds_of (S \<union> T) = adds_of S \<union> adds_of T" "rems_of (S \<union> T) = rems_of S \<union> rems_of T"
  "adds_of {} = {}" "rems_of {} = {}"
  by (auto simp: adds_of_def rems_of_def)

definition knows :: "crdt_op set \<Rightarrow> whiteboard \<Rightarrow> bool" where
  "knows S w \<longleftrightarrow> reflects (adds_of S) (rems_of S) w"

lemma knows_apply: "knows S w \<Longrightarrow> knows (insert op S) (apply_op op w)"
proof (cases op)
  case (OpAdd e)
  moreover assume "knows S w"
  then have "reflects (insert e (adds_of S)) (rems_of S) (remote_add (ae_stroke e) (ae_ts e) (ae_pid e) w)"
    using reflects_remote(1) [of "adds_of S" "rems_of S" w "ae_stroke e" "ae_ts e" "ae_pid e"]
    by (simp add: knows_def)
  ultimately show ?thesis by (simp add: knows_def ops_of_simps)
next
  case (OpRemove k r)
  moreover assume "knows S w"
  then have "reflects (adds_of S) (insert (k, r) (rems_of S)) (remote_remove k (re_ts r) (re_pid r) w)"
    using reflects_remote(2) [of "adds_of S" "rems_of S" w k "re_ts r" "re_pid r"]
    by (simp add: knows_def)
  ultimately show ?thesis by (simp add: knows_def ops_of_simps)
qed

lemma knows_applies: "knows S w \<Longrightarrow> knows (S \<union> set ops) (fold apply_op ops w)"
proof (induction ops arbitrary: S w)
  case (Cons op ops)
  from Cons.IH [OF knows_apply [OF Cons.prems, of op]] show ?case by simp
qed simp

text \<open>Two operations of one kind on one stroke have different stamps.\<close>

definition unambiguous_ops :: "crdt_op set \<Rightarrow> bool" where
  "unambiguous_ops S \<longleftrightarrow> adds.unambiguous (adds_of S) \<and> rems.unambiguous (rems_of S)"

lemma knows_unique:
  assumes "knows S w" and "knows S w'" and "unambiguous_ops S"
  shows "added w = added w'" and "removed w = removed w'"
proof -
  show "added w = added w'"
    using assms adds.holds_unique unfolding knows_def reflects_def unambiguous_ops_def by blast
  have "get_removed k w = get_removed k w'" for k
    using assms rems.holds_unique unfolding knows_def reflects_def unambiguous_ops_def by blast
  moreover have "map_option snd (get_removed k w) = removed w k" for k w
    by (cases "removed w k") (simp_all add: get_removed_def)
  ultimately show "removed w = removed w'" by (metis ext)
qed

text \<open>Visibility in terms of the operations: an add that every remove of the stroke loses against.\<close>

lemma knows_visible:
  assumes "knows S w"
  shows "is_visible w k \<longleftrightarrow>
    (\<exists>e. OpAdd e \<in> S \<and> uuid (ae_stroke e) = k \<and>
       (\<forall>r. OpRemove k r \<in> S \<longrightarrow> op_stamp (OpRemove k r) < op_stamp (OpAdd e)))"
proof -
  have A: "adds.holds (adds_of S) w" and R: "rems.holds (rems_of S) w"
    using assms by (auto simp: knows_def reflects_def)
  have none: "removed w k = None \<longleftrightarrow> (\<forall>r. OpRemove k r \<notin> S)"
    using rems.holds_get [OF R, of k] by (auto simp: get_removed_def rems_of_def)
  have some: "OpRemove k r \<in> S \<and> (\<forall>r'. OpRemove k r' \<in> S \<longrightarrow> op_stamp (OpRemove k r') \<le> op_stamp (OpRemove k r))"
    if "removed w k = Some r" for r
    using rems.holds_get_Some [OF R, of k "(k, r)"] that
    by (auto simp: get_removed_def rems_of_def rem_stamp_def)
  show ?thesis
  proof (cases "added w k")
    case None
    then show ?thesis
      using adds.holds_get [OF A, of k] by (auto simp: is_visible_def adds_of_def add_key_def)
  next
    case (Some a)
    then have a: "OpAdd a \<in> S" "uuid (ae_stroke a) = k"
      "\<And>e. OpAdd e \<in> S \<Longrightarrow> uuid (ae_stroke e) = k \<Longrightarrow> op_stamp (OpAdd e) \<le> op_stamp (OpAdd a)"
      using adds.holds_get_Some [OF A Some] by (auto simp: adds_of_def add_key_def add_stamp_def)
    show ?thesis
    proof (cases "removed w k")
      case None
      with none a Some show ?thesis by (auto simp: is_visible_def)
    next
      case r: (Some r)
      have "is_visible w k \<longleftrightarrow> op_stamp (OpRemove k r) < op_stamp (OpAdd a)"
        by (simp add: is_visible_def Some r lww_wins_stamp)
      moreover have "op_stamp (OpRemove k r') < op_stamp (OpAdd a)"
        if "op_stamp (OpRemove k r) < op_stamp (OpAdd a)" "OpRemove k r' \<in> S" for r'
        using some [OF r] that le_less_trans by blast
      moreover have "op_stamp (OpRemove k r) < op_stamp (OpAdd a)"
        if "OpAdd e \<in> S" "uuid (ae_stroke e) = k" "op_stamp (OpRemove k r) < op_stamp (OpAdd e)" for e
        using a(3) [OF that(1,2)] that(3) less_le_trans by blast
      ultimately show ?thesis using some [OF r] a(1,2) by blast
    qed
  qed
qed

section \<open>The clock\<close>

lemma apply_op_clock:
  assumes "unat (st_ts (op_stamp op)) < 2 ^ 64 - 1"
  shows "unat (lamport_ts w) \<le> unat (lamport_ts (apply_op op w))" and "peer_id (apply_op op w) = peer_id w"
proof -
  have "unat (lamport_ts w) \<le> unat (lamport_ts (update_clock ts w))" if "unat ts < 2 ^ 64 - 1" for ts
  proof -
    have "unat (ts + 1) = unat ts + 1" using that by (simp add: unat_word_ariths)
    then show ?thesis by (auto simp: update_clock_def word_le_nat_alt)
  qed
  with assms show "unat (lamport_ts w) \<le> unat (lamport_ts (apply_op op w))"
    by (cases op) (simp_all add: remote_add_def remote_remove_def untouched)
  show "peer_id (apply_op op w) = peer_id w"
    by (cases op) (simp_all add: remote_add_def remote_remove_def untouched)
qed

lemma merge_applies:
  "crdt_merge as rs w =
     fold apply_op (map (\<lambda>(_, e). OpAdd e) as @ map (\<lambda>(k, r). OpRemove k r) rs) w"
proof -
  have "fold (\<lambda>(_, e). remote_add (ae_stroke e) (ae_ts e) (ae_pid e)) as w =
      fold apply_op (map (\<lambda>(_, e). OpAdd e) as) w" for w
    by (induction as arbitrary: w) auto
  moreover have "fold (\<lambda>(k, e). remote_remove k (re_ts e) (re_pid e)) rs w =
      fold apply_op (map (\<lambda>(k, r). OpRemove k r) rs) w" for w
    by (induction rs arbitrary: w) auto
  ultimately show ?thesis by (simp add: crdt_merge_def)
qed

lemma apply_ops_clock:
  assumes "\<forall>op\<in>set ops. unat (st_ts (op_stamp op)) < 2 ^ 64 - 1"
  shows "unat (lamport_ts w) \<le> unat (lamport_ts (fold apply_op ops w))"
    and "peer_id (fold apply_op ops w) = peer_id w"
  using assms
proof (induction ops arbitrary: w)
  case (Cons op ops)
  {
    case 1
    then show ?case
      using Cons.IH(1) [of "apply_op op w"] apply_op_clock(1) [of op w] by (auto intro: order_trans)
  next
    case 2
    then show ?case
      using Cons.IH(2) [of "apply_op op w"] apply_op_clock(2) [of op w] by auto
  }
qed simp_all

lemma local_clock:
  assumes "unat (lamport_ts w) < 2 ^ 64 - 1"
  shows "unat (lamport_ts (local_add s w)) = unat (lamport_ts w) + 1"
    and "unat (lamport_ts (local_remove k w)) = unat (lamport_ts w) + 1"
  using assms by (simp_all add: local_add_def local_remove_def untouched tick_def Let_def unat_word_ariths)

lemma local_peer: "peer_id (local_add s w) = peer_id w" "peer_id (local_remove k w) = peer_id w"
  by (simp_all add: local_add_def local_remove_def untouched Let_def)

lemma knows_local:
  "knows S w \<Longrightarrow> w' = local_add s w \<Longrightarrow>
   knows (insert (OpAdd (AddEntry s (lamport_ts w') (peer_id w'))) S) w'"
  "knows S w \<Longrightarrow> w' = local_remove k w \<Longrightarrow>
   knows (insert (OpRemove k (RemoveEntry (lamport_ts w') (peer_id w'))) S) w'"
  by (simp_all add: local_add_def local_remove_def Let_def knows_def ops_of_simps untouched
      reflects_put_add reflects_put_remove reflects_clock)

section \<open>A network of whiteboards\<close>

text \<open>The whiteboards of a session, the operations issued so far and those each has seen.  A whiteboard may
  act, take an operation that was issued (in any order, any number of times), or merge with another.\<close>

record net =
  node :: "nat \<Rightarrow> whiteboard"
  issued :: "crdt_op set"
  seen :: "nat \<Rightarrow> crdt_op set"

definition net_update :: "net \<Rightarrow> nat \<Rightarrow> whiteboard \<Rightarrow> crdt_op set \<Rightarrow> net" where
  "net_update n i w ops =
     n\<lparr>node := (node n)(i := w), issued := issued n \<union> ops, seen := (seen n)(i := seen n i \<union> ops)\<rparr>"

inductive net_step :: "net \<Rightarrow> net \<Rightarrow> bool" where
  act_add: "unat (lamport_ts (node n i)) < 2 ^ 64 - 2 \<Longrightarrow> w = local_add s (node n i) \<Longrightarrow>
    net_step n (net_update n i w {OpAdd (AddEntry s (lamport_ts w) (peer_id w))})"
| act_remove: "unat (lamport_ts (node n i)) < 2 ^ 64 - 2 \<Longrightarrow> w = local_remove k (node n i) \<Longrightarrow>
    net_step n (net_update n i w {OpRemove k (RemoveEntry (lamport_ts w) (peer_id w))})"
| deliver: "op \<in> issued n \<Longrightarrow> net_step n (net_update n i (apply_op op (node n i)) {op})"
| merge_from: "iterates as (added (node n j)) \<Longrightarrow> iterates rs (removed (node n j)) \<Longrightarrow>
    net_step n (net_update n i (crdt_merge as rs (node n i)) (seen n j))"

inductive net_reachable :: "(nat \<Rightarrow> string) \<Rightarrow> net \<Rightarrow> bool" for ids where
  start: "net_reachable ids \<lparr>node = \<lambda>i. CrdtWhiteboard (ids i), issued = {}, seen = \<lambda>_. {}\<rparr>"
| step: "net_reachable ids n \<Longrightarrow> net_step n n' \<Longrightarrow> net_reachable ids n'"

text \<open>An operation of the network: it was stamped by one of the whiteboards, whose clock has passed it.\<close>

definition stamped_by :: "net \<Rightarrow> crdt_op \<Rightarrow> nat \<Rightarrow> bool" where
  "stamped_by n op j \<longleftrightarrow> st_pid (op_stamp op) = peer_id (node n j) \<and>
     unat (st_ts (op_stamp op)) \<le> unat (lamport_ts (node n j))"

definition net_inv :: "(nat \<Rightarrow> string) \<Rightarrow> net \<Rightarrow> bool" where
  "net_inv ids n \<longleftrightarrow>
     (\<forall>i. peer_id (node n i) = ids i) \<and>
     (\<forall>i. knows (seen n i) (node n i)) \<and>
     (\<forall>i. seen n i \<subseteq> issued n) \<and>
     (\<forall>op\<in>issued n. unat (st_ts (op_stamp op)) < 2 ^ 64 - 1 \<and> (\<exists>j. stamped_by n op j)) \<and>
     inj_on op_stamp (issued n)"

lemma net_inv_start:
  "net_inv ids \<lparr>node = \<lambda>i. CrdtWhiteboard (ids i), issued = {}, seen = \<lambda>_. {}\<rparr>"
  by (simp add: net_inv_def knows_def reflects_empty ops_of_simps) (simp add: CrdtWhiteboard_def)

lemma stamped_by_update:
  assumes "stamped_by n op j" and "peer_id w = peer_id (node n i)"
    and "unat (lamport_ts (node n i)) \<le> unat (lamport_ts w)"
  shows "stamped_by (net_update n i w ops) op j"
  using assms by (auto simp: stamped_by_def net_update_def)

text \<open>A step that issues nothing new.\<close>

lemma net_inv_receive:
  assumes inv: "net_inv ids n" and ops: "ops \<subseteq> issued n" and k: "knows (seen n i \<union> ops) w"
    and clock: "unat (lamport_ts (node n i)) \<le> unat (lamport_ts w)" and pid: "peer_id w = peer_id (node n i)"
  shows "net_inv ids (net_update n i w ops)"
proof -
  have "issued n \<union> ops = issued n" using ops by blast
  then have iss: "issued (net_update n i w ops) = issued n" by (simp add: net_update_def)
  have "\<exists>j. stamped_by (net_update n i w ops) op j" if "op \<in> issued n" for op
    using inv that stamped_by_update [OF _ pid clock] unfolding net_inv_def by blast
  with inv ops k pid show ?thesis
    unfolding net_inv_def iss by (auto simp: net_update_def)
qed

text \<open>A step that issues one operation, stamped with a clock that has just advanced.\<close>

lemma net_inv_issue:
  assumes inv: "net_inv ids n" and ids: "inj ids" and k: "knows (insert op (seen n i)) w"
    and stamp: "op_stamp op = Stamp (lamport_ts w) (peer_id w)" and pid: "peer_id w = peer_id (node n i)"
    and clock: "unat (lamport_ts w) = unat (lamport_ts (node n i)) + 1"
    and bound: "unat (lamport_ts w) < 2 ^ 64 - 1"
  shows "net_inv ids (net_update n i w {op})"
proof -
  have "op_stamp op \<notin> op_stamp ` issued n"
  proof
    assume "op_stamp op \<in> op_stamp ` issued n"
    then obtain op' where op': "op' \<in> issued n" "op_stamp op' = op_stamp op" by auto
    then obtain j where j: "stamped_by n op' j" using inv by (auto simp: net_inv_def)
    then have "ids j = ids i"
      using inv op' stamp pid by (auto simp: stamped_by_def net_inv_def)
    then have "j = i" using ids by (simp add: inj_eq)
    with j op' stamp clock show False by (simp add: stamped_by_def)
  qed
  then have inj: "inj_on op_stamp (insert op (issued n))" using inv by (auto simp: net_inv_def)
  have "stamped_by (net_update n i w {op}) op i"
    by (simp add: stamped_by_def stamp net_update_def)
  moreover have "\<exists>j. stamped_by (net_update n i w {op}) op' j" if "op' \<in> issued n" for op'
  proof -
    obtain j where "stamped_by n op' j" using inv \<open>op' \<in> issued n\<close> unfolding net_inv_def by blast
    from stamped_by_update [OF this pid] clock show ?thesis by auto
  qed
  moreover have "issued (net_update n i w {op}) = insert op (issued n)"
    "seen (net_update n i w {op}) j = (if j = i then insert op (seen n i) else seen n j)"
    "node (net_update n i w {op}) j = (if j = i then w else node n j)" for j
    by (simp_all add: net_update_def)
  ultimately show ?thesis
    using inv k inj pid stamp bound unfolding net_inv_def by auto
qed

text \<open>Every entry is as old as the clock at most.\<close>

definition clock_ok :: "whiteboard \<Rightarrow> bool" where
  "clock_ok w \<longleftrightarrow> (\<forall>k e. added w k = Some e \<longrightarrow> unat (ae_ts e) \<le> unat (lamport_ts w)) \<and>
     (\<forall>k r. removed w k = Some r \<longrightarrow> unat (re_ts r) \<le> unat (lamport_ts w))"

lemma clock_ok_put:
  "clock_ok w \<Longrightarrow> unat (ae_ts e) \<le> unat (lamport_ts w) \<Longrightarrow> clock_ok (put_add e w)"
  "clock_ok w \<Longrightarrow> unat (re_ts r) \<le> unat (lamport_ts w) \<Longrightarrow> clock_ok (put_remove k r w)"
  by (auto simp: clock_ok_def put_add_def put_remove_def Let_def split: option.split)

lemma clock_ok_later:
  "clock_ok w \<Longrightarrow> added w' = added w \<Longrightarrow> removed w' = removed w \<Longrightarrow>
   unat (lamport_ts w) \<le> unat (lamport_ts w') \<Longrightarrow> clock_ok w'"
  by (auto simp: clock_ok_def) (meson order_trans)+

lemma update_clock_bounds:
  assumes "unat ts < 2 ^ 64 - 1"
  shows "unat (lamport_ts w) \<le> unat (lamport_ts (update_clock ts w))"
    and "unat ts \<le> unat (lamport_ts (update_clock ts w))"
proof -
  have "unat (ts + 1) = unat ts + 1" using assms by (simp add: unat_word_ariths)
  then show "unat (lamport_ts w) \<le> unat (lamport_ts (update_clock ts w))"
    "unat ts \<le> unat (lamport_ts (update_clock ts w))"
    by (auto simp: update_clock_def word_le_nat_alt)
qed

lemma clock_ok_apply:
  assumes "clock_ok w" and "unat (st_ts (op_stamp op)) < 2 ^ 64 - 1"
  shows "clock_ok (apply_op op w)"
proof -
  have "clock_ok (update_clock ts w)" if "unat ts < 2 ^ 64 - 1" for ts
    by (rule clock_ok_later [OF assms(1)]) (simp_all add: untouched update_clock_bounds(1) [OF that])
  then show ?thesis
    using assms(2) update_clock_bounds(2)
    by (cases op) (auto simp: remote_add_def remote_remove_def intro!: clock_ok_put)
qed

lemma clock_ok_applies:
  "clock_ok w \<Longrightarrow> \<forall>op\<in>set ops. unat (st_ts (op_stamp op)) < 2 ^ 64 - 1 \<Longrightarrow> clock_ok (fold apply_op ops w)"
  by (induction ops arbitrary: w) (simp_all add: clock_ok_apply)

lemma clock_ok_local:
  assumes "clock_ok w" and "unat (lamport_ts w) < 2 ^ 64 - 1"
  shows "clock_ok (local_add s w)" and "clock_ok (local_remove k w)"
proof -
  have "unat (lamport_ts w) \<le> unat (lamport_ts (tick w))"
    using assms(2) by (simp add: tick_def unat_word_ariths)
  then have "clock_ok (tick w)"
    by (intro clock_ok_later [OF assms(1)]) (simp_all add: untouched)
  then show "clock_ok (local_add s w)" and "clock_ok (local_remove k w)"
    by (simp_all add: local_add_def local_remove_def Let_def clock_ok_put)
qed

text \<open>The entries of a whiteboard that reflects operations of the network are such operations.\<close>

lemma entries_seen:
  assumes "knows S w" and it: "iterates as (added w)" "iterates rs (removed w)"
  shows "set (map (\<lambda>(_, e). OpAdd e) as @ map (\<lambda>(k, r). OpRemove k r) rs) \<subseteq> S"
proof -
  have A: "adds.holds (adds_of S) w" and R: "rems.holds (rems_of S) w"
    using assms(1) by (auto simp: knows_def reflects_def)
  have "OpAdd e \<in> S" if "(k, e) \<in> set as" for k e
    using adds.holds_get_Some [OF A, of k e] that iterates_iff [OF it(1)] by (auto simp: adds_of_def)
  moreover have "OpRemove k r \<in> S" if "(k, r) \<in> set rs" for k r
    using rems.holds_get_Some [OF R, of k "(k, r)"] that iterates_iff [OF it(2)]
    by (auto simp: rems_of_def get_removed_def)
  ultimately show ?thesis by auto
qed

lemma knows_merge:
  "knows S w \<Longrightarrow> knows T w' \<Longrightarrow> iterates as (added w') \<Longrightarrow> iterates rs (removed w') \<Longrightarrow>
   knows (S \<union> T) (crdt_merge as rs w)"
  unfolding knows_def ops_of_simps by (rule reflects_merge_state)

lemma net_inv_step:
  assumes "net_step n n'" and "inj ids" and "net_inv ids n" and "\<forall>i. clock_ok (node n i)"
  shows "net_inv ids n' \<and> (\<forall>i. clock_ok (node n' i))"
  using assms
proof (induction rule: net_step.induct)
  case (act_add n i w s)
  have k: "knows (seen n i) (node n i)" using act_add.prems by (simp add: net_inv_def)
  have "net_inv ids (net_update n i w {OpAdd (AddEntry s (lamport_ts w) (peer_id w))})"
    using act_add by (intro net_inv_issue knows_local(1) [OF k]) (simp_all add: local_clock local_peer)
  moreover have "clock_ok w" using act_add by (simp add: clock_ok_local)
  ultimately show ?case using act_add.prems(3) by (simp add: net_update_def)
next
  case (act_remove n i w k)
  have kn: "knows (seen n i) (node n i)" using act_remove.prems by (simp add: net_inv_def)
  have "net_inv ids (net_update n i w {OpRemove k (RemoveEntry (lamport_ts w) (peer_id w))})"
    using act_remove by (intro net_inv_issue knows_local(2) [OF kn]) (simp_all add: local_clock local_peer)
  moreover have "clock_ok w" using act_remove by (simp add: clock_ok_local)
  ultimately show ?case using act_remove.prems(3) by (simp add: net_update_def)
next
  case (deliver op n i)
  have k: "knows (seen n i) (node n i)" and ts: "unat (st_ts (op_stamp op)) < 2 ^ 64 - 1"
    using deliver by (auto simp: net_inv_def)
  have "net_inv ids (net_update n i (apply_op op (node n i)) {op})"
    using deliver apply_op_clock [OF ts] knows_apply [OF k] by (intro net_inv_receive) simp_all
  moreover have "clock_ok (apply_op op (node n i))" using deliver.prems(3) ts by (simp add: clock_ok_apply)
  ultimately show ?case using deliver.prems(3) by (simp add: net_update_def)
next
  case (merge_from as n j rs i)
  let ?ops = "map (\<lambda>(_, e). OpAdd e) as @ map (\<lambda>(k, r). OpRemove k r) rs"
  have k: "knows (seen n i) (node n i)" "knows (seen n j) (node n j)"
    and sub: "seen n j \<subseteq> issued n"
    and ts: "\<forall>op\<in>issued n. unat (st_ts (op_stamp op)) < 2 ^ 64 - 1"
    using merge_from by (auto simp: net_inv_def)
  have ops: "\<forall>op\<in>set ?ops. unat (st_ts (op_stamp op)) < 2 ^ 64 - 1"
    using entries_seen [OF k(2) merge_from.hyps] sub ts by blast
  have "net_inv ids (net_update n i (crdt_merge as rs (node n i)) (seen n j))"
    using merge_from sub apply_ops_clock [OF ops] knows_merge [OF k merge_from.hyps]
    by (intro net_inv_receive) (simp_all only: merge_applies)
  moreover have "clock_ok (crdt_merge as rs (node n i))"
    unfolding merge_applies using merge_from.prems(3) ops by (intro clock_ok_applies) auto
  ultimately show ?case using merge_from.prems(3) by (simp add: net_update_def)
qed

lemma net_reachable_inv:
  assumes "net_reachable ids n" and "inj ids"
  shows "net_inv ids n \<and> (\<forall>i. clock_ok (node n i))"
  using assms(1)
proof (induction rule: net_reachable.induct)
  case start
  show ?case by (simp add: net_inv_start) (simp add: clock_ok_def CrdtWhiteboard_def)
next
  case (step n n')
  then show ?case using net_inv_step [OF step.hyps(2) assms(2)] by blast
qed

lemma is_visible_cong:
  assumes "added w = added w'" and "removed w = removed w'"
  shows "is_visible w = is_visible w'"
  unfolding is_visible_def [abs_def] assms ..

section \<open>Properties\<close>

text \<open>C15. Two whiteboards that received the same operations, in whatever order and however often, hold the same
  strokes and the same removals and show the same strokes, unless two different operations of one kind
  on one stroke carry the same stamp.\<close>

theorem crdt_converges:
  fixes p p' :: string
  assumes "set ops = set ops'" and "unambiguous_ops (set ops)"
  defines "w \<equiv> fold apply_op ops (CrdtWhiteboard p)" and "w' \<equiv> fold apply_op ops' (CrdtWhiteboard p')"
  shows "added w = added w' \<and> removed w = removed w' \<and> is_visible w = is_visible w'"
proof -
  have fresh: "knows {} (CrdtWhiteboard q)" for q
    by (simp add: knows_def ops_of_simps reflects_empty)
  have "knows (set ops) w" "knows (set ops) w'"
    using knows_applies [OF fresh, of ops p] knows_applies [OF fresh, of ops' p'] assms(1)
    by (simp_all add: w_def w'_def)
  then have "added w = added w' \<and> removed w = removed w'"
    using knows_unique assms(2) by blast
  then show ?thesis using is_visible_cong by blast
qed

theorem crdt_converges_witness:
  "let s = \<lparr>uuid = ''u'', points = [], color = 0, width = 0\<rparr>;
       a = OpAdd (AddEntry s 1 ''p''); b = OpAdd (AddEntry (s\<lparr>color := 7\<rparr>) 1 ''q'');
       r = OpRemove ''u'' (RemoveEntry 1 ''p'')
   in added (fold apply_op [a, b, r] (CrdtWhiteboard ''x'')) =
      added (fold apply_op [r, b, b, a] (CrdtWhiteboard ''y''))"
proof -
  let ?s = "\<lparr>uuid = ''u'', points = [], color = 0, width = 0\<rparr>"
  let ?a = "OpAdd (AddEntry ?s 1 ''p'')" and ?b = "OpAdd (AddEntry (?s\<lparr>color := 7\<rparr>) 1 ''q'')"
    and ?r = "OpRemove ''u'' (RemoveEntry 1 ''p'')"
  have "unambiguous_ops (set [?a, ?b, ?r])"
    by (simp add: unambiguous_ops_def adds.unambiguous_def rems.unambiguous_def adds_of_def rems_of_def
        add_stamp_def rem_stamp_def)
  moreover have "set [?a, ?b, ?r] = set [?r, ?b, ?b, ?a]" by auto
  ultimately show ?thesis
    using crdt_converges [of "[?a, ?b, ?r]" "[?r, ?b, ?b, ?a]" "''x''" "''y''"] unfolding Let_def by blast
qed

text \<open>Which strokes are visible is decided by the operations received, not by their order: a stroke is
  visible exactly if some add of it has a stamp greater than that of every remove of it, by timestamp
  first and by peer identifier at equal timestamps.\<close>

theorem crdt_visible:
  "is_visible (fold apply_op ops (CrdtWhiteboard p)) k \<longleftrightarrow>
     (\<exists>e. OpAdd e \<in> set ops \<and> uuid (ae_stroke e) = k \<and>
        (\<forall>r. OpRemove k r \<in> set ops \<longrightarrow>
           lww_wins (ae_ts e) (ae_pid e) (re_ts r) (re_pid r)))"
proof -
  have fresh: "knows {} (CrdtWhiteboard p)"
    by (simp add: knows_def ops_of_simps reflects_empty)
  show ?thesis
    using knows_visible [OF knows_applies [OF fresh, of ops], of k] by (simp add: lww_wins_stamp)
qed

theorem crdt_visible_witness:
  "\<not> is_visible (fold apply_op
      [OpRemove ''u'' (RemoveEntry 2 ''q''),
       OpAdd (AddEntry \<lparr>uuid = ''u'', points = [], color = 0, width = 0\<rparr> 2 ''p'')] (CrdtWhiteboard ''x'')) ''u''"
  unfolding crdt_visible by (simp add: lww_wins_def)

text \<open>Merging is a join: for whiteboards that have received operations without ambiguous stamps, \<open>merge\<close>
  with the other's state, whatever the order in which its maps are iterated, gives the strokes and
  removals of a whiteboard that received both lists of operations; so it does not matter who merges
  with whom, and merging a second time changes nothing.\<close>

theorem crdt_merge_join:
  fixes p p' :: string
  assumes "unambiguous_ops (set ops \<union> set ops')"
  defines "w \<equiv> fold apply_op ops (CrdtWhiteboard p)" and "w' \<equiv> fold apply_op ops' (CrdtWhiteboard p')"
  assumes "iterates as (added w')" "iterates rs (removed w')"
    and "iterates as' (added w)" "iterates rs' (removed w)"
  defines "m \<equiv> crdt_merge as rs w" and "m' \<equiv> crdt_merge as' rs' w'"
    and "both \<equiv> fold apply_op (ops @ ops') (CrdtWhiteboard p)"
  shows "added m = added both \<and> removed m = removed both \<and> added m' = added m \<and> removed m' = removed m \<and>
    added (crdt_merge as rs m) = added m \<and> removed (crdt_merge as rs m) = removed m"
proof -
  have fresh: "knows {} (CrdtWhiteboard q)" for q
    by (simp add: knows_def ops_of_simps reflects_empty)
  have w: "knows (set ops) w" and w': "knows (set ops') w'"
    using knows_applies [OF fresh] by (simp_all add: w_def w'_def)
  have k: "knows (set ops \<union> set ops') m" "knows (set ops \<union> set ops') m'" "knows (set ops \<union> set ops') both"
    using knows_merge [OF w w' assms(4,5)] knows_merge [OF w' w assms(6,7)]
      knows_applies [OF fresh, of "ops @ ops'" p]
    by (simp_all add: m_def m'_def both_def Un_commute)
  have "knows (set ops \<union> set ops') (crdt_merge as rs m)"
    using knows_merge [OF k(1) w' assms(4,5)] by (simp add: Un_assoc)
  with k knows_unique assms(1) show ?thesis by metis
qed

theorem crdt_merge_join_witness:
  "let s = \<lparr>uuid = ''u'', points = [], color = 0, width = 0\<rparr>; e = AddEntry s 1 ''p'';
       r = RemoveEntry 1 ''q''
   in added (crdt_merge [] [(''u'', r)] (fold apply_op [OpAdd e] (CrdtWhiteboard ''p''))) =
      added (crdt_merge [(''u'', e)] [] (fold apply_op [OpRemove ''u'' r] (CrdtWhiteboard ''q'')))"
proof -
  let ?s = "\<lparr>uuid = ''u'', points = [], color = 0, width = 0\<rparr>"
  let ?e = "AddEntry ?s 1 ''p''" and ?r = "RemoveEntry 1 ''q''"
  have u: "unambiguous_ops (set [OpAdd ?e] \<union> set [OpRemove ''u'' ?r])"
    by (simp add: unambiguous_ops_def adds.unambiguous_def rems.unambiguous_def adds_of_def rems_of_def)
  have it: "iterates [] (added (fold apply_op [OpRemove ''u'' ?r] (CrdtWhiteboard ''q'')))"
    "iterates [(''u'', ?r)] (removed (fold apply_op [OpRemove ''u'' ?r] (CrdtWhiteboard ''q'')))"
    "iterates [(''u'', ?e)] (added (fold apply_op [OpAdd ?e] (CrdtWhiteboard ''p'')))"
    "iterates [] (removed (fold apply_op [OpAdd ?e] (CrdtWhiteboard ''p'')))"
    by (simp_all add: iterates_def remote_add_def remote_remove_def put_add_def put_remove_def
        update_clock_def CrdtWhiteboard_def)
  show ?thesis
    using crdt_merge_join [OF u it] unfolding Let_def by simp
qed

text \<open>C14. Whiteboards with different peer identifiers that act, exchange operations and merge in any way whatever
  agree once they have seen the same operations: no stamp is used twice, and the strokes, the removals
  and what is visible are the same.  The clocks are assumed not to reach the end of 64 bits.\<close>

theorem crdt_network_converges:
  assumes "net_reachable ids n" and "inj ids" and "seen n i = seen n j"
  shows "inj_on op_stamp (issued n) \<and> added (node n i) = added (node n j) \<and>
    removed (node n i) = removed (node n j) \<and> is_visible (node n i) = is_visible (node n j)"
proof -
  have inv: "net_inv ids n" using net_reachable_inv [OF assms(1,2)] by blast
  have inj: "inj_on op_stamp (seen n i)" using inv inj_on_subset unfolding net_inv_def by blast
  have eqI: "op = op'" if "op \<in> seen n i" "op' \<in> seen n i" "op_stamp op = op_stamp op'" for op op'
    using inj that by (auto dest: inj_onD)
  have "unambiguous_ops (seen n i)"
    unfolding unambiguous_ops_def adds.unambiguous_def rems.unambiguous_def
    using eqI [of "OpAdd x" "OpAdd y" for x y] eqI [of "OpRemove k x" "OpRemove k y" for k x y]
    by (fastforce simp: adds_of_def rems_of_def add_stamp_def rem_stamp_def)
  moreover have "knows (seen n i) (node n i)" "knows (seen n i) (node n j)"
    using inv unfolding net_inv_def by (blast, metis assms(3))
  ultimately have "added (node n i) = added (node n j) \<and> removed (node n i) = removed (node n j)"
    using knows_unique by blast
  moreover have "inj_on op_stamp (issued n)" using inv by (simp add: net_inv_def)
  ultimately show ?thesis using is_visible_cong by blast
qed

theorem crdt_network_converges_witness:
  "let ids = \<lambda>i. replicate i CHR ''a''; s = \<lparr>uuid = ''u'', points = [], color = 0, width = 0\<rparr>;
       w = local_add s (CrdtWhiteboard (ids 0));
       w' = apply_op (OpAdd (AddEntry s (lamport_ts w) (peer_id w))) (CrdtWhiteboard (ids 1))
   in added w = added w' \<and> is_visible w = is_visible w'"
proof -
  define ids where "ids = (\<lambda>i. replicate i CHR ''a'')"
  define s :: stroke where "s = \<lparr>uuid = ''u'', points = [], color = 0, width = 0\<rparr>"
  define n0 :: net where "n0 = \<lparr>node = \<lambda>i. CrdtWhiteboard (ids i), issued = {}, seen = \<lambda>_. {}\<rparr>"
  define w where "w = local_add s (node n0 0)"
  define op where "op = OpAdd (AddEntry s (lamport_ts w) (peer_id w))"
  define n1 where "n1 = net_update n0 0 w {op}"
  define n2 where "n2 = net_update n1 1 (apply_op op (node n1 1)) {op}"
  have "unat (lamport_ts (node n0 0)) < 2 ^ 64 - 2" by (simp add: n0_def CrdtWhiteboard_def)
  then have "net_step n0 n1" unfolding n1_def op_def by (rule act_add) (simp add: w_def)
  moreover have "net_step n1 n2" unfolding n2_def by (rule deliver) (simp add: n1_def net_update_def)
  moreover have "net_reachable ids n0" unfolding n0_def by (rule net_reachable.start)
  ultimately have "net_reachable ids n2" by (blast intro: net_reachable.step)
  moreover have "inj ids" by (auto simp: ids_def inj_def dest: arg_cong [of _ _ length])
  moreover have "seen n2 0 = seen n2 1" by (simp add: n2_def n1_def n0_def net_update_def)
  ultimately have "added (node n2 0) = added (node n2 1) \<and> is_visible (node n2 0) = is_visible (node n2 1)"
    using crdt_network_converges by blast
  moreover have "node n2 0 = w" "node n2 1 = apply_op op (CrdtWhiteboard (ids 1))" "node n0 0 = CrdtWhiteboard (ids 0)"
    by (simp_all add: n2_def n1_def n0_def net_update_def)
  ultimately show ?thesis unfolding Let_def by (simp add: op_def w_def ids_def s_def)
qed

text \<open>A local action takes effect at once in every such network: a stroke that is added locally is stored and
  visible, one that is removed locally is not visible, whatever was received before.\<close>

theorem crdt_local_wins:
  assumes "net_reachable ids n" and "inj ids" and "unat (lamport_ts (node n i)) < 2 ^ 64 - 1"
  shows "is_visible (local_add s (node n i)) (uuid s) \<and>
    map_option ae_stroke (added (local_add s (node n i)) (uuid s)) = Some s \<and>
    \<not> is_visible (local_remove k (node n i)) k"
proof -
  have ok: "clock_ok (node n i)" using net_reachable_inv [OF assms(1,2)] by blast
  have "unat (lamport_ts (node n i) + 1) = unat (lamport_ts (node n i)) + 1"
    using assms(3) by (simp add: unat_word_ariths)
  then have win: "unat t \<le> unat (lamport_ts (node n i)) \<Longrightarrow> lww_wins (lamport_ts (node n i) + 1) p t q" for t p q
    by (auto simp: lww_wins_def word_less_nat_alt)
  have not: "\<not> lww_wins t q t' q'" if "lww_wins t' q' t q" for t q t' q'
    using that by (auto simp: lww_wins_stamp)
  have "added (node n i) k = Some e \<Longrightarrow> lww_wins (lamport_ts (node n i) + 1) p (ae_ts e) q"
    "removed (node n i) k = Some r \<Longrightarrow> lww_wins (lamport_ts (node n i) + 1) p (re_ts r) q" for k e r p q
    using ok win unfolding clock_ok_def by blast+
  note wins = this
  show ?thesis
    using wins not
    by (auto simp: is_visible_def local_add_def local_remove_def put_add_def put_remove_def tick_def Let_def
        split: option.split)
qed

theorem crdt_local_wins_witness:
  "is_visible (local_add \<lparr>uuid = ''u'', points = [], color = 0, width = 0\<rparr> (CrdtWhiteboard [])) ''u''"
proof -
  let ?n = "\<lparr>node = \<lambda>i. CrdtWhiteboard (replicate i CHR ''a''), issued = {}, seen = \<lambda>_. {}\<rparr>"
  have "net_reachable (\<lambda>i. replicate i CHR ''a'') ?n" by (rule net_reachable.start)
  moreover have "inj (\<lambda>i. replicate i CHR ''a'')" by (auto simp: inj_def dest: arg_cong [of _ _ length])
  moreover have "unat (lamport_ts (node ?n 0)) < 2 ^ 64 - 1" by (simp add: CrdtWhiteboard_def)
  ultimately have "is_visible (local_add \<lparr>uuid = ''u'', points = [], color = 0, width = 0\<rparr> (node ?n 0)) ''u''"
    using crdt_local_wins [where s = "\<lparr>uuid = ''u'', points = [], color = 0, width = 0\<rparr>"] by fastforce
  then show ?thesis by simp
qed

text \<open>The clock is not safe against what a peer sends: after an operation stamped \<open>2^64 - 1\<close> the clock is zero,
  and then a local add of that stroke, though it counts as done, is dropped.\<close>

theorem crdt_clock_wraps:
  "lamport_ts (remote_add s (- 1) q (CrdtWhiteboard p)) = 0 \<and>
   added (local_add (s'\<lparr>uuid := uuid s\<rparr>) (remote_add s (- 1) q (CrdtWhiteboard p))) (uuid s) =
     Some (AddEntry s (- 1) q)"
  by (auto simp: remote_add_def local_add_def put_add_def update_clock_def tick_def CrdtWhiteboard_def
      lww_wins_def Let_def)

end
