(* ===== verification/Stun.thy ===== *)
theory Stun
  imports WireStream
begin

text \<open>
  \<open>StunMessage\<close> of \<open>module03_stun_ice\<close> (\<open>stun_message.h\<close>, \<open>stun_message.cpp\<close>): a message type, a
  transaction id of twelve bytes and a list of attributes with raw values, with its wire form, the
  MESSAGE-INTEGRITY and the FINGERPRINT.  An enumeration class over \<open>uint16_t\<close> holds any 16-bit value
  here as in the code, which casts what it parses.  A \<open>std::string\<close> is its bytes.  The HMAC of OpenSSL
  and the random bytes of a fresh transaction id are arguments; \<open>htonl\<close> and \<open>ntohl\<close> are those of a
  little-endian host.
\<close>

section \<open>Constants\<close>

definition BindingRequest :: u16 where "BindingRequest = 0x0001"
definition BindingResponse :: u16 where "BindingResponse = 0x0101"
definition Username :: u16 where "Username = 0x0006"
definition MessageIntegrity :: u16 where "MessageIntegrity = 0x0008"
definition XorMappedAddress :: u16 where "XorMappedAddress = 0x0020"
definition Priority :: u16 where "Priority = 0x0024"
definition IceControlled :: u16 where "IceControlled = 0x8029"
definition IceControlling :: u16 where "IceControlling = 0x802A"
definition Fingerprint :: u16 where "Fingerprint = 0x8028"

definition STUN_MAGIC_COOKIE :: u32 where
  "STUN_MAGIC_COOKIE = 0x2112A442"

lemmas stun_types = BindingRequest_def BindingResponse_def
lemmas stun_attr_types = Username_def MessageIntegrity_def XorMappedAddress_def Priority_def
  IceControlled_def IceControlling_def Fingerprint_def

section \<open>CRC-32\<close>

definition crc_step :: "u32 \<Rightarrow> u32" where
  "crc_step c = (if c AND 1 \<noteq> 0 then 0xEDB88320 XOR drop_bit 1 c else drop_bit 1 c)"

definition make_crc32_table_entry :: "u8 \<Rightarrow> u32" where
  "make_crc32_table_entry i = (crc_step ^^ 8) (ucast i)"

definition crc32 :: "bytes \<Rightarrow> u32" where
  "crc32 d =
     fold (\<lambda>b crc. drop_bit 8 crc XOR make_crc32_table_entry (ucast ((crc XOR ucast b) AND 0xFF)))
       d 0xFFFFFFFF XOR 0xFFFFFFFF"

section \<open>Messages\<close>

record stun_message =
  msg_type :: u16
  transaction_id :: bytes
  attrs :: "(u16 \<times> bytes) list"

definition StunMessage_default :: stun_message where
  "StunMessage_default = \<lparr>msg_type = BindingRequest, transaction_id = replicate 12 0, attrs = []\<rparr>"

text \<open>The constructor takes the twelve random bytes.\<close>

definition StunMessage :: "u16 \<Rightarrow> bytes \<Rightarrow> stun_message" where
  "StunMessage t rnd = \<lparr>msg_type = t, transaction_id = rnd, attrs = []\<rparr>"

definition set_transaction_id :: "bytes \<Rightarrow> stun_message \<Rightarrow> stun_message" where
  "set_transaction_id tid m = m\<lparr>transaction_id := tid\<rparr>"

definition add_string_attr :: "u16 \<Rightarrow> bytes \<Rightarrow> stun_message \<Rightarrow> stun_message" where
  "add_string_attr a value m = m\<lparr>attrs := attrs m @ [(a, value)]\<rparr>"

definition add_uint32_attr :: "u16 \<Rightarrow> u32 \<Rightarrow> stun_message \<Rightarrow> stun_message" where
  "add_uint32_attr a value m =
     m\<lparr>attrs := attrs m @ [(a, [byte_at 3 value, byte_at 2 value, byte_at 1 value, byte_at 0 value])]\<rparr>"

definition ntohl :: "u32 \<Rightarrow> u32" where
  "ntohl w = read_u32 [byte_at 0 w, byte_at 1 w, byte_at 2 w, byte_at 3 w] 0"

definition htonl :: "u32 \<Rightarrow> u32" where
  "htonl w = read_u32 [byte_at 0 w, byte_at 1 w, byte_at 2 w, byte_at 3 w] 0"

definition add_xor_mapped_address :: "u32 \<Rightarrow> u16 \<Rightarrow> stun_message \<Rightarrow> stun_message" where
  "add_xor_mapped_address ip port m =
     (let xport = port XOR ucast (drop_bit 16 STUN_MAGIC_COOKIE);
          xip = ntohl ip XOR STUN_MAGIC_COOKIE
      in m\<lparr>attrs := attrs m @
           [(XorMappedAddress,
             [0x00, 0x01, byte_at 1 xport, byte_at 0 xport,
              byte_at 3 xip, byte_at 2 xip, byte_at 1 xip, byte_at 0 xip])]\<rparr>)"

definition pad_len :: "nat \<Rightarrow> nat" where
  "pad_len n = (4 - n mod 4) mod 4"

definition write_attr :: "u16 \<times> bytes \<Rightarrow> bytes" where
  "write_attr a =
     write_u16 (fst a) @ write_u16 (of_nat (length (snd a))) @ snd a @ replicate (pad_len (length (snd a))) 0"

definition serialize_attrs :: "(u16 \<times> bytes) list \<Rightarrow> bytes" where
  "serialize_attrs as = concat (map write_attr as)"

text \<open>The twenty header bytes with a given length field.\<close>

definition stun_header :: "stun_message \<Rightarrow> nat \<Rightarrow> bytes" where
  "stun_header m len =
     write_u16 (msg_type m) @ write_u16 (of_nat len) @ write_u32 STUN_MAGIC_COOKIE @ transaction_id m"

definition stun_serialize :: "stun_message \<Rightarrow> bytes" where
  "stun_serialize m =
     (let attr_bytes = serialize_attrs (attrs m) in stun_header m (length attr_bytes) @ attr_bytes)"

definition add_message_integrity :: "(bytes \<Rightarrow> bytes \<Rightarrow> bytes) \<Rightarrow> bytes \<Rightarrow> stun_message \<Rightarrow> stun_message" where
  "add_message_integrity hmac_sha1 password m =
     (let attr_bytes = serialize_attrs (attrs m);
          hmac_input = stun_header m (length attr_bytes + 24) @ attr_bytes;
          digest = hmac_sha1 password hmac_input
      in m\<lparr>attrs := attrs m @ [(MessageIntegrity, digest)]\<rparr>)"

definition add_fingerprint :: "stun_message \<Rightarrow> stun_message" where
  "add_fingerprint m =
     (let attr_bytes = serialize_attrs (attrs m);
          fp_input = stun_header m (length attr_bytes + 8) @ attr_bytes;
          fp = crc32 fp_input XOR 0x5354554e
      in m\<lparr>attrs := attrs m @ [(Fingerprint, [byte_at 3 fp, byte_at 2 fp, byte_at 1 fp, byte_at 0 fp])]\<rparr>)"

section \<open>Parsing\<close>

text \<open>The result of the loop: whether it ended without a short attribute, and the attributes so far.\<close>

function stun_attr_loop ::
    "bytes \<Rightarrow> nat \<Rightarrow> nat \<Rightarrow> (u16 \<times> bytes) list \<Rightarrow> bool \<times> (u16 \<times> bytes) list" where
  "stun_attr_loop d offset e acc =
     (if offset + 4 \<le> e
      then let attr_type = read_u16 d offset; attr_len = unat (read_u16 d (offset + 2)); offset' = offset + 4 in
        if offset' + attr_len > e then (False, acc)
        else stun_attr_loop d (offset' + attr_len + pad_len attr_len) e
               (acc @ [(attr_type, take attr_len (drop offset' d))])
      else (True, acc))"
  by pat_completeness auto
termination
  by (relation "measure (\<lambda>(d, offset, e, acc). e - offset)") (auto simp: Let_def)

declare stun_attr_loop.simps [simp del]

definition stun_parse :: "stun_message \<Rightarrow> bytes \<Rightarrow> bool \<times> stun_message" where
  "stun_parse m d =
     (if length d < 20 then (False, m)
      else if read_u32 d 4 \<noteq> STUN_MAGIC_COOKIE then (False, m)
      else if d ! 0 AND 0xC0 \<noteq> 0 then (False, m)
      else let m1 = m\<lparr>msg_type := read_u16 d 0, transaction_id := take 12 (drop 8 d), attrs := []\<rparr>;
               msg_len = unat (read_u16 d 2)
      in if length d < 20 + msg_len then (False, m1)
         else let (ok, as) = stun_attr_loop d 20 (20 + msg_len) [] in (ok, m1\<lparr>attrs := as\<rparr>))"

definition get_string_attr :: "u16 \<Rightarrow> stun_message \<Rightarrow> bytes option" where
  "get_string_attr a m = map_option snd (List.find (\<lambda>(t, _). t = a) (attrs m))"

definition get_uint32_attr :: "u16 \<Rightarrow> stun_message \<Rightarrow> u32 option" where
  "get_uint32_attr a m =
     map_option (\<lambda>(_, v). read_u32 v 0) (List.find (\<lambda>(t, v). t = a \<and> length v \<ge> 4) (attrs m))"

definition get_xor_mapped_address :: "stun_message \<Rightarrow> (u32 \<times> u16) option" where
  "get_xor_mapped_address m =
     map_option (\<lambda>(_, v). (htonl (read_u32 v 4 XOR STUN_MAGIC_COOKIE),
                           read_u16 v 2 XOR ucast (drop_bit 16 STUN_MAGIC_COOKIE)))
       (List.find (\<lambda>(t, v). t = XorMappedAddress \<and> length v \<ge> 8) (attrs m))"

definition is_stun :: "bytes \<Rightarrow> bool" where
  "is_stun d \<longleftrightarrow>
     \<not> length d < 20 \<and> \<not> d ! 0 AND 0xC0 \<noteq> 0 \<and> read_u32 d 4 = STUN_MAGIC_COOKIE"

section \<open>The attributes as a stream of records\<close>

definition attr_ok :: "u16 \<times> bytes \<Rightarrow> bool" where
  "attr_ok a \<longleftrightarrow> length (snd a) < 2 ^ 16"

lemma attr_loop_record:
  assumes "attr_ok a" and "length pre + length (write_attr a) \<le> e"
  shows "stun_attr_loop (pre @ write_attr a @ post) (length pre) e acc =
    stun_attr_loop (pre @ write_attr a @ post) (length pre + length (write_attr a)) e (acc @ [a])"
proof -
  obtain t v where a: "a = (t, v)" by (cases a)
  let ?n = "length v" and ?d = "pre @ write_attr a @ post"
  have n: "unat (of_nat ?n :: u16) = ?n" using assms(1) a by (simp add: attr_ok_def unat_of_nat)
  have d: "?d = pre @ write_u16 t @ (write_u16 (of_nat ?n) @ v @ replicate (pad_len ?n) 0 @ post)"
    "?d = (pre @ write_u16 t) @ write_u16 (of_nat ?n) @ (v @ replicate (pad_len ?n) 0 @ post)"
    by (simp_all add: write_attr_def a)
  have "read_u16 ?d (length pre) = t" unfolding d(1) by (rule read_u16_write) simp
  moreover have "read_u16 ?d (length pre + 2) = of_nat ?n" unfolding d(2) by (rule read_u16_write) simp
  moreover have "take ?n (drop (length pre + 4) ?d) = v"
    by (simp add: write_attr_def a write_u16_def)
  moreover have "length (write_attr a) = 4 + ?n + pad_len ?n" by (simp add: write_attr_def a)
  ultimately show ?thesis
    using assms(2) by (subst stun_attr_loop.simps) (simp add: Let_def n a add.assoc)
qed

interpretation stun: record_stream write_attr attr_ok "\<lambda>a. [a]" stun_attr_loop
proof unfold_locales
  show "\<not> off + 4 \<le> e \<Longrightarrow> stun_attr_loop d off e acc = (True, acc)" for off e d acc
    by (subst stun_attr_loop.simps) simp
qed (rule attr_loop_record)

lemma attrs_roundtrip:
  assumes "list_all attr_ok as"
  shows "stun_attr_loop (pre @ serialize_attrs as @ post) (length pre) (length pre + length (serialize_attrs as)) [] =
    (True, as)"
  using stun.loop_stream [OF assms, of pre post "[]"] by (simp add: serialize_attrs_def)

lemma length_stun_header [simp]:
  "length (transaction_id m) = 12 \<Longrightarrow> length (stun_header m n) = 20"
  by (simp add: stun_header_def)

text \<open>What the fields of a header read as.\<close>

lemma header_reads:
  fixes n :: nat and rest :: bytes
  assumes "length (transaction_id m) = 12"
  defines "d \<equiv> stun_header m n @ rest"
  shows "read_u16 d 0 = msg_type m" and "read_u16 d 2 = of_nat n" and "read_u32 d 4 = STUN_MAGIC_COOKIE"
    and "take 12 (drop 8 d) = transaction_id m" and "d ! 0 = byte_at 1 (msg_type m)"
proof -
  have "d = [] @ write_u16 (msg_type m) @ (write_u16 (of_nat n) @ write_u32 STUN_MAGIC_COOKIE @
      transaction_id m @ rest)" by (simp add: d_def stun_header_def)
  then show "read_u16 d 0 = msg_type m" by (metis read_u16_write list.size(3))
  have "d = write_u16 (msg_type m) @ write_u16 (of_nat n) @ (write_u32 STUN_MAGIC_COOKIE @
      transaction_id m @ rest)" by (simp add: d_def stun_header_def)
  then show "read_u16 d 2 = of_nat n" by (metis read_u16_write length_write_u16)
  have d: "d = (write_u16 (msg_type m) @ write_u16 (of_nat n)) @ write_u32 STUN_MAGIC_COOKIE @
      (transaction_id m @ rest)" by (simp add: d_def stun_header_def)
  show "read_u32 d 4 = STUN_MAGIC_COOKIE" unfolding d by (rule read_u32_write) simp
  show "take 12 (drop 8 d) = transaction_id m"
    using assms(1) by (simp add: d_def stun_header_def write_u16_def write_u32_def)
  show "d ! 0 = byte_at 1 (msg_type m)" by (simp add: d_def stun_header_def write_u16_def)
qed

section \<open>Well-formed messages\<close>

definition stun_ok :: "stun_message \<Rightarrow> bool" where
  "stun_ok m \<longleftrightarrow> length (transaction_id m) = 12 \<and> unat (msg_type m) < 2 ^ 14 \<and>
     list_all attr_ok (attrs m) \<and> length (serialize_attrs (attrs m)) < 2 ^ 16"

lemma type_bits_clear:
  assumes "unat (t :: u16) < 2 ^ 14"
  shows "byte_at 1 t AND 0xC0 = 0"
proof -
  have "t = take_bit 14 t"
    using assms by (simp add: word_unat_eq_iff unsigned_take_bit_eq take_bit_nat_eq_self)
  then have "\<not> bit t n" if "n \<ge> 14" for n using that by (metis bit_take_bit_iff not_less)
  then have "\<not> bit (byte_at 1 t) n" if "n \<ge> 6" for n using that by (simp add: bit_byte_at)
  moreover have "bit (0xC0 :: int) n \<Longrightarrow> n \<ge> 6" for n
  proof -
    have "(0xC0 :: int) = push_bit 6 3" by (simp add: push_bit_eq_mult)
    then show "bit (0xC0 :: int) n \<Longrightarrow> n \<ge> 6" by (simp only: bit_push_bit_iff)
  qed
  ultimately show ?thesis by (intro bit_word_eqI) (auto simp: bit_simps)
qed

lemma serialize_append:
  "stun_serialize m = stun_header m (length (serialize_attrs (attrs m))) @ serialize_attrs (attrs m)"
  by (simp add: stun_serialize_def Let_def)

lemma serialize_attrs_snoc: "serialize_attrs (as @ [a]) = serialize_attrs as @ write_attr a"
  by (simp add: serialize_attrs_def)

lemma length_write_attr: "length (write_attr a) = 4 + length (snd a) + pad_len (length (snd a))"
  by (simp add: write_attr_def)

lemma parse_serialize:
  assumes "stun_ok m"
  shows "stun_parse q (stun_serialize m @ trailing) = (True, m)" and "is_stun (stun_serialize m @ trailing)"
proof -
  let ?as = "serialize_attrs (attrs m)"
  have tid: "length (transaction_id m) = 12" using assms by (simp add: stun_ok_def)
  let ?d = "stun_header m (length ?as) @ ?as @ trailing"
  have reads: "read_u32 ?d 4 = STUN_MAGIC_COOKIE" "?d ! 0 AND 0xC0 = 0" "read_u16 ?d 0 = msg_type m"
    "take 12 (drop 8 ?d) = transaction_id m" "unat (read_u16 ?d 2) = length ?as"
    unfolding header_reads [OF tid] using assms
    by (simp_all add: type_bits_clear [unfolded One_nat_def] stun_ok_def unat_of_nat)
  have len: "\<not> length ?d < 20" "\<not> length ?d < 20 + length ?as" by (simp_all add: tid)
  have "stun_attr_loop ?d 20 (20 + length ?as) [] = (True, attrs m)"
    using attrs_roundtrip [of "attrs m" "stun_header m (length ?as)" trailing] assms
    by (simp add: tid stun_ok_def)
  then show "stun_parse q (stun_serialize m @ trailing) = (True, m)"
    using reads len by (simp add: serialize_append stun_parse_def Let_def del: length_append)
  show "is_stun (stun_serialize m @ trailing)"
    using reads len by (simp add: serialize_append is_stun_def del: length_append)
qed

section \<open>The table-driven CRC\<close>

text \<open>The bit-serial CRC-32: one byte is XORed into the register, which is then shifted eight times.\<close>

definition crc32_serial :: "bytes \<Rightarrow> u32" where
  "crc32_serial d = fold (\<lambda>b crc. (crc_step ^^ 8) (crc XOR ucast b)) d 0xFFFFFFFF XOR 0xFFFFFFFF"

lemma crc_step_bit:
  "crc_step c = (if bit c 0 then 0xEDB88320 XOR drop_bit 1 c else drop_bit 1 c)"
  by (simp add: crc_step_def and_one_eq bit_0 mod_2_eq_odd)

lemma crc_step_xor: "crc_step (a XOR b) = crc_step a XOR crc_step b"
  unfolding crc_step_bit bit_xor_iff drop_bit_xor by (simp add: ac_simps)

lemma funpow_8: "(f ^^ 8) x = f (f (f (f (f (f (f (f x)))))))"
  by (simp add: numeral_eq_Suc)

lemma crc_steps_xor: "(crc_step ^^ n) (a XOR b) = (crc_step ^^ n) a XOR (crc_step ^^ n) b"
  by (induction n) (simp_all add: crc_step_xor)

text \<open>Steps on a register whose low bits are clear only shift.\<close>

lemma crc_steps_shift: "(\<And>i. i < n \<Longrightarrow> \<not> bit a i) \<Longrightarrow> (crc_step ^^ n) a = drop_bit n a"
proof (induction n arbitrary: a)
  case (Suc n)
  have "crc_step a = drop_bit 1 a" using Suc.prems [of 0] by (simp only: crc_step_bit) simp
  moreover have "\<not> bit (drop_bit 1 a) i" if "i < n" for i
    using Suc.prems [of "Suc i"] that by (simp add: bit_drop_bit_eq)
  ultimately show ?case
    using Suc.IH [of "drop_bit 1 a"] by (simp add: funpow_Suc_right del: funpow.simps)
qed simp

lemma crc_table_step:
  fixes x :: u32
  shows "drop_bit 8 x XOR make_crc32_table_entry (ucast (x AND 0xFF)) = (crc_step ^^ 8) x"
proof -
  define l :: u32 where "l = ucast (ucast (x AND 0xFF) :: u8)"
  have low: "bit l i \<longleftrightarrow> i < 8 \<and> bit x i" for i
    by (auto simp: l_def bit_simps bit_0xFF_int dest: bit_imp_le_length)
  let ?h = "push_bit 8 (drop_bit 8 x)"
  have x: "x = ?h XOR l"
    by (rule bit_word_eqI) (auto simp: low bit_simps)
  have "(crc_step ^^ 8) x = (crc_step ^^ 8) ?h XOR (crc_step ^^ 8) l"
    by (subst x) (rule crc_steps_xor)
  also have "(crc_step ^^ 8) ?h = drop_bit 8 ?h"
    by (rule crc_steps_shift) (simp add: bit_simps)
  also have "\<dots> = drop_bit 8 x"
    by (rule bit_word_eqI) (auto simp: bit_simps dest: bit_imp_le_length)
  finally show ?thesis by (simp add: make_crc32_table_entry_def l_def)
qed

section \<open>Attributes that a message carries\<close>

lemma stun_header_attrs [simp]: "stun_header (m\<lparr>attrs := as\<rparr>) n = stun_header m n"
  by (simp add: stun_header_def)

lemma pad_len_simps [simp]: "pad_len 4 = 0" "pad_len 8 = 0" "pad_len 20 = 0"
  by (simp_all add: pad_len_def)

lemma serialize_with_attr:
  "stun_serialize (m\<lparr>attrs := attrs m @ [a]\<rparr>) =
     (stun_header m (length (serialize_attrs (attrs m)) + length (write_attr a)) @ serialize_attrs (attrs m)) @
     write_attr a"
  by (simp add: serialize_append serialize_attrs_snoc)

lemma read_bytes_of_u32:
  fixes w :: u32
  shows "read_u32 [byte_at 3 w, byte_at 2 w, byte_at 1 w, byte_at 0 w] 0 = w"
  using read_u32_write [of 0 "[]" w "[]"] by (simp add: write_u32_def)

lemma bytes_of_u32_list: "[byte_at 3 w, byte_at 2 w, byte_at 1 w, byte_at 0 w] = write_u32 (w :: u32)"
  by (simp add: write_u32_def)

text \<open>Swapping the bytes of an address twice gives it back.\<close>

lemma bytes_of_read_u32:
  fixes a b c d :: u8
  defines "w \<equiv> read_u32 [a, b, c, d] 0"
  shows "byte_at 3 w = a" "byte_at 2 w = b" "byte_at 1 w = c" "byte_at 0 w = d"
proof -
  have bits: "bit w n \<longleftrightarrow> n < 32 \<and> (n \<ge> 24 \<and> bit a (n - 24) \<or> n \<ge> 16 \<and> bit b (n - 16) \<or> n \<ge> 8 \<and> bit c (n - 8) \<or> bit d n)" for n
    by (auto simp: w_def read_u32_def bit_or_iff bit_push_bit_iff bit_ucast_iff dest: bit_imp_le_length)
  show "byte_at 3 w = a" "byte_at 2 w = b" "byte_at 1 w = c" "byte_at 0 w = d"
    by (rule bit_word_eqI, auto simp: bit_byte_at bits dest: bit_imp_le_length)+
qed

lemma htonl_ntohl: "htonl (ntohl w) = w"
  unfolding htonl_def ntohl_def bytes_of_read_u32 by (rule read_bytes_of_u32)

lemma find_added:
  "\<forall>x\<in>set xs. \<not> P x \<Longrightarrow> List.find P (xs @ [y]) = (if P y then Some y else None)"
  by (induction xs) auto

lemma xor_mapped_readback:
  assumes "\<forall>x\<in>set (attrs m). fst x \<noteq> XorMappedAddress"
  shows "get_xor_mapped_address (add_xor_mapped_address ip port m) = Some (ip, port)"
proof -
  let ?xport = "port XOR ucast (drop_bit 16 STUN_MAGIC_COOKIE)" and ?xip = "ntohl ip XOR STUN_MAGIC_COOKIE"
  let ?v = "[0x00, 0x01, byte_at 1 ?xport, byte_at 0 ?xport, byte_at 3 ?xip, byte_at 2 ?xip, byte_at 1 ?xip, byte_at 0 ?xip]"
  have "read_u16 ?v 2 = ?xport" "read_u32 ?v 4 = ?xip"
    using read_u16_write [of 2 "[0, 1]" ?xport "drop 4 ?v"] read_u32_write [of 4 "take 4 ?v" ?xip "[]"]
    by (simp_all add: write_u16_def write_u32_def)
  then show ?thesis
    using assms by (subst get_xor_mapped_address_def)
      (simp add: add_xor_mapped_address_def Let_def find_added split_beta htonl_ntohl xor.assoc)
qed

section \<open>Properties\<close>

text \<open>C39. The table-driven CRC-32 of the code is the bit-serial one with the reflected polynomial
  \<open>0xEDB88320\<close>, for every input; the value for the one-byte text ``a'' is the
  published one.\<close>

theorem crc32_table_driven:
  "crc32 d = crc32_serial d \<and> crc32 [0x61] = 0xE8B7BE43"
proof
  have "drop_bit 8 (crc :: u32) = drop_bit 8 (crc XOR ucast (b :: u8))" for crc b
    by (rule bit_word_eqI) (auto simp: bit_simps dest: bit_imp_le_length)
  then have step: "drop_bit 8 crc XOR make_crc32_table_entry (ucast ((crc XOR ucast b) AND 0xFF)) =
      (crc_step ^^ 8) (crc XOR ucast b)" for crc and b :: u8
    using crc_table_step [of "crc XOR ucast b"] by metis
  show "crc32 d = crc32_serial d" unfolding crc32_def crc32_serial_def step ..
  show "crc32 [0x61] = 0xE8B7BE43"
    by (simp add: crc32_def make_crc32_table_entry_def crc_step_def funpow_8)
qed

text \<open>C10. What \<open>serialize\<close> writes for a well-formed message (twelve bytes of transaction id, a type with
  the two top bits clear, attributes whose lengths fit their 16-bit fields) is recognised as STUN and
  parsed back to exactly this message, also with more bytes behind it and whatever the parsing object
  held before.\<close>

theorem stun_roundtrip:
  assumes "stun_ok m"
  shows "is_stun (stun_serialize m @ trailing) \<and> stun_parse q (stun_serialize m @ trailing) = (True, m)"
  using parse_serialize [OF assms] by blast

theorem stun_roundtrip_witness:
  "let m = add_uint32_attr Priority 7 (add_string_attr Username [97, 58, 98] (StunMessage BindingRequest (replicate 12 9)))
   in stun_parse StunMessage_default (stun_serialize m) = (True, m)"
proof -
  let ?m = "add_uint32_attr Priority 7 (add_string_attr Username [97, 58, 98] (StunMessage BindingRequest (replicate 12 9)))"
  have "stun_ok ?m"
    by (simp add: stun_ok_def add_uint32_attr_def add_string_attr_def StunMessage_def stun_types attr_ok_def
        serialize_attrs_def length_write_attr pad_len_def)
  from stun_roundtrip [OF this, of "[]"] show ?thesis by (simp add: Let_def)
qed

text \<open>A message can be checked against its fingerprint: if \<open>add_fingerprint\<close> was the last call, the last
  eight bytes of the serialized message are the FINGERPRINT attribute, and its value is the CRC-32 of
  all the bytes before it, the length field included, XORed with \<open>0x5354554e\<close>.\<close>

theorem stun_fingerprint:
  "let d = stun_serialize (add_fingerprint m); k = length d - 8 in
   8 \<le> length d \<and> read_u16 d k = Fingerprint \<and> read_u16 d (k + 2) = 4 \<and>
   read_u32 d (k + 4) = crc32 (take k d) XOR 0x5354554e"
proof -
  let ?in = "stun_header m (length (serialize_attrs (attrs m)) + 8) @ serialize_attrs (attrs m)"
  let ?fp = "crc32 ?in XOR 0x5354554e"
  have "stun_serialize (add_fingerprint m) = ?in @ write_attr (Fingerprint, write_u32 ?fp)"
    unfolding add_fingerprint_def Let_def bytes_of_u32_list serialize_with_attr
    by (simp add: length_write_attr)
  also have "\<dots> = ?in @ write_u16 Fingerprint @ write_u16 4 @ write_u32 ?fp"
    by (simp add: write_attr_def)
  finally have d: "stun_serialize (add_fingerprint m) = ?in @ write_u16 Fingerprint @ write_u16 4 @ write_u32 ?fp" .
  have "read_u16 (?in @ write_u16 Fingerprint @ (write_u16 4 @ write_u32 ?fp)) (length ?in) = Fingerprint"
    "read_u16 ((?in @ write_u16 Fingerprint) @ write_u16 4 @ write_u32 ?fp) (length ?in + 2) = 4"
    "read_u32 ((?in @ write_u16 Fingerprint @ write_u16 4) @ write_u32 ?fp @ []) (length ?in + 4) = ?fp"
    by (rule read_u16_write read_u32_write, simp)+
  then show ?thesis by (simp add: d Let_def)
qed

text \<open>The same for MESSAGE-INTEGRITY, for every keyed hash with values of twenty bytes: if
  \<open>add_message_integrity\<close> was the last call, the last twenty bytes of the serialized message are the
  hash of all the bytes before the attribute under the password.\<close>

theorem stun_message_integrity:
  assumes "\<And>k x. length (hmac k x) = 20"
  shows "let d = stun_serialize (add_message_integrity hmac pw m); k = length d - 24 in
    24 \<le> length d \<and> read_u16 d k = MessageIntegrity \<and> read_u16 d (k + 2) = 20 \<and>
    drop (k + 4) d = hmac pw (take k d)"
proof -
  let ?in = "stun_header m (length (serialize_attrs (attrs m)) + 24) @ serialize_attrs (attrs m)"
  have "stun_serialize (add_message_integrity hmac pw m) = ?in @ write_attr (MessageIntegrity, hmac pw ?in)"
    unfolding add_message_integrity_def Let_def serialize_with_attr
    by (simp add: length_write_attr assms)
  also have "\<dots> = ?in @ write_u16 MessageIntegrity @ write_u16 20 @ hmac pw ?in"
    by (simp add: write_attr_def assms)
  finally have d: "stun_serialize (add_message_integrity hmac pw m) =
      ?in @ write_u16 MessageIntegrity @ write_u16 20 @ hmac pw ?in" .
  have "read_u16 (?in @ write_u16 MessageIntegrity @ (write_u16 20 @ hmac pw ?in)) (length ?in) = MessageIntegrity"
    "read_u16 ((?in @ write_u16 MessageIntegrity) @ write_u16 20 @ hmac pw ?in) (length ?in + 2) = 20"
    by (rule read_u16_write, simp)+
  then show ?thesis by (simp add: d Let_def assms)
qed

theorem stun_message_integrity_witness:
  "let d = stun_serialize (add_message_integrity (\<lambda>k x. replicate 20 (hd k)) [7] (StunMessage BindingRequest (replicate 12 0)))
   in drop 24 d = replicate 20 7"
  using stun_message_integrity [of "\<lambda>k x. replicate 20 (hd k)" "[7]" "StunMessage BindingRequest (replicate 12 0)"]
  by (simp add: Let_def add_message_integrity_def stun_serialize_def StunMessage_def serialize_attrs_def
      stun_header_def length_write_attr)

text \<open>Attributes read back as they were added, as long as the message had none of that type before (the
  getters return the first): strings, 32-bit values, and an address with its port, which travel XORed
  with the magic cookie and in network byte order.\<close>

theorem stun_attr_readback:
  assumes "\<forall>x\<in>set (attrs m). fst x \<noteq> a" and "\<forall>x\<in>set (attrs m). fst x \<noteq> XorMappedAddress"
  shows "get_string_attr a (add_string_attr a value m) = Some value \<and>
    get_uint32_attr a (add_uint32_attr a n m) = Some n \<and>
    get_xor_mapped_address (add_xor_mapped_address ip port m) = Some (ip, port)"
proof -
  have "get_string_attr a (add_string_attr a value m) = Some value"
    using assms(1) by (subst get_string_attr_def) (simp add: add_string_attr_def find_added split_beta)
  moreover have "get_uint32_attr a (add_uint32_attr a n m) = Some n"
    using assms(1) read_bytes_of_u32 [of n]
    by (subst get_uint32_attr_def) (simp add: add_uint32_attr_def find_added split_beta)
  moreover have "get_xor_mapped_address (add_xor_mapped_address ip port m) = Some (ip, port)"
    using assms(2) by (rule xor_mapped_readback)
  ultimately show ?thesis by blast
qed

theorem stun_attr_readback_witness:
  "get_xor_mapped_address (add_xor_mapped_address 0x0100007F 3478 (StunMessage BindingResponse (replicate 12 0))) =
     Some (0x0100007F, 3478)"
  using stun_attr_readback [of "StunMessage BindingResponse (replicate 12 0)" Username "[]" 0 "0x0100007F" 3478]
  by (simp add: StunMessage_def)

end
