(* ===== verification/IceAgent.thy ===== *)
theory IceAgent
  imports Stun
begin

text \<open>
  \<open>IceAgent\<close> of \<open>module03_stun_ice\<close> (\<open>ice_agent.h\<close>, \<open>ice_agent.cpp\<close>): the connectivity check of an ICE
  agent with host candidates.  What a call passes to the send callback is the list of its sends, each
  with the address it goes to.  The keyed hash of OpenSSL and the random numbers a call draws are
  arguments; \<open>ntohs\<close> is that of a little-endian host.
\<close>

datatype ice_role = Controlling | Controlled

record ice_candidate =
  foundation :: bytes
  cand_priority :: u32
  cand_ip :: u32
  cand_port :: u16
  cand_type :: bytes

record sockaddr =
  s_addr :: u32
  sin_port :: u16

record ice_agent =
  role :: ice_role
  local_ufrag :: bytes
  local_pwd :: bytes
  remote_ufrag :: bytes
  remote_pwd :: bytes
  remote_candidates :: "ice_candidate list"
  connected :: bool

definition IceAgent :: "ice_role \<Rightarrow> bytes \<Rightarrow> bytes \<Rightarrow> ice_agent" where
  "IceAgent r ufrag pwd =
     \<lparr>role = r, local_ufrag = ufrag, local_pwd = pwd, remote_ufrag = [], remote_pwd = [],
      remote_candidates = [], connected = False\<rparr>"

definition set_remote_credentials :: "bytes \<Rightarrow> bytes \<Rightarrow> ice_agent \<Rightarrow> ice_agent" where
  "set_remote_credentials ufrag pwd a = a\<lparr>remote_ufrag := ufrag, remote_pwd := pwd\<rparr>"

definition add_remote_candidate :: "ice_candidate \<Rightarrow> ice_agent \<Rightarrow> ice_agent" where
  "add_remote_candidate c a = a\<lparr>remote_candidates := remote_candidates a @ [c]\<rparr>"

definition ntohs :: "u16 \<Rightarrow> u16" where
  "ntohs w = read_u16 [byte_at 0 w, byte_at 1 w] 0"

definition colon :: u8 where
  "colon = 58"

text \<open>\<open>rnd\<close> is the random transaction id of the response, which the code then overwrites.\<close>

definition binding_response ::
    "(bytes \<Rightarrow> bytes \<Rightarrow> bytes) \<Rightarrow> bytes \<Rightarrow> ice_agent \<Rightarrow> stun_message \<Rightarrow> sockaddr \<Rightarrow> stun_message" where
  "binding_response hmac rnd a req from_addr =
     add_fingerprint
       (add_message_integrity hmac (local_pwd a)
         (add_xor_mapped_address (s_addr from_addr) (ntohs (sin_port from_addr))
           (set_transaction_id (transaction_id req) (StunMessage BindingResponse rnd))))"

definition on_packet ::
    "(bytes \<Rightarrow> bytes \<Rightarrow> bytes) \<Rightarrow> bytes \<Rightarrow> ice_agent \<Rightarrow> bytes \<Rightarrow> sockaddr \<Rightarrow> (bytes \<times> sockaddr) list \<times> ice_agent" where
  "on_packet hmac rnd a d from_addr =
     (if \<not> is_stun d then ([], a)
      else let (ok, req) = stun_parse StunMessage_default d in
      if \<not> ok then ([], a)
      else if msg_type req = BindingRequest then
        (case get_string_attr Username req of
           Some username \<Rightarrow>
             if username \<noteq> local_ufrag a @ [colon] @ remote_ufrag a then ([], a)
             else ([(stun_serialize (binding_response hmac rnd a req from_addr), from_addr)], a\<lparr>connected := True\<rparr>)
         | None \<Rightarrow>
             ([(stun_serialize (binding_response hmac rnd a req from_addr), from_addr)], a\<lparr>connected := True\<rparr>))
      else if msg_type req = BindingResponse then ([], a\<lparr>connected := True\<rparr>)
      else ([], a))"

text \<open>\<open>(110 << 24) | (65535 << 8) | 255\<close>.\<close>

definition check_priority :: u32 where
  "check_priority = push_bit 24 110 OR push_bit 8 65535 OR 255"

text \<open>\<open>r1\<close> and \<open>r2\<close> are the two values of \<open>rand()\<close>, which are not negative.\<close>

definition tiebreaker_bytes :: "u32 \<Rightarrow> u32 \<Rightarrow> bytes" where
  "tiebreaker_bytes r1 r2 =
     (let tiebreaker = push_bit 32 (ucast r1) OR ucast r2 :: u64
      in map (\<lambda>i. byte_at (7 - i) tiebreaker) [0..<8])"

definition binding_request ::
    "(bytes \<Rightarrow> bytes \<Rightarrow> bytes) \<Rightarrow> bytes \<Rightarrow> u32 \<Rightarrow> u32 \<Rightarrow> ice_agent \<Rightarrow> stun_message" where
  "binding_request hmac rnd r1 r2 a =
     (let req1 = add_string_attr Username (remote_ufrag a @ [colon] @ local_ufrag a) (StunMessage BindingRequest rnd);
          req2 = add_uint32_attr Priority check_priority req1;
          req3 = (if role a = Controlling
                  then add_string_attr IceControlling (tiebreaker_bytes r1 r2) req2
                  else add_string_attr IceControlled (tiebreaker_bytes r1 r2) req2)
      in add_fingerprint (add_message_integrity hmac (remote_pwd a) req3))"

definition send_binding_request ::
    "(bytes \<Rightarrow> bytes \<Rightarrow> bytes) \<Rightarrow> bytes \<Rightarrow> u32 \<Rightarrow> u32 \<Rightarrow> ice_agent \<Rightarrow> sockaddr \<Rightarrow> (bytes \<times> sockaddr) list" where
  "send_binding_request hmac rnd r1 r2 a to_addr =
     [(stun_serialize (binding_request hmac rnd r1 r2 a), to_addr)]"

section \<open>The messages are well formed\<close>

lemma attrs_added:
  "attrs (add_string_attr a v m) = attrs m @ [(a, v)]"
  "attrs (set_transaction_id tid m) = attrs m" "attrs (StunMessage t r) = []"
  "\<exists>v. attrs (add_uint32_attr a n m) = attrs m @ [(a, v)] \<and> length v = 4"
  "\<exists>v. attrs (add_xor_mapped_address ip p m) = attrs m @ [(XorMappedAddress, v)] \<and> length v = 8"
  "\<exists>x. attrs (add_message_integrity hmac pw m) = attrs m @ [(MessageIntegrity, hmac pw x)]"
  "\<exists>v. attrs (add_fingerprint m) = attrs m @ [(Fingerprint, v)] \<and> length v = 4"
  by (auto simp: add_string_attr_def set_transaction_id_def StunMessage_def add_uint32_attr_def
      add_xor_mapped_address_def add_message_integrity_def add_fingerprint_def Let_def)

lemma fields_kept:
  "msg_type (add_string_attr a v m) = msg_type m" "transaction_id (add_string_attr a v m) = transaction_id m"
  "msg_type (add_uint32_attr a n m) = msg_type m" "transaction_id (add_uint32_attr a n m) = transaction_id m"
  "msg_type (add_xor_mapped_address ip p m) = msg_type m"
  "transaction_id (add_xor_mapped_address ip p m) = transaction_id m"
  "msg_type (add_message_integrity hmac pw m) = msg_type m"
  "transaction_id (add_message_integrity hmac pw m) = transaction_id m"
  "msg_type (add_fingerprint m) = msg_type m" "transaction_id (add_fingerprint m) = transaction_id m"
  "msg_type (set_transaction_id tid m) = msg_type m" "transaction_id (set_transaction_id tid m) = tid"
  "msg_type (StunMessage t r) = t" "transaction_id (StunMessage t r) = r"
  by (simp_all add: add_string_attr_def set_transaction_id_def StunMessage_def add_uint32_attr_def
      add_xor_mapped_address_def add_message_integrity_def add_fingerprint_def Let_def)

lemma length_tiebreaker [simp]: "length (tiebreaker_bytes r1 r2) = 8"
  by (simp add: tiebreaker_bytes_def Let_def)

lemma request_attrs:
  assumes hmac: "\<And>k x. length (hmac k x) = 20"
  shows "\<exists>v1 v2 v3 v4. attrs (binding_request hmac rnd r1 r2 a) =
      [(Username, remote_ufrag a @ [colon] @ local_ufrag a), (Priority, v1),
       (if role a = Controlling then IceControlling else IceControlled, v2), (MessageIntegrity, v3),
       (Fingerprint, v4)] \<and> length v1 = 4 \<and> length v2 = 8 \<and> length v3 = 20 \<and> length v4 = 4"
proof -
  define req1 where "req1 = add_string_attr Username (remote_ufrag a @ [colon] @ local_ufrag a) (StunMessage BindingRequest rnd)"
  define req2 where "req2 = add_uint32_attr Priority check_priority req1"
  define req3 where "req3 = add_string_attr (if role a = Controlling then IceControlling else IceControlled)
      (tiebreaker_bytes r1 r2) req2"
  define req4 where "req4 = add_message_integrity hmac (remote_pwd a) req3"
  have r: "binding_request hmac rnd r1 r2 a = add_fingerprint req4"
    by (simp add: binding_request_def req1_def req2_def req3_def req4_def Let_def)
  obtain v1 where "attrs req2 = attrs req1 @ [(Priority, v1)]" "length v1 = 4"
    using attrs_added(4) [of Priority check_priority req1] by (auto simp: req2_def)
  moreover obtain x where "attrs req4 = attrs req3 @ [(MessageIntegrity, hmac (remote_pwd a) x)]"
    using attrs_added(6) [of hmac "remote_pwd a" req3] by (auto simp: req4_def)
  moreover obtain v4 where "attrs (add_fingerprint req4) = attrs req4 @ [(Fingerprint, v4)]" "length v4 = 4"
    using attrs_added(7) [of req4] by auto
  ultimately show ?thesis
    using hmac by (simp add: r req3_def req1_def attrs_added)
qed

lemma response_attrs:
  assumes hmac: "\<And>k x. length (hmac k x) = 20"
  shows "\<exists>v1 v2 v3. attrs (binding_response hmac rnd a req from_addr) =
      [(XorMappedAddress, v1), (MessageIntegrity, v2), (Fingerprint, v3)] \<and>
    length v1 = 8 \<and> length v2 = 20 \<and> length v3 = 4"
proof -
  define r1 where "r1 = add_xor_mapped_address (s_addr from_addr) (ntohs (sin_port from_addr))
      (set_transaction_id (transaction_id req) (StunMessage BindingResponse rnd))"
  define r2 where "r2 = add_message_integrity hmac (local_pwd a) r1"
  have r: "binding_response hmac rnd a req from_addr = add_fingerprint r2"
    by (simp add: binding_response_def r1_def r2_def)
  obtain v1 where "attrs r1 = [(XorMappedAddress, v1)]" "length v1 = 8"
    using attrs_added(5) [of "s_addr from_addr" "ntohs (sin_port from_addr)"
        "set_transaction_id (transaction_id req) (StunMessage BindingResponse rnd)"]
    by (auto simp: r1_def attrs_added(2,3))
  moreover obtain x where "attrs r2 = attrs r1 @ [(MessageIntegrity, hmac (local_pwd a) x)]"
    using attrs_added(6) [of hmac "local_pwd a" r1] by (auto simp: r2_def)
  moreover obtain v3 where "attrs (add_fingerprint r2) = attrs r2 @ [(Fingerprint, v3)]" "length v3 = 4"
    using attrs_added(7) [of r2] by auto
  ultimately show ?thesis using hmac by (simp add: r)
qed

lemma pad_len_less: "pad_len n < 4"
  by (simp add: pad_len_def)

lemma request_ok:
  assumes "\<And>k x. length (hmac k x) = 20" and "length rnd = 12"
    and "length (remote_ufrag a) + length (local_ufrag a) \<le> 65000"
  shows "stun_ok (binding_request hmac rnd r1 r2 a)"
    and "get_string_attr Username (binding_request hmac rnd r1 r2 a) = Some (remote_ufrag a @ [colon] @ local_ufrag a)"
    and "msg_type (binding_request hmac rnd r1 r2 a) = BindingRequest"
    and "transaction_id (binding_request hmac rnd r1 r2 a) = rnd"
proof -
  obtain v1 v2 v3 v4 where as: "attrs (binding_request hmac rnd r1 r2 a) =
      [(Username, remote_ufrag a @ [colon] @ local_ufrag a), (Priority, v1),
       (if role a = Controlling then IceControlling else IceControlled, v2), (MessageIntegrity, v3),
       (Fingerprint, v4)]" "length v1 = 4" "length v2 = 8" "length v3 = 20" "length v4 = 4"
    using request_attrs [where hmac = hmac, OF assms(1)] by blast
  show f: "msg_type (binding_request hmac rnd r1 r2 a) = BindingRequest"
    "transaction_id (binding_request hmac rnd r1 r2 a) = rnd"
    by (simp_all add: binding_request_def Let_def fields_kept)
  let ?n = "length (remote_ufrag a @ [colon] @ local_ufrag a)"
  have "pad_len ?n < 4" by (rule pad_len_less)
  then show "stun_ok (binding_request hmac rnd r1 r2 a)"
    using assms(2,3) as(2-5)
    by (simp add: stun_ok_def f as(1) attr_ok_def serialize_attrs_def length_write_attr BindingRequest_def)
  show "get_string_attr Username (binding_request hmac rnd r1 r2 a) = Some (remote_ufrag a @ [colon] @ local_ufrag a)"
    by (simp add: get_string_attr_def as(1))
qed

lemma response_ok:
  assumes "\<And>k x. length (hmac k x) = 20" and "length (transaction_id req) = 12"
  shows "stun_ok (binding_response hmac rnd a req from_addr)"
    and "msg_type (binding_response hmac rnd a req from_addr) = BindingResponse"
    and "transaction_id (binding_response hmac rnd a req from_addr) = transaction_id req"
proof -
  obtain v1 v2 v3 where as: "attrs (binding_response hmac rnd a req from_addr) =
      [(XorMappedAddress, v1), (MessageIntegrity, v2), (Fingerprint, v3)]"
    "length v1 = 8" "length v2 = 20" "length v3 = 4"
    using response_attrs [where hmac = hmac, OF assms(1)] by blast
  show f: "msg_type (binding_response hmac rnd a req from_addr) = BindingResponse"
    "transaction_id (binding_response hmac rnd a req from_addr) = transaction_id req"
    by (simp_all add: binding_response_def fields_kept)
  show "stun_ok (binding_response hmac rnd a req from_addr)"
    using assms(2) as(2-4)
    by (simp add: stun_ok_def f as(1) attr_ok_def serialize_attrs_def length_write_attr BindingResponse_def)
qed

text \<open>The address in the response is the one the request came from.\<close>

lemma response_address:
  "get_xor_mapped_address (binding_response hmac rnd a req from_addr) =
     Some (s_addr from_addr, ntohs (sin_port from_addr))"
proof -
  define r where "r = add_xor_mapped_address (s_addr from_addr) (ntohs (sin_port from_addr))
      (set_transaction_id (transaction_id req) (StunMessage BindingResponse rnd))"
  obtain v where r: "attrs r = [(XorMappedAddress, v)]" "length v = 8"
    using attrs_added(5) [of "s_addr from_addr" "ntohs (sin_port from_addr)"
        "set_transaction_id (transaction_id req) (StunMessage BindingResponse rnd)"]
    by (auto simp: r_def attrs_added(2,3))
  obtain rest where "attrs (binding_response hmac rnd a req from_addr) = (XorMappedAddress, v) # rest"
    using r by (auto simp: binding_response_def r_def [symmetric] add_fingerprint_def
        add_message_integrity_def Let_def)
  then have "get_xor_mapped_address (binding_response hmac rnd a req from_addr) = get_xor_mapped_address r"
    using r by (simp add: get_xor_mapped_address_def)
  also have "\<dots> = Some (s_addr from_addr, ntohs (sin_port from_addr))"
    unfolding r_def by (rule xor_mapped_readback) (simp add: attrs_added(2,3))
  finally show ?thesis .
qed

section \<open>Properties\<close>

text \<open>C16. Two agents that hold each other's credentials connect: the request of one is accepted by the other,
  which answers with a response that carries the same transaction id and the address the request came
  from; the response makes the first agent connected.  This holds for every keyed hash with values of
  twenty bytes, and user fragments that fit a message.\<close>

theorem ice_handshake:
  assumes "\<And>k x. length (hmac k x) = 20" and "length rnd = 12"
    and "remote_ufrag a = local_ufrag b" and "remote_ufrag b = local_ufrag a"
    and "length (local_ufrag a) + length (local_ufrag b) \<le> 65000"
  shows "\<exists>req resp resp_msg.
    send_binding_request hmac rnd r1 r2 a to_b = [(req, to_b)] \<and>
    on_packet hmac rnd' b req from_a = ([(resp, from_a)], b\<lparr>connected := True\<rparr>) \<and>
    on_packet hmac rnd'' a resp from_b = ([], a\<lparr>connected := True\<rparr>) \<and>
    stun_parse StunMessage_default resp = (True, resp_msg) \<and> transaction_id resp_msg = rnd \<and>
    get_xor_mapped_address resp_msg = Some (s_addr from_a, ntohs (sin_port from_a))"
proof -
  let ?req = "binding_request hmac rnd r1 r2 a"
  let ?resp = "binding_response hmac rnd' b ?req from_a"
  have len: "length (remote_ufrag a) + length (local_ufrag a) \<le> 65000" using assms(3,5) by simp
  note req = request_ok [where hmac = hmac and ?r1.0 = r1 and ?r2.0 = r2, OF assms(1,2) len]
  have "length (transaction_id ?req) = 12" using req(4) assms(2) by simp
  note resp = response_ok [where hmac = hmac and rnd = rnd' and a = b and from_addr = from_a, OF assms(1) this]
  have "is_stun (stun_serialize ?req)" "stun_parse StunMessage_default (stun_serialize ?req) = (True, ?req)"
    "is_stun (stun_serialize ?resp)" "stun_parse StunMessage_default (stun_serialize ?resp) = (True, ?resp)"
    using parse_serialize [OF req(1), where trailing = "[]"] parse_serialize [OF resp(1), where trailing = "[]"]
    by simp_all
  note wire = this
  have "on_packet hmac rnd' b (stun_serialize ?req) from_a =
      ([(stun_serialize ?resp, from_a)], b\<lparr>connected := True\<rparr>)"
    using assms(3,4) by (simp add: on_packet_def wire req)
  moreover have "on_packet hmac rnd'' a (stun_serialize ?resp) from_b = ([], a\<lparr>connected := True\<rparr>)"
    by (simp add: on_packet_def wire resp) (simp add: stun_types)
  ultimately show ?thesis
    using wire resp(3) req(4) by (simp add: send_binding_request_def response_address)
qed

theorem ice_handshake_witness:
  "let hmac = \<lambda>k x. replicate 20 (hd k);
       a = set_remote_credentials [98] [2, 2] (IceAgent Controlling [97] [1, 1]);
       b = set_remote_credentials [97] [1, 1] (IceAgent Controlled [98] [2, 2]);
       peer = \<lparr>s_addr = 0x0100007F, sin_port = 0x5713\<rparr>
   in \<exists>req resp. send_binding_request hmac (replicate 12 5) 1 2 a peer = [(req, peer)] \<and>
        on_packet hmac (replicate 12 6) b req peer = ([(resp, peer)], b\<lparr>connected := True\<rparr>) \<and>
        on_packet hmac (replicate 12 7) a resp peer = ([], a\<lparr>connected := True\<rparr>)"
proof -
  let ?hmac = "\<lambda>k x. replicate 20 (hd k)"
  let ?a = "set_remote_credentials [98] [2, 2] (IceAgent Controlling [97] [1, 1])"
  let ?b = "set_remote_credentials [97] [1, 1] (IceAgent Controlled [98] [2, 2])"
  let ?peer = "\<lparr>s_addr = 0x0100007F, sin_port = 0x5713\<rparr>"
  have h: "\<And>k x. length (?hmac k x) = 20" "length (replicate 12 5 :: bytes) = 12" by simp_all
  have creds: "remote_ufrag ?a = local_ufrag ?b" "remote_ufrag ?b = local_ufrag ?a"
    "length (local_ufrag ?a) + length (local_ufrag ?b) \<le> 65000"
    by (simp_all add: set_remote_credentials_def IceAgent_def)
  from ice_handshake [where hmac = ?hmac and rnd = "replicate 12 5" and a = ?a and b = ?b and
      ?r1.0 = 1 and ?r2.0 = 2 and to_b = ?peer and from_a = ?peer and from_b = ?peer and
      rnd' = "replicate 12 6" and rnd'' = "replicate 12 7", OF h creds]
  show ?thesis unfolding Let_def by blast
qed

text \<open>What a packet can do: it sets the connected flag or changes nothing, and it is answered at most once,
  to its sender, and only if it is a STUN binding request that parses and whose USERNAME, if it has
  one, is the agent's own fragment followed by the remote one.\<close>

theorem ice_on_packet_safe:
  "case on_packet hmac rnd a d from_addr of (out, a') \<Rightarrow>
     (a' = a \<or> a' = a\<lparr>connected := True\<rparr>) \<and>
     (out = [] \<or>
      (\<exists>req. is_stun d \<and> stun_parse StunMessage_default d = (True, req) \<and> msg_type req = BindingRequest \<and>
         (get_string_attr Username req = None \<or>
          get_string_attr Username req = Some (local_ufrag a @ [colon] @ remote_ufrag a)) \<and>
         out = [(stun_serialize (binding_response hmac rnd a req from_addr), from_addr)] \<and>
         connected a'))"
  by (auto simp: on_packet_def split: prod.split option.split)

text \<open>Nothing secret is needed to connect: whatever the agent's state and credentials, a bare binding
  response of twenty bytes with any transaction id sets its connected flag, and so does a bare binding
  request, which is answered; neither has a USERNAME or a MESSAGE-INTEGRITY.\<close>

theorem ice_unauthenticated:
  assumes "length tid = 12"
  shows "on_packet hmac rnd a (stun_serialize \<lparr>msg_type = BindingResponse, transaction_id = tid, attrs = []\<rparr>) from_addr =
      ([], a\<lparr>connected := True\<rparr>) \<and>
    (\<exists>resp. on_packet hmac rnd a (stun_serialize \<lparr>msg_type = BindingRequest, transaction_id = tid, attrs = []\<rparr>) from_addr =
      ([(resp, from_addr)], a\<lparr>connected := True\<rparr>))"
proof -
  have ok: "stun_ok \<lparr>msg_type = t, transaction_id = tid, attrs = []\<rparr>" if "unat t < 2 ^ 14" for t
    using assms that by (simp add: stun_ok_def serialize_attrs_def)
  have "unat BindingResponse < 2 ^ 14" "unat BindingRequest < 2 ^ 14" by (simp_all add: stun_types)
  with parse_serialize [OF ok, where trailing = "[]"] show ?thesis
    by (simp add: on_packet_def get_string_attr_def) (simp add: stun_types)
qed

theorem ice_unauthenticated_witness:
  "connected (snd (on_packet (\<lambda>k x. replicate 20 (hd k)) (replicate 12 0) (IceAgent Controlled [97] [1, 2, 3])
     (stun_serialize \<lparr>msg_type = BindingResponse, transaction_id = replicate 12 0, attrs = []\<rparr>)
     \<lparr>s_addr = 1, sin_port = 2\<rparr>))"
  using ice_unauthenticated [where tid = "replicate 12 0"] by simp

end
