(* ===== verification/Srtp.thy ===== *)
theory Srtp
  imports Prelude
begin

text \<open>
  \<open>SrtpSession\<close> of \<open>module04_dtls_srtp\<close> (\<open>srtp_session.h\<close>, \<open>srtp_session.cpp\<close>): AES in counter mode
  over the payload of an RTP packet and a truncated HMAC over the whole packet.  The block cipher and
  the keyed hash are OpenSSL's: they are arguments, a function of key and block with values of sixteen
  bytes and one of key and data with values of twenty.  Operations on a buffer return the buffer.
\<close>

record srtp_session =
  master_key :: bytes
  master_salt :: bytes
  is_send :: bool
  roc :: u32

definition srtp_init :: "bytes \<Rightarrow> bytes \<Rightarrow> bool \<Rightarrow> srtp_session" where
  "srtp_init key salt send = \<lparr>master_key = key, master_salt = salt, is_send = send, roc = 0\<rparr>"

section \<open>The keystream\<close>

definition build_aes_cm_iv :: "bytes \<Rightarrow> u32 \<Rightarrow> u64 \<Rightarrow> bytes" where
  "build_aes_cm_iv salt14 ssrc index =
     (let iv = memcpy_at 0 salt14 (replicate 16 0) in
      iv[4 := iv ! 4 XOR byte_at 3 ssrc, 5 := iv ! 5 XOR byte_at 2 ssrc,
         6 := iv ! 6 XOR byte_at 1 ssrc, 7 := iv ! 7 XOR byte_at 0 ssrc,
         8 := iv ! 8 XOR byte_at 5 index, 9 := iv ! 9 XOR byte_at 4 index,
         10 := iv ! 10 XOR byte_at 3 index, 11 := iv ! 11 XOR byte_at 2 index,
         12 := iv ! 12 XOR byte_at 1 index, 13 := iv ! 13 XOR byte_at 0 index])"

text \<open>\<open>for (int i = 15; i >= 0; --i) if (++counter[i] != 0) break;\<close>.\<close>

fun incr_counter :: "nat \<Rightarrow> bytes \<Rightarrow> bytes" where
  "incr_counter 0 c = c[0 := c ! 0 + 1]"
| "incr_counter (Suc i) c =
     (let c' = c[Suc i := c ! Suc i + 1] in if c' ! Suc i \<noteq> 0 then c' else incr_counter i c')"

text \<open>The inner loop: \<open>chunk\<close> bytes of the buffer from \<open>pos\<close> on.\<close>

definition xor_at :: "nat \<Rightarrow> nat \<Rightarrow> bytes \<Rightarrow> bytes \<Rightarrow> bytes" where
  "xor_at pos chunk keystream b = fold (\<lambda>i b. b[pos + i := b ! (pos + i) XOR keystream ! i]) [0..<chunk] b"

function aes_cm_loop :: "(bytes \<Rightarrow> bytes) \<Rightarrow> nat \<Rightarrow> bytes \<Rightarrow> bytes \<Rightarrow> bytes" where
  "aes_cm_loop enc pos counter b =
     (if pos < length b
      then let keystream = enc counter; chunk = (if length b - pos < 16 then length b - pos else 16)
           in aes_cm_loop enc (pos + chunk) (incr_counter 15 counter) (xor_at pos chunk keystream b)
      else b)"
  by pat_completeness auto

lemma length_xor_at [simp]: "length (xor_at pos chunk ks b) = length b"
proof -
  have "length (fold (\<lambda>i b. b[pos + i := b ! (pos + i) XOR ks ! i]) is b) = length b" for "is"
    by (induction "is" arbitrary: b) simp_all
  then show ?thesis by (simp add: xor_at_def)
qed

termination aes_cm_loop
  by (relation "measure (\<lambda>(enc, pos, counter, b). length b - pos)") auto

declare aes_cm_loop.simps [simp del]

text \<open>\<open>index\<close> has 32 bits in the code, and is widened again for the initial vector.\<close>

definition aes_cm_xor :: "(bytes \<Rightarrow> bytes \<Rightarrow> bytes) \<Rightarrow> srtp_session \<Rightarrow> bytes \<Rightarrow> u32 \<Rightarrow> u32 \<Rightarrow> bytes" where
  "aes_cm_xor aes s b ssrc index =
     aes_cm_loop (aes (master_key s)) 0 (build_aes_cm_iv (master_salt s) ssrc (ucast index)) b"

definition hmac_sha1_80 :: "(bytes \<Rightarrow> bytes \<Rightarrow> bytes) \<Rightarrow> bytes \<Rightarrow> bytes \<Rightarrow> bytes" where
  "hmac_sha1_80 hmac d key = take 10 (hmac key d)"

section \<open>Protecting and unprotecting\<close>

definition packet_index :: "srtp_session \<Rightarrow> u16 \<Rightarrow> u64" where
  "packet_index s seq = push_bit 16 (ucast (roc s)) OR ucast seq"

definition protect ::
    "(bytes \<Rightarrow> bytes \<Rightarrow> bytes) \<Rightarrow> (bytes \<Rightarrow> bytes \<Rightarrow> bytes) \<Rightarrow> srtp_session \<Rightarrow> bytes \<Rightarrow> bool \<times> bytes" where
  "protect aes hmac s d =
     (if length d < 12 then (False, d)
      else let seq = read_u16 d 2; ssrc = read_u32 d 8; pkt_index = packet_index s seq;
               d' = take 12 d @ aes_cm_xor aes s (drop 12 d) ssrc (ucast pkt_index)
           in (True, d' @ hmac_sha1_80 hmac d' (master_key s)))"

text \<open>The constant-time comparison of ten bytes.\<close>

definition tag_diff :: "bytes \<Rightarrow> bytes \<Rightarrow> u8" where
  "tag_diff a b = fold (\<lambda>i diff. diff OR (a ! i XOR b ! i)) [0..<10] 0"

definition unprotect ::
    "(bytes \<Rightarrow> bytes \<Rightarrow> bytes) \<Rightarrow> (bytes \<Rightarrow> bytes \<Rightarrow> bytes) \<Rightarrow> srtp_session \<Rightarrow> bytes \<Rightarrow> bool \<times> bytes" where
  "unprotect aes hmac s d =
     (if length d < 12 + 10 then (False, d)
      else let payload_end = length d - 10;
               expected_tag = hmac_sha1_80 hmac (take payload_end d) (master_key s)
           in if tag_diff expected_tag (drop payload_end d) \<noteq> 0 then (False, d)
              else let d' = resize payload_end 0 d;
                       seq = read_u16 d' 2; ssrc = read_u32 d' 8; pkt_index = packet_index s seq
                   in (True, take 12 d' @ aes_cm_xor aes s (drop 12 d') ssrc (ucast pkt_index)))"

section \<open>The keystream, byte by byte\<close>

lemma nth_xor_at:
  "pos + chunk \<le> length b \<Longrightarrow>
   xor_at pos chunk ks b ! j =
     (if pos \<le> j \<and> j < pos + chunk then b ! j XOR ks ! (j - pos) else b ! j)"
proof (induction chunk)
  case 0
  then show ?case by (auto simp: xor_at_def)
next
  case (Suc c)
  have step: "xor_at pos (Suc c) ks b = (xor_at pos c ks b)[pos + c := xor_at pos c ks b ! (pos + c) XOR ks ! c]"
    by (simp add: xor_at_def)
  have len: "length (xor_at pos c ks b) = length b" by simp
  show ?case
    using Suc len unfolding step by (auto simp: nth_list_update)
qed

definition keystream_byte :: "(bytes \<Rightarrow> bytes) \<Rightarrow> bytes \<Rightarrow> nat \<Rightarrow> u8" where
  "keystream_byte enc iv j = enc ((incr_counter 15 ^^ (j div 16)) iv) ! (j mod 16)"

lemma length_aes_cm_loop [simp]: "length (aes_cm_loop enc pos c b) = length b"
  by (induction enc pos c b rule: aes_cm_loop.induct) (subst aes_cm_loop.simps, simp add: Let_def)

lemma nth_aes_cm_loop:
  "pos = 16 * k \<Longrightarrow> c = (incr_counter 15 ^^ k) iv \<Longrightarrow> j < length b \<Longrightarrow>
   aes_cm_loop enc pos c b ! j = (if pos \<le> j then b ! j XOR keystream_byte enc iv j else b ! j)"
proof (induction enc pos c b arbitrary: k rule: aes_cm_loop.induct)
  case (1 enc pos c b)
  show ?case
  proof (cases "pos < length b")
    case False
    with 1(4) show ?thesis by (subst aes_cm_loop.simps) simp
  next
    case True
    let ?chunk = "if length b - pos < 16 then length b - pos else 16"
    let ?b = "xor_at pos ?chunk (enc c) b"
    have b: "?b ! j = (if pos \<le> j \<and> j < pos + ?chunk then b ! j XOR enc c ! (j - pos) else b ! j)"
      using True by (intro nth_xor_at) auto
    have block: "keystream_byte enc iv j = enc c ! (j - pos)" if "pos \<le> j" "j < pos + 16"
    proof -
      have "j div 16 = k" using that 1(2) by auto
      moreover from this have "j mod 16 = j - pos" using 1(2) by (simp flip: minus_mult_div_eq_mod)
      ultimately show ?thesis by (simp add: keystream_byte_def 1(3))
    qed
    have rec: "aes_cm_loop enc pos c b = aes_cm_loop enc (pos + ?chunk) (incr_counter 15 c) ?b"
      using True by (subst aes_cm_loop.simps) (simp add: Let_def)
    show ?thesis
    proof (cases "length b - pos < 16")
      case short: True
      have "aes_cm_loop enc (pos + ?chunk) (incr_counter 15 c) ?b = ?b"
        using short True by (subst aes_cm_loop.simps) simp
      with rec b block 1(4) short show ?thesis by auto
    next
      case full: False
      have "aes_cm_loop enc (pos + ?chunk) (incr_counter 15 c) ?b ! j =
          (if pos + ?chunk \<le> j then ?b ! j XOR keystream_byte enc iv j else ?b ! j)"
        using True full 1(2-4) by (intro "1.IH" [of "enc c" ?chunk "Suc k"]) simp_all
      with rec b block full show ?thesis by auto
    qed
  qed
qed

text \<open>The bytes that are XORed to a payload of a packet.\<close>

definition srtp_keystream :: "(bytes \<Rightarrow> bytes \<Rightarrow> bytes) \<Rightarrow> srtp_session \<Rightarrow> u32 \<Rightarrow> u32 \<Rightarrow> nat \<Rightarrow> u8" where
  "srtp_keystream aes s ssrc index =
     keystream_byte (aes (master_key s)) (build_aes_cm_iv (master_salt s) ssrc (ucast index))"

lemma length_aes_cm_xor [simp]: "length (aes_cm_xor aes s b ssrc index) = length b"
  by (simp add: aes_cm_xor_def)

lemma nth_aes_cm_xor:
  "j < length b \<Longrightarrow> aes_cm_xor aes s b ssrc index ! j = b ! j XOR srtp_keystream aes s ssrc index j"
  unfolding aes_cm_xor_def srtp_keystream_def
  using nth_aes_cm_loop [of 0 0 "build_aes_cm_iv (master_salt s) ssrc (ucast index)"
      "build_aes_cm_iv (master_salt s) ssrc (ucast index)" j b "aes (master_key s)"] by simp

lemma aes_cm_xor_twice: "aes_cm_xor aes s (aes_cm_xor aes s b ssrc index) ssrc index = b"
  by (rule nth_equalityI) (simp_all add: nth_aes_cm_xor xor.assoc)

section \<open>The tag\<close>

lemma or_zero_iff: "(a :: u8) OR b = 0 \<longleftrightarrow> a = 0 \<and> b = 0"
  by (auto simp: bit_eq_iff bit_or_iff)

lemma xor_zero_iff: "(a :: u8) XOR b = 0 \<longleftrightarrow> a = b"
  by (auto simp: bit_eq_iff bit_xor_iff)

lemma tag_diff_zero_iff: "tag_diff a b = 0 \<longleftrightarrow> (\<forall>i<10. a ! i = b ! i)"
proof -
  have "fold (\<lambda>i diff. diff OR (a ! i XOR b ! i)) is d = 0 \<longleftrightarrow> d = 0 \<and> (\<forall>i\<in>set is. a ! i = b ! i)" for "is" d
    by (induction "is" arbitrary: d) (auto simp: or_zero_iff xor_zero_iff)
  then show ?thesis by (auto simp: tag_diff_def)
qed

lemma tag_equal_iff: "length a = 10 \<Longrightarrow> length b = 10 \<Longrightarrow> tag_diff a b = 0 \<longleftrightarrow> a = b"
  by (auto simp: tag_diff_zero_iff list_eq_iff_nth_eq)

section \<open>The two directions\<close>

text \<open>The ciphertext: the header as it is and the payload XORed with the keystream.\<close>

definition srtp_body :: "(bytes \<Rightarrow> bytes \<Rightarrow> bytes) \<Rightarrow> srtp_session \<Rightarrow> bytes \<Rightarrow> bytes" where
  "srtp_body aes s d =
     take 12 d @ aes_cm_xor aes s (drop 12 d) (read_u32 d 8) (ucast (packet_index s (read_u16 d 2)))"

lemma length_srtp_body [simp]: "length d \<ge> 12 \<Longrightarrow> length (srtp_body aes s d) = length d"
  by (simp add: srtp_body_def)

lemma header_kept:
  assumes "length d \<ge> 12"
  shows "read_u16 (srtp_body aes s d) 2 = read_u16 d 2" and "read_u32 (srtp_body aes s d) 8 = read_u32 d 8"
  using assms by (simp_all add: srtp_body_def read_u16_def read_u32_def nth_append)

lemma srtp_body_twice:
  assumes "length d \<ge> 12" and "master_key s = master_key r" "master_salt s = master_salt r" "roc s = roc r"
  shows "srtp_body aes r (srtp_body aes s d) = d"
proof -
  have "aes_cm_xor aes r = aes_cm_xor aes s" "packet_index r = packet_index s"
    using assms(2-4) by (simp_all add: fun_eq_iff aes_cm_xor_def packet_index_def)
  moreover have "take 12 (srtp_body aes s d) = take 12 d"
    "drop 12 (srtp_body aes s d) =
      aes_cm_xor aes s (drop 12 d) (read_u32 d 8) (ucast (packet_index s (read_u16 d 2)))"
    using assms(1) by (simp_all add: srtp_body_def)
  ultimately show ?thesis
    using assms(1) by (subst srtp_body_def) (simp add: header_kept aes_cm_xor_twice)
qed

lemma protect_eq:
  "protect aes hmac s d =
     (if length d < 12 then (False, d)
      else (True, srtp_body aes s d @ hmac_sha1_80 hmac (srtp_body aes s d) (master_key s)))"
  by (simp add: protect_def srtp_body_def Let_def)

lemma unprotect_eq:
  assumes "\<And>k x. length (hmac k x) = 20"
  shows "unprotect aes hmac s d =
     (if 22 \<le> length d \<and>
         drop (length d - 10) d = hmac_sha1_80 hmac (take (length d - 10) d) (master_key s)
      then (True, srtp_body aes s (take (length d - 10) d)) else (False, d))"
proof -
  have tag: "length (hmac_sha1_80 hmac x k) = 10" for x k by (simp add: hmac_sha1_80_def assms)
  have "resize (length d - 10) 0 d = take (length d - 10) d" by (simp add: resize_def)
  then show ?thesis
    using tag by (auto simp: unprotect_def srtp_body_def Let_def tag_equal_iff)
qed

section \<open>Properties\<close>

lemma unprotect_protect:
  assumes "\<And>k x. length (hmac k x) = 20" and "12 \<le> length d"
    and "master_key s = master_key r" "master_salt s = master_salt r" "roc s = roc r"
  shows "\<exists>c. protect aes hmac s d = (True, c) \<and> length c = length d + 10 \<and> take 12 c = take 12 d \<and>
    unprotect aes hmac r c = (True, d)"
proof -
  let ?b = "srtp_body aes s d"
  let ?c = "?b @ hmac_sha1_80 hmac ?b (master_key s)"
  have tag: "length (hmac_sha1_80 hmac x k) = 10" for x k by (simp add: hmac_sha1_80_def assms(1))
  have "unprotect aes hmac r ?c = (True, srtp_body aes r ?b)"
    using assms(2,3) by (simp add: unprotect_eq [where hmac = hmac, OF assms(1)] tag)
  moreover have "protect aes hmac s d = (True, ?c)" using assms(2) by (simp add: protect_eq)
  moreover have "take 12 ?c = take 12 d" using assms(2) by (simp add: srtp_body_def)
  ultimately show ?thesis
    using srtp_body_twice [OF assms(2-5), of aes] assms(2) tag by auto
qed

text \<open>C7. A packet of at least twelve bytes is protected by a sender and unprotected by a receiver with the
  same key, salt and rollover counter to exactly the packet it was; in between it is ten bytes longer
  and its header is in clear.  This holds for every block function and every keyed hash with values of
  twenty bytes.\<close>

theorem srtp_roundtrip:
  assumes "\<And>k x. length (hmac k x) = 20" and "12 \<le> length d"
    and "master_key s = master_key r" "master_salt s = master_salt r" "roc s = roc r"
  shows "\<exists>c. protect aes hmac s d = (True, c) \<and> length c = length d + 10 \<and> take 12 c = take 12 d \<and>
    unprotect aes hmac r c = (True, d)"
  using assms by (rule unprotect_protect)

theorem srtp_roundtrip_witness:
  "let s = srtp_init (replicate 16 1) (replicate 14 2) True; r = srtp_init (replicate 16 1) (replicate 14 2) False;
       hmac = \<lambda>k x. replicate 20 (hd k + of_nat (length x))
   in \<exists>c. protect (\<lambda>k b. b) hmac s (replicate 13 7) = (True, c) \<and> unprotect (\<lambda>k b. b) hmac r c = (True, replicate 13 7)"
  using srtp_roundtrip [where hmac = "\<lambda>k x. replicate 20 (hd k + of_nat (length x))" and aes = "\<lambda>k b. b" and
      d = "replicate 13 7" and s = "srtp_init (replicate 16 1) (replicate 14 2) True" and
      r = "srtp_init (replicate 16 1) (replicate 14 2) False"]
  unfolding Let_def by (simp add: srtp_init_def) blast

text \<open>C19. Nothing is decrypted that is not authentic: \<open>unprotect\<close> succeeds exactly on a packet of at least 22
  bytes whose last ten bytes are the truncated hash of the bytes before them under the master key, and
  it leaves every other packet as it is.\<close>

theorem srtp_authentic:
  assumes "\<And>k x. length (hmac k x) = 20"
  shows "(fst (unprotect aes hmac s d) \<longleftrightarrow>
      22 \<le> length d \<and> drop (length d - 10) d = take 10 (hmac (master_key s) (take (length d - 10) d))) \<and>
    (fst (unprotect aes hmac s d) \<or> snd (unprotect aes hmac s d) = d)"
  by (simp add: unprotect_eq [where hmac = hmac, OF assms] hmac_sha1_80_def)

theorem srtp_authentic_witness:
  "\<not> fst (unprotect (\<lambda>k b. b) (\<lambda>k x. replicate 20 (hd k)) (srtp_init (replicate 16 1) (replicate 14 2) False)
       (replicate 30 7))"
  using srtp_authentic [where hmac = "\<lambda>k x. replicate 20 (hd k)" and aes = "\<lambda>k b. b" and d = "replicate 30 7" and
      s = "srtp_init (replicate 16 1) (replicate 14 2) False"]
  by (simp add: srtp_init_def replicate_eq_replicate)

text \<open>The keystream repeats.  The index that enters the initial vector is cut to 32 bits and the rollover
  counter of a session never changes, so packets \<open>2^16\<close> apart on one SSRC are encrypted alike: for two
  packets with the same SSRC and sequence number, also in sessions whose rollover counters differ in
  the upper sixteen bits only, the XOR of the encrypted payloads is the XOR of the payloads.\<close>

theorem srtp_keystream_repeats:
  assumes "12 \<le> length p" "12 \<le> length q" and "read_u16 p 2 = read_u16 q 2" "read_u32 p 8 = read_u32 q 8"
    and "master_key s = master_key r" "master_salt s = master_salt r"
    and "(ucast (roc s) :: u16) = ucast (roc r)"
    and "12 + j < length p" "12 + j < length q"
  shows "snd (protect aes hmac s p) ! (12 + j) XOR snd (protect aes hmac r q) ! (12 + j) =
    p ! (12 + j) XOR q ! (12 + j)"
proof -
  have idx: "(ucast (packet_index s n) :: u32) = ucast (packet_index r n)" for n
  proof (rule bit_word_eqI)
    fix i assume i: "i < LENGTH(32)"
    have "bit (ucast (roc s) :: u16) k \<longleftrightarrow> bit (ucast (roc r) :: u16) k" for k using assms(7) by simp
    then have "(k < 16 \<and> bit (roc s) k) = (k < 16 \<and> bit (roc r) k)" for k
      by (simp add: bit_ucast_iff)
    then have "k < 16 \<Longrightarrow> bit (roc s) k \<longleftrightarrow> bit (roc r) k" for k by blast
    with i show "bit (ucast (packet_index s n) :: u32) i \<longleftrightarrow> bit (ucast (packet_index r n) :: u32) i"
      by (auto simp: packet_index_def bit_simps)
  qed
  have ks: "srtp_keystream aes s = srtp_keystream aes r"
    using assms(5,6) by (simp add: fun_eq_iff srtp_keystream_def)
  have body: "srtp_body aes x d ! (12 + j) =
      d ! (12 + j) XOR srtp_keystream aes x (read_u32 d 8) (ucast (packet_index x (read_u16 d 2))) j"
    if "12 + j < length d" for x d
    using that by (simp add: srtp_body_def nth_append nth_aes_cm_xor)
  define k where "k = srtp_keystream aes r (read_u32 q 8) (ucast (packet_index r (read_u16 q 2))) j"
  have enc: "snd (protect aes hmac x d) ! (12 + j) = srtp_body aes x d ! (12 + j)" if "12 + j < length d" for x d
    using that by (simp add: protect_eq nth_append)
  have "srtp_body aes s p ! (12 + j) = p ! (12 + j) XOR k" "srtp_body aes r q ! (12 + j) = q ! (12 + j) XOR k"
    unfolding body [OF assms(8)] body [OF assms(9)] k_def ks idx assms(3,4) by (rule refl)+
  then show ?thesis
    unfolding enc [OF assms(8)] enc [OF assms(9)] by (simp add: ac_simps)
qed

theorem srtp_keystream_repeats_witness:
  "let s = srtp_init (replicate 16 1) (replicate 14 2) True; hmac = \<lambda>k x. replicate 20 (hd k);
       p = replicate 12 0 @ [5]; q = replicate 12 0 @ [9]
   in snd (protect (\<lambda>k b. b) hmac s p) ! 12 XOR snd (protect (\<lambda>k b. b) hmac s q) ! 12 = 5 XOR 9"
proof -
  let ?s = "srtp_init (replicate 16 1) (replicate 14 2) True"
  let ?p = "replicate 12 0 @ [5] :: bytes" and ?q = "replicate 12 0 @ [9] :: bytes"
  have "read_u16 ?p 2 = read_u16 ?q 2" "read_u32 ?p 8 = read_u32 ?q 8"
    by (simp_all add: read_u16_def read_u32_def nth_append)
  then show ?thesis
    using srtp_keystream_repeats [where p = ?p and q = ?q and s = ?s and r = ?s and j = 0 and
        hmac = "\<lambda>k x. replicate 20 (hd k)" and aes = "\<lambda>k b. b"]
    by (simp add: Let_def nth_append)
qed

end
