(* ===== verification/MediaPath.thy ===== *)
theory MediaPath
  imports VideoPacketizer Srtp RtpJitter Fec
begin

text \<open>
  The path of a video unit through the components: packets of \<open>RtpVideoPacketizer\<close>, encrypted by the
  sender's \<open>SrtpSession\<close>, carried by a network that reorders and repeats them, decrypted, parsed into
  \<open>RtpPacket\<close>, put in order by \<open>RtpJitterBuffer\<close> and joined.  The lemmas say that each stage gives the next
  one what it needs.
\<close>

section \<open>One packet\<close>

definition send_packet ::
    "(bytes \<Rightarrow> bytes \<Rightarrow> bytes) \<Rightarrow> (bytes \<Rightarrow> bytes \<Rightarrow> bytes) \<Rightarrow> srtp_session \<Rightarrow> rtp_packet \<Rightarrow> bytes" where
  "send_packet aes hmac s p = snd (protect aes hmac s (RtpPacket_data p))"

definition receive_packet ::
    "(bytes \<Rightarrow> bytes \<Rightarrow> bytes) \<Rightarrow> (bytes \<Rightarrow> bytes \<Rightarrow> bytes) \<Rightarrow> srtp_session \<Rightarrow> bytes \<Rightarrow> rtp_packet" where
  "receive_packet aes hmac r c = snd (RtpPacket_parse RtpPacket_default (snd (unprotect aes hmac r c)))"

definition same_keys :: "srtp_session \<Rightarrow> srtp_session \<Rightarrow> bool" where
  "same_keys s r \<longleftrightarrow> master_key s = master_key r \<and> master_salt s = master_salt r \<and> roc s = roc r"

lemma receive_send:
  assumes "\<And>k x. length (hmac k x) = 20" and "same_keys s r" and "built p"
  shows "receive_packet aes hmac r (send_packet aes hmac s p) = p"
proof -
  obtain pt seq ts ssrc m d where p: "p = \<lparr>buf = rtp_header pt seq ts ssrc m @ d, payload_offset = 12\<rparr>"
    using assms(3) by (auto simp: built_def)
  have "12 \<le> length (RtpPacket_data p)" by (simp add: p RtpPacket_data_def rtp_header_def)
  then obtain c where "protect aes hmac s (RtpPacket_data p) = (True, c)"
    "unprotect aes hmac r c = (True, RtpPacket_data p)"
    using unprotect_protect [where hmac = hmac and aes = aes and d = "RtpPacket_data p" and s = s and r = r, OF assms(1)]
      assms(2) unfolding same_keys_def by blast
  then show ?thesis
    by (simp add: receive_packet_def send_packet_def) (simp add: p RtpPacket_data_def parse_built)
qed

section \<open>The sequence\<close>

lemma run_numbers_nth: "run_numbers s ps \<Longrightarrow> i < length ps \<Longrightarrow> RtpPacket_sequence (ps ! i) = s + of_nat i"
  unfolding run_numbers_def by (metis (no_types, lifting) nth_map nth_upt add_0 length_map length_upt diff_zero)

lemma find_in_run:
  assumes "run_numbers s ps" and "length ps \<le> 2 ^ 16" and "set qs = set ps" and "i < length ps"
  shows "List.find (\<lambda>q. RtpPacket_sequence q = s + of_nat i) qs = Some (ps ! i)"
proof -
  have "\<exists>q\<in>set qs. RtpPacket_sequence q = s + of_nat i"
    using assms(3,4) run_numbers_nth [OF assms(1,4)] nth_mem by blast
  then obtain q where q: "List.find (\<lambda>q. RtpPacket_sequence q = s + of_nat i) qs = Some q"
    by (metis (mono_tags, lifting) find_None_iff not_None_eq)
  then have "q \<in> set ps" "RtpPacket_sequence q = s + of_nat i"
    using assms(3) by (auto simp: find_Some_iff)
  then obtain j where j: "j < length ps" "q = ps ! j" by (auto simp: in_set_conv_nth)
  then have "(of_nat j :: u16) = of_nat i"
    using run_numbers_nth [OF assms(1) j(1)] \<open>RtpPacket_sequence q = s + of_nat i\<close> by simp
  then have "j = i"
    using unat_of_nat_u16 [of i] unat_of_nat_u16 [of j] assms(2,4) j(1) by simp
  then show ?thesis using q j by simp
qed

lemma reordered_run:
  assumes "run_numbers s ps" and "ps \<noteq> []" and "length ps \<le> 2 ^ 16" and "set qs = set ps" and "qs \<noteq> []" and "hd qs = hd ps"
  shows "map the (fst (jitter_pops (length ps) (foldl jitter_push rtp_jitter_init qs))) = ps"
proof -
  obtain q qs' where qs: "qs = q # qs'" using assms(5) by (cases qs) auto
  have "q = ps ! 0" using assms(2,6) by (simp add: qs hd_conv_nth)
  then have s: "s = RtpPacket_sequence q" using run_numbers_nth [OF assms(1), of 0] assms(2) by simp
  have "\<forall>i<length ps. \<exists>p\<in>set (q # qs'). RtpPacket_sequence p = s + of_nat i"
    using run_numbers_nth [OF assms(1)] assms(4) nth_mem unfolding qs by blast
  from pops_find [OF assms(3) s this]
  have "fst (jitter_pops (length ps) (foldl jitter_push rtp_jitter_init qs)) =
      map (\<lambda>i. List.find (\<lambda>q. RtpPacket_sequence q = s + of_nat i) qs) [0..<length ps]"
    by (simp only: qs)
  also have "\<dots> = map (\<lambda>i. Some (ps ! i)) [0..<length ps]"
    using find_in_run [OF assms(1,3,4)] by (intro map_cong) auto
  finally show ?thesis by (simp add: comp_def map_nth)
qed

section \<open>A lost fragment\<close>

lemma max_len_le: "(\<And>d. d \<in> set ds \<Longrightarrow> length d \<le> k) \<Longrightarrow> max_len ds \<le> k"
  by (induction ds) simp_all

lemma fragment_facts:
  assumes "packetize nal pt seq ts ssrc = (ps, seq')" and "2 \<le> length ps" and "i < length ps"
  shows "common_fields pt ts ssrc (ps ! i)" and "length (payload_bytes (ps ! i)) \<le> 1200"
    and "RtpPacket_marker (ps ! i) = (i = length ps - 1)" and "i < length ps - 1 \<Longrightarrow> length (payload_bytes (ps ! i)) = 1200"
proof -
  have "length (skip_start_code nal) > 1200"
  proof (rule ccontr)
    assume "\<not> ?thesis"
    then have "length ps \<le> 1" using assms(1)
      by (cases "skip_start_code nal = []") (auto simp: packetize_cases)
    then show False using assms(2) by simp
  qed
  from packetize_shape [OF this assms(1)]
  have shape: "fua_shape pt ts ssrc ((skip_start_code nal ! 0 AND 0xE0) OR 28) (skip_start_code nal ! 0) True seq
    (drop 1 (skip_start_code nal)) ps" by simp
  then show "common_fields pt ts ssrc (ps ! i)" "length (payload_bytes (ps ! i)) \<le> 1200"
    using assms(3) nth_mem by (auto simp: fua_shape_def)
  have "map RtpPacket_marker ps ! i = (replicate (length ps - 1) False @ [True]) ! i"
    using shape by (simp only: fua_shape_def)
  then show "RtpPacket_marker (ps ! i) = (i = length ps - 1)"
    using assms(3) by (auto simp: nth_append)
  show "length (payload_bytes (ps ! i)) = 1200" if "i < length ps - 1"
    using packetize_full [OF assms(1)] that nth_mem [of i "butlast ps"] by (simp add: nth_butlast)
qed

text \<open>A lost fragment that is not the last of its unit comes back as it was.\<close>

lemma fragment_recovered:
  assumes ps: "packetize nal pt seq ts ssrc = (ps, seq')" and n: "2 \<le> length ps"
    and al: "length ps dvd unat seq" "unat seq + length ps \<le> 2 ^ 16"
    and e: "enc_count e = 0" "enc_group_size e = length ps" "last (fst (encoder_run e ps)) = Some f"
    and m: "m < length ps - 1"
    and ord: "distinct ord" "set ord = insert None (Some ` ({..<length ps} - {m}))"
  shows "decoder_run (XorFecDecoder (length ps)) (map (fec_input ps f) ord) =
    (replicate (length ps - 1) None @ [Some (ps ! m)], XorFecDecoder (length ps))"
proof -
  let ?q = "ps ! (if m = 0 then 1 else 0)"
  have seqs: "\<forall>i<length ps. RtpPacket_sequence (ps ! i) = seq + of_nat i"
    using run_numbers_nth [OF packetize_numbers [OF ps]] by blast
  have m': "m < length ps" using m by simp
  have k: "(if m = 0 then 1 else 0) < length ps" using n by (cases ps) auto
  have "max_len (map payload_bytes ps) \<le> 1200"
    using fragment_facts(2) [OF ps n] by (intro max_len_le) (auto simp: in_set_conv_nth)
  then have pay: "resize (max_len (map payload_bytes ps)) 0 (payload_bytes (ps ! m)) = payload_bytes (ps ! m)"
    using fragment_facts(4) [OF ps n m' m] max_len_all_but_one [of m "map payload_bytes ps"] m'
    by (simp add: resize_def)
  have "RtpPacket_marker (ps ! m) = False" using fragment_facts(3) [OF ps n m'] m by simp
  moreover have "RtpPacket_payload_type ?q = RtpPacket_payload_type (ps ! m)"
    "RtpPacket_timestamp ?q = RtpPacket_timestamp (ps ! m)" "RtpPacket_ssrc ?q = RtpPacket_ssrc (ps ! m)"
    using fragment_facts(1) [OF ps n m'] fragment_facts(1) [OF ps n k] by (simp_all add: common_fields_def)
  moreover have "ps ! m = \<lparr>buf = rtp_header (RtpPacket_payload_type (ps ! m)) (RtpPacket_sequence (ps ! m))
      (RtpPacket_timestamp (ps ! m)) (RtpPacket_ssrc (ps ! m)) (RtpPacket_marker (ps ! m)) @ payload_bytes (ps ! m),
      payload_offset = 12\<rparr>"
    using packetize_built [OF ps] m' nth_mem by (intro built_fields) blast
  ultimately have "\<lparr>buf = rtp_header (RtpPacket_payload_type ?q) (RtpPacket_sequence (ps ! m))
           (RtpPacket_timestamp ?q) (RtpPacket_ssrc ?q) False @
         resize (max_len (map payload_bytes ps)) 0 (payload_bytes (ps ! m)), payload_offset = 12\<rparr> = ps ! m"
    by (simp only: pay)
  with recovered_packet [OF n refl al seqs e m' ord] show ?thesis by (simp only:)
qed

section \<open>The receiver\<close>

text \<open>A received packet goes to the FEC decoder and, unless it is a parity packet (payload type 127, which the
  encoder uses), to the reordering buffer; what the decoder recovers goes to the buffer too.\<close>

definition receiver_feed :: "fec_decoder \<times> rtp_jitter \<Rightarrow> rtp_packet \<Rightarrow> fec_decoder \<times> rtp_jitter" where
  "receiver_feed st p =
     (let (dec, jb) = st; is_fec = (RtpPacket_payload_type p = 127);
          jb = (if is_fec then jb else jitter_push jb p);
          (r, dec) = decoder_feed dec p is_fec
      in (dec, case r of None \<Rightarrow> jb | Some q \<Rightarrow> jitter_push jb q))"

text \<open>What the buffer gets, given what the decoder answers.\<close>

definition pushed_packets :: "rtp_packet list \<Rightarrow> rtp_packet option list \<Rightarrow> rtp_packet list" where
  "pushed_packets ps rs = concat (map (\<lambda>(p, r).
     (if RtpPacket_payload_type p = 127 then [] else [p]) @ (case r of None \<Rightarrow> [] | Some q \<Rightarrow> [q])) (zip ps rs))"

lemma pushed_packets_simps [simp]:
  "pushed_packets [] rs = []"
  "pushed_packets (p # ps) (r # rs) =
     (if RtpPacket_payload_type p = 127 then [] else [p]) @ (case r of None \<Rightarrow> [] | Some q \<Rightarrow> [q]) @ pushed_packets ps rs"
  by (simp_all add: pushed_packets_def)

lemma receiver_run:
  "snd (foldl receiver_feed (dec, jb) ps) =
    foldl jitter_push jb
      (pushed_packets ps (fst (decoder_run dec (map (\<lambda>p. (p, RtpPacket_payload_type p = 127)) ps))))"
proof (induction ps arbitrary: dec jb)
  case (Cons p ps)
  obtain r dec' where r: "decoder_feed dec p (RtpPacket_payload_type p = 127) = (r, dec')" by force
  obtain rs dec'' where "decoder_run dec' (map (\<lambda>p. (p, RtpPacket_payload_type p = 127)) ps) = (rs, dec'')" by force
  with Cons.IH [of dec'] r show ?case
    by (auto simp: receiver_feed_def Let_def split: option.splits)
qed simp

lemma pushed_all_but:
  "ps \<noteq> [] \<Longrightarrow> pushed_packets ps (replicate (length ps - 1) None @ [Some q]) =
    filter (\<lambda>p. RtpPacket_payload_type p \<noteq> 127) ps @ [q]"
proof -
  have "pushed_packets (ps @ [p]) (replicate (length ps) None @ [Some q]) =
      filter (\<lambda>p. RtpPacket_payload_type p \<noteq> 127) (ps @ [p]) @ [q]" for ps p
    by (induction ps) auto
  then show "ps \<noteq> [] \<Longrightarrow> ?thesis" by (metis append_butlast_last_id length_butlast)
qed

lemma parity_facts:
  assumes "enc_count e = 0" "enc_group_size e = length ps" "ps \<noteq> []" "last (fst (encoder_run e ps)) = Some f"
  shows "built f" and "RtpPacket_payload_type f = 127"
proof -
  have f: "f = parity_packet e ps" using assms encoder_run_group [of e ps] by simp
  then show "RtpPacket_payload_type f = 127" by (simp add: parity_packet_fields)
  show "built f" unfolding f parity_packet_def Let_def by (simp add: build_buf header_is_built)
qed

text \<open>The packets of one unit with its parity packet, without the fragment \<open>m\<close>, in the order \<open>ord\<close>: what the
  buffer gets is the whole unit.\<close>

lemma repaired_run:
  assumes ps: "packetize nal pt seq ts ssrc = (ps, seq')" "pt AND 0x7F \<noteq> 127"
    and al: "length ps dvd unat seq" "unat seq + length ps \<le> 2 ^ 16"
    and e: "enc_count e = 0" "enc_group_size e = length ps" "last (fst (encoder_run e ps)) = Some f"
    and m: "0 < m" "m < length ps - 1"
    and ord: "distinct ord" "set ord = insert None (Some ` ({..<length ps} - {m}))" "hd ord = Some 0"
  shows "map the (fst (jitter_pops (length ps)
    (snd (foldl receiver_feed (XorFecDecoder (length ps), rtp_jitter_init) (map (fst \<circ> fec_input ps f) ord))))) = ps"
proof -
  have n: "2 \<le> length ps" and ne: "ps \<noteq> []" using m by auto
  let ?got = "map (fst \<circ> fec_input ps f) ord"
  have data: "RtpPacket_payload_type (ps ! i) \<noteq> 127" if "i < length ps" for i
    using fragment_facts(1) [OF ps(1) n that] ps(2) by (simp add: common_fields_def)
  have known: "x = None \<or> (\<exists>i<length ps. x = Some i)" if "x \<in> set ord" for x using that ord(2) by auto
  have "(fst (fec_input ps f x), RtpPacket_payload_type (fst (fec_input ps f x)) = 127) = fec_input ps f x"
    if "x \<in> set ord" for x
    using known [OF that] data parity_facts(2) [OF e(1,2) ne e(3)] by (auto simp: fec_input_def)
  then have inp: "map (\<lambda>p. (p, RtpPacket_payload_type p = 127)) ?got = map (fec_input ps f) ord" by simp
  have run: "fst (decoder_run (XorFecDecoder (length ps)) (map (\<lambda>p. (p, RtpPacket_payload_type p = 127)) ?got)) =
      replicate (length ps - 1) None @ [Some (ps ! m)]"
  proof -
    have "decoder_run (XorFecDecoder (length ps)) (map (fec_input ps f) ord) =
        (replicate (length ps - 1) None @ [Some (ps ! m)], XorFecDecoder (length ps))"
      by (rule fragment_recovered [OF ps(1) n al e m(2) ord(1,2)])
    then show ?thesis unfolding inp by (simp only: fst_conv)
  qed
  have "None \<in> set ord" by (simp add: ord(2))
  then have ne': "ord \<noteq> []" by (metis empty_iff empty_set)
  have card: "length ord = length ps"
  proof -
    have "card (set ord) = Suc (card ({..<length ps} - {m}))" using ord(2) by (simp add: card_image image_iff)
    then show ?thesis using m distinct_card [OF ord(1)] by simp
  qed
  let ?qs = "filter (\<lambda>p. RtpPacket_payload_type p \<noteq> 127) ?got @ [ps ! m]"
  have "snd (foldl receiver_feed (XorFecDecoder (length ps), rtp_jitter_init) ?got) =
      foldl jitter_push rtp_jitter_init (pushed_packets ?got (replicate (length ?got - 1) None @ [Some (ps ! m)]))"
    unfolding receiver_run run by (simp add: card)
  also have "\<dots> = foldl jitter_push rtp_jitter_init ?qs" using ne' by (subst pushed_all_but) simp_all
  finally have jb: "snd (foldl receiver_feed (XorFecDecoder (length ps), rtp_jitter_init) ?got) =
    foldl jitter_push rtp_jitter_init ?qs" .
  have "set ?qs = set ps"
  proof -
    have "set (filter (\<lambda>p. RtpPacket_payload_type p \<noteq> 127) ?got) = (\<lambda>i. ps ! i) ` ({..<length ps} - {m})"
      using ord(2) data parity_facts(2) [OF e(1,2) ne e(3)] by (auto simp: fec_input_def image_iff)
    then have "set ?qs = insert (ps ! m) ((\<lambda>i. ps ! i) ` ({..<length ps} - {m}))" by simp
    also have "\<dots> = (\<lambda>i. ps ! i) ` insert m {..<length ps}" by blast
    also have "insert m {..<length ps} = {..<length ps}" using m by auto
    also have "(\<lambda>i. ps ! i) ` {..<length ps} = set ps" by (auto simp: in_set_conv_nth)
    finally show ?thesis .
  qed
  moreover have "hd ?qs = hd ps"
  proof -
    obtain ord' where "ord = Some 0 # ord'" using ne' ord(3) by (cases ord) auto
    then show ?thesis using data [of 0] ne by (simp add: fec_input_def hd_conv_nth)
  qed
  moreover have "length ps \<le> 2 ^ 16" using al(2) by linarith
  ultimately show ?thesis
    unfolding jb using reordered_run [OF packetize_numbers [OF ps(1)] ne] by blast
qed

end
