(* ===== verification/WebSocket.thy ===== *)
theory WebSocket
  imports Prelude "HOL-Library.Char_ord"
begin

text \<open>
  \<open>WebSocketServer\<close> of \<open>module05_signaling\<close> (\<open>websocket_server.h\<close>, \<open>websocket_server.cpp\<close>): the frames,
  the opening handshake and the handling of a client.  A string is its bytes.  What the operating
  system answers to \<open>read\<close>, \<open>accept\<close> and the \<open>write\<close> of the handshake, and OpenSSL's SHA-1 with
  base64, are arguments; system calls and callbacks appear as a list of effects in the order they are
  made.  \<open>std::string\<close> is that of a 64-bit libstdc++: constructing one longer than \<open>2^63 - 1\<close> throws.
\<close>

definition ascii :: "string \<Rightarrow> bytes" where
  "ascii s = map of_char s"

section \<open>Building a frame\<close>

definition build_ws_frame :: "bytes \<Rightarrow> bytes" where
  "build_ws_frame msg =
     (let len = of_nat (length msg) :: u64 in
      [0x81] @
      (if len < 126 then [ucast len]
       else if len \<le> 0xFFFF then [126, byte_at 1 len, byte_at 0 len]
       else 127 # map (\<lambda>i. byte_at (7 - i) len) [0..<8]) @
      msg)"

section \<open>Parsing frames\<close>

text \<open>\<open>Lock\<close> and \<open>Unlock\<close> are those of \<open>conns_mutex_\<close>.\<close>

datatype ws_effect =
    Lock
  | Unlock
  | OnMessage int bytes
  | OnConnect int
  | OnDisconnect int
  | Write int bytes
  | CloseFd int
  | EpollAdd int
  | EpollDel int

datatype ws_status = Ws_done | Ws_length_error

text \<open>The payload length and the size of the header, if the header is complete.\<close>

definition ws_length :: "bytes \<Rightarrow> (u64 \<times> nat) option" where
  "ws_length b =
     (let len7 = b ! 1 AND 0x7F in
      if len7 = 126
      then if length b < 4 then None
           else Some (push_bit 8 (ucast (b ! 2)) OR ucast (b ! 3), 4)
      else if len7 = 127
      then if length b < 10 then None
           else Some (fold (\<lambda>i n. push_bit 8 n OR ucast (b ! (2 + i))) [0..<8] 0, 10)
      else Some (ucast len7, 2))"

definition string_max_size :: nat where
  "string_max_size = 2 ^ 63 - 1"

definition ws_masked :: "bytes \<Rightarrow> bool" where
  "ws_masked b \<longleftrightarrow> b ! 1 AND 0x80 \<noteq> 0"

text \<open>\<open>total\<close> is a \<open>size_t\<close> and wraps.\<close>

definition ws_total :: "bytes \<Rightarrow> u64 \<Rightarrow> nat \<Rightarrow> u64" where
  "ws_total b payload_len header_size =
     of_nat header_size + (if ws_masked b then 4 else 0) + payload_len"

definition ws_payload :: "bytes \<Rightarrow> nat \<Rightarrow> nat \<Rightarrow> bytes" where
  "ws_payload b n header_size =
     (if ws_masked b
      then let mask_key = map (\<lambda>i. b ! (header_size + i)) [0..<4] in
        map (\<lambda>i. b ! (header_size + 4 + i) XOR mask_key ! (i mod 4)) [0..<n]
      else map (\<lambda>i. b ! (header_size + i)) [0..<n])"

definition pong_writes :: "int \<Rightarrow> u64 \<Rightarrow> bytes \<Rightarrow> ws_effect list" where
  "pong_writes fd payload_len payload =
     Write fd [0x8A, ucast (payload_len AND 0x7F)] # (if payload \<noteq> [] then [Write fd payload] else [])"

function parse_ws_frames :: "int \<Rightarrow> bytes \<Rightarrow> ws_effect list \<times> bytes \<times> ws_status" where
  "parse_ws_frames fd b =
     (if length b < 2 then ([], b, Ws_done)
      else let opcode = b ! 0 AND 0x0F in
      case ws_length b of
        None \<Rightarrow> ([], b, Ws_done)
      | Some (payload_len, header_size) \<Rightarrow>
          let total = ws_total b payload_len header_size in
          if length b < unat total then ([], b, Ws_done)
          else if unat payload_len > string_max_size then ([], b, Ws_length_error)
          else
            let payload = ws_payload b (unat payload_len) header_size;
                b' = drop (unat total) b
            in if opcode = 0x1
               then let (effs, r, st) = parse_ws_frames fd b' in (OnMessage fd payload # effs, r, st)
               else if opcode = 0x8 then ([CloseFd fd], b', Ws_done)
               else if opcode = 0x9
               then let (effs, r, st) = parse_ws_frames fd b' in (pong_writes fd payload_len payload @ effs, r, st)
               else parse_ws_frames fd b')"
  by pat_completeness auto

text \<open>Where the loop goes on, the total does not wrap, so the frame is consumed.\<close>

lemma ws_total_exact:
  assumes "ws_length b = Some (n, h)" and "unat n \<le> string_max_size"
  shows "unat (ws_total b n h) = h + (if ws_masked b then 4 else 0) + unat n" and "2 \<le> h" and "h \<le> 10"
proof -
  show h: "2 \<le> h" "h \<le> 10"
    using assms(1) by (auto simp: ws_length_def Let_def split: if_splits)
  have "ws_total b n h = of_nat (h + (if ws_masked b then 4 else 0) + unat n)"
    by (simp add: ws_total_def)
  moreover have "h + (if ws_masked b then 4 else 0) + unat n < 2 ^ 64"
    using h assms(2) by (simp add: string_max_size_def)
  ultimately show "unat (ws_total b n h) = h + (if ws_masked b then 4 else 0) + unat n"
    by (simp only: unat_of_nat_u64)
qed

lemma ws_total_pos:
  "ws_length b = Some (n, h) \<Longrightarrow> \<not> string_max_size < unat n \<Longrightarrow> \<not> length b < 2 \<Longrightarrow>
   length b - unat (ws_total b n h) < length b"
  using ws_total_exact [of b n h] by simp

termination parse_ws_frames
  by (relation "measure (\<lambda>(fd, b). length b)") (auto intro: ws_total_pos)

declare parse_ws_frames.simps [simp del]

section \<open>The opening handshake\<close>

record ws_connection =
  conn_fd :: int
  handshake_done :: bool
  recv_buf :: bytes
  ws_buf :: bytes

definition WsConnection :: "int \<Rightarrow> ws_connection" where
  "WsConnection fd = \<lparr>conn_fd = fd, handshake_done = False, recv_buf = [], ws_buf = []\<rparr>"

text \<open>\<open>std::string::find(pat, pos)\<close>.\<close>

definition str_find :: "bytes \<Rightarrow> bytes \<Rightarrow> nat \<Rightarrow> nat option" where
  "str_find pat s pos =
     List.find (\<lambda>i. i + length pat \<le> length s \<and> take (length pat) (drop i s) = pat) [pos..<Suc (length s)]"

definition crlf :: bytes where
  "crlf = [13, 10]"

definition key_header :: bytes where
  "key_header = ascii ''Sec-WebSocket-Key:''"

definition ws_guid :: bytes where
  "ws_guid = ascii ''258EAFA5-E914-47DA-95CA-C5AB0DC85B11''"

definition ws_request_key :: "bytes \<Rightarrow> bytes option" where
  "ws_request_key req =
     (case str_find key_header req 0 of
        None \<Rightarrow> None
      | Some p \<Rightarrow>
          let pos0 = p + length key_header;
              pos = pos0 + length (takeWhile (\<lambda>c. c = 32) (drop pos0 req))
          in case str_find crlf req pos of
               None \<Rightarrow> None
             | Some e \<Rightarrow> Some (take (e - pos) (drop pos req)))"

definition ws_response :: "bytes \<Rightarrow> bytes" where
  "ws_response accept =
     ascii ''HTTP/1.1 101 Switching Protocols'' @ crlf @
     ascii ''Upgrade: websocket'' @ crlf @
     ascii ''Connection: Upgrade'' @ crlf @
     ascii ''Sec-WebSocket-Accept: '' @ accept @ crlf @
     crlf"

text \<open>\<open>sha1_base64\<close> of the code, with OpenSSL's \<open>SHA1\<close> and its base64 filter that puts in no line breaks: what
  the following definitions are given as \<open>sha1_base64\<close>.\<close>

definition ws_sha1_base64 :: "(bytes \<Rightarrow> bytes) \<Rightarrow> (bytes \<Rightarrow> bytes) \<Rightarrow> bytes \<Rightarrow> bytes" where
  "ws_sha1_base64 SHA1 base64_no_nl input = base64_no_nl (SHA1 input)"

text \<open>\<open>wr\<close> is what \<open>write\<close> returns for the response.\<close>

definition do_ws_handshake ::
    "(bytes \<Rightarrow> bytes) \<Rightarrow> (bytes \<Rightarrow> int) \<Rightarrow> ws_connection \<Rightarrow> ws_effect list \<times> bool" where
  "do_ws_handshake sha1_base64 wr conn =
     (case ws_request_key (recv_buf conn) of
        None \<Rightarrow> ([], False)
      | Some ws_key \<Rightarrow>
          let response = ws_response (sha1_base64 (ws_key @ ws_guid))
          in ([Write (conn_fd conn) response], wr response = int (length response)))"

section \<open>Clients\<close>

type_synonym ws_conns = "int \<rightharpoonup> ws_connection"

text \<open>What \<open>read\<close> returns: bytes, end of file, \<open>EAGAIN\<close>, or another error.  When the list of results is
  used up the next one is \<open>EAGAIN\<close>.\<close>

datatype read_result = RData bytes | REof | RAgain | RError

definition disconnect :: "int \<Rightarrow> ws_conns \<Rightarrow> ws_effect list \<times> ws_conns \<times> ws_status" where
  "disconnect fd conns =
     ([Lock, Unlock, EpollDel fd, CloseFd fd, OnDisconnect fd], conns(fd := None), Ws_done)"

fun handle_client ::
    "(bytes \<Rightarrow> bytes) \<Rightarrow> (bytes \<Rightarrow> int) \<Rightarrow> int \<Rightarrow> ws_conns \<Rightarrow> read_result list \<Rightarrow>
     ws_effect list \<times> ws_conns \<times> ws_status" where
  "handle_client sha wr fd conns [] = ([], conns, Ws_done)"
| "handle_client sha wr fd conns (RAgain # rs) = ([], conns, Ws_done)"
| "handle_client sha wr fd conns (RError # rs) = disconnect fd conns"
| "handle_client sha wr fd conns (REof # rs) = disconnect fd conns"
| "handle_client sha wr fd conns (RData d # rs) =
     (case conns fd of
        None \<Rightarrow> ([Lock, Unlock], conns, Ws_done)
      | Some conn \<Rightarrow>
          if \<not> handshake_done conn
          then let conn1 = conn\<lparr>recv_buf := recv_buf conn @ d\<rparr> in
            if str_find (crlf @ crlf) (recv_buf conn1) 0 \<noteq> None
            then let (effs, ok) = do_ws_handshake sha wr conn1 in
              if \<not> ok
              then let (effs', conns', st) = disconnect fd (conns(fd \<mapsto> conn1))
                   in (Lock # effs @ Unlock # effs', conns', st)
              else let (effs', conns', st) = handle_client sha wr fd (conns(fd \<mapsto> conn1\<lparr>handshake_done := True\<rparr>)) rs
                   in (Lock # effs @ OnConnect fd # Unlock # effs', conns', st)
            else let (effs', conns', st) = handle_client sha wr fd (conns(fd \<mapsto> conn1)) rs
                 in (Lock # Unlock # effs', conns', st)
          else let (effs, r, st) = parse_ws_frames (conn_fd conn) (ws_buf conn @ d);
                   conns1 = conns(fd \<mapsto> conn\<lparr>ws_buf := r\<rparr>)
            in if st = Ws_length_error then (Lock # effs @ [Unlock], conns1, st)
               else let (effs', conns', st') = handle_client sha wr fd conns1 rs
                    in (Lock # effs @ Unlock # effs', conns', st'))"

text \<open>The descriptors \<open>accept\<close> returns until it fails.\<close>

fun accept_client :: "ws_conns \<Rightarrow> int list \<Rightarrow> ws_effect list \<times> ws_conns" where
  "accept_client conns [] = ([], conns)"
| "accept_client conns (cfd # cfds) =
     (let (effs, conns') = accept_client (conns(cfd \<mapsto> WsConnection cfd)) cfds
      in (EpollAdd cfd # Lock # Unlock # effs, conns'))"

definition ws_send :: "ws_conns \<Rightarrow> int \<Rightarrow> bytes \<Rightarrow> ws_effect list" where
  "ws_send conns conn_id msg =
     [Lock] @ (case conns conn_id of Some _ \<Rightarrow> [Write conn_id (build_ws_frame msg)] | None \<Rightarrow> []) @ [Unlock]"

text \<open>\<open>order\<close> is the iteration order of the connection table.\<close>

definition ws_broadcast :: "int list \<Rightarrow> ws_conns \<Rightarrow> bytes \<Rightarrow> ws_effect list" where
  "ws_broadcast order conns msg =
     [Lock] @
     map (\<lambda>fd. Write fd (build_ws_frame msg))
       (filter (\<lambda>fd. case conns fd of Some c \<Rightarrow> handshake_done c | None \<Rightarrow> False) order) @
     [Unlock]"

section \<open>The mutex\<close>

text \<open>A thread's run over its effects: locking a mutex it already holds never returns, and unlocking one it
  does not hold is undefined.\<close>

fun mutex_run :: "bool \<Rightarrow> ws_effect list \<Rightarrow> bool option" where
  "mutex_run held [] = Some held"
| "mutex_run held (Lock # es) = (if held then None else mutex_run True es)"
| "mutex_run held (Unlock # es) = (if held then mutex_run False es else None)"
| "mutex_run held (e # es) = mutex_run held es"

text \<open>The effects together with those of the callbacks they invoke.\<close>

definition with_callbacks :: "(ws_effect \<Rightarrow> ws_effect list) \<Rightarrow> ws_effect list \<Rightarrow> ws_effect list" where
  "with_callbacks h es = concat (map (\<lambda>e. e # h e) es)"

section \<open>Frames as RFC 6455 defines them\<close>

text \<open>A frame with first byte \<open>b0\<close>, masked with a key if it comes from a client.\<close>

definition mask_bytes :: "bytes option \<Rightarrow> bytes \<Rightarrow> bytes" where
  "mask_bytes mk msg =
     (case mk of None \<Rightarrow> msg
      | Some k \<Rightarrow> k @ map (\<lambda>i. msg ! i XOR k ! (i mod 4)) [0..<length msg])"

definition len_bytes :: "u8 \<Rightarrow> nat \<Rightarrow> bytes" where
  "len_bytes m n =
     (if n < 126 then [of_nat n OR m]
      else if n < 2 ^ 16 then [126 OR m, byte_at 1 (of_nat n :: u64), byte_at 0 (of_nat n :: u64)]
      else (127 OR m) # map (\<lambda>i. byte_at (7 - i) (of_nat n :: u64)) [0..<8])"

definition ws_frame :: "u8 \<Rightarrow> bytes option \<Rightarrow> bytes \<Rightarrow> bytes" where
  "ws_frame b0 mk msg = b0 # len_bytes (if mk = None then 0 else 0x80) (length msg) @ mask_bytes mk msg"

lemma low_byte:
  fixes w :: u8
  assumes "unat w < 128"
  shows "(w OR 0x80) AND 0x7F = w" "w AND 0x7F = w" "(w OR 0x80) AND 0x80 \<noteq> 0" "w AND 0x80 = 0"
proof -
  have "take_bit 7 w = w"
    using assms by (simp add: word_unat_eq_iff unsigned_take_bit_eq take_bit_nat_eq_self)
  then show 7: "w AND 0x7F = w" by (simp add: take_bit_eq_mask mask_eq_exp_minus_1)
  have "(w OR 0x80) AND 0x7F = w AND 0x7F" by (simp add: bit.conj_disj_distrib2)
  with 7 show "(w OR 0x80) AND 0x7F = w" by simp
  have "w AND 0x80 = (w AND 0x7F) AND 0x80" using 7 by simp
  then show "w AND 0x80 = 0" by (simp add: and.assoc)
  have "(w OR 0x80) AND 0x80 = (w AND 0x80) OR 0x80" by (simp add: bit.conj_disj_distrib2)
  also have "\<dots> = 0x80" using \<open>w AND 0x80 = 0\<close> by simp
  finally show "(w OR 0x80) AND 0x80 \<noteq> 0" by simp
qed

lemma join_bytes_16:
  fixes w :: u64
  assumes "unat w < 2 ^ 16"
  shows "push_bit 8 (ucast (byte_at 1 w)) OR ucast (byte_at 0 w) = w"
proof -
  have "take_bit 16 w = w"
    using assms by (simp add: word_unat_eq_iff unsigned_take_bit_eq take_bit_nat_eq_self)
  then have hi: "bit w n \<Longrightarrow> n < 16" for n by (metis bit_take_bit_iff)
  show ?thesis
    by (rule bit_word_eqI) (auto simp: bit_simps bit_byte_at not_less le_iff_add dest: hi)
qed

lemma join_bytes_64:
  fixes w :: u64
  shows "fold (\<lambda>i n. push_bit 8 n OR ucast (byte_at (7 - i) w)) [0..<8] 0 = w"
proof -
  have "m \<le> 8 \<Longrightarrow> fold (\<lambda>i n. push_bit 8 n OR ucast (byte_at (7 - i) w)) [0..<m] 0 = drop_bit (64 - 8 * m) w" for m
  proof (induction m)
    case 0
    show ?case by (rule bit_word_eqI) (simp add: bit_simps)
  next
    case (Suc m)
    then have m: "m \<le> 7" by simp
    have "push_bit 8 (drop_bit (64 - 8 * m) w) OR ucast (byte_at (7 - m) w) = drop_bit (64 - 8 * Suc m) w"
    proof (rule bit_word_eqI)
      fix i assume "i < LENGTH(64)"
      moreover have "8 * (7 - m) + i = 64 - 8 * Suc m + i" using m by auto
      moreover have "i \<ge> 8 \<Longrightarrow> 64 - 8 * m + (i - 8) = 64 - 8 * Suc m + i" using m by auto
      ultimately show "bit (push_bit 8 (drop_bit (64 - 8 * m) w) OR ucast (byte_at (7 - m) w)) i \<longleftrightarrow>
          bit (drop_bit (64 - 8 * Suc m) w) i"
        by (auto simp: bit_or_iff bit_push_bit_iff bit_drop_bit_eq bit_ucast_iff bit_byte_at not_less
            dest: bit_imp_le_length)
    qed
    with Suc show ?case by simp
  qed
  from this [of 8] show ?thesis by simp
qed

lemma build_is_frame:
  assumes "length msg < 2 ^ 63"
  shows "build_ws_frame msg = ws_frame 0x81 None msg"
proof -
  have n: "unat (of_nat (length msg) :: u64) = length msg" using assms by (intro unat_of_nat_u64) simp
  have "(of_nat (length msg) :: u64) < 126 \<longleftrightarrow> length msg < 126"
    "(of_nat (length msg) :: u64) \<le> 0xFFFF \<longleftrightarrow> length msg < 2 ^ 16"
    by (auto simp: word_less_nat_alt word_le_nat_alt n)
  moreover have "ucast (of_nat (length msg) :: u64) = (of_nat (length msg) :: u8)"
    using assms by (simp add: unsigned_of_nat take_bit_nat_eq_self)
  ultimately show ?thesis
    by (auto simp: build_ws_frame_def ws_frame_def len_bytes_def mask_bytes_def Let_def)
qed

text \<open>What the parser reads at the start of a frame.\<close>

lemma frame_head:
  fixes b0 :: u8 and mk :: "bytes option" and rest :: bytes
  assumes len: "length msg < 2 ^ 63"
  defines "h \<equiv> 1 + length (len_bytes (if mk = None then 0 else 0x80) (length msg))"
  shows "ws_length (ws_frame b0 mk msg @ rest) = Some (of_nat (length msg), h)"
    and "ws_masked (ws_frame b0 mk msg @ rest) \<longleftrightarrow> mk \<noteq> None"
proof -
  let ?n = "length msg" and ?m = "if mk = None then 0 else 0x80 :: u8" and ?b = "ws_frame b0 mk msg @ rest"
  have n: "unat (of_nat ?n :: u64) = ?n" using len by (intro unat_of_nat_u64) simp
  have m: "(w OR ?m) AND 0x7F = w" "(w OR ?m) AND 0x80 \<noteq> 0 \<longleftrightarrow> mk \<noteq> None" if "unat w < 128" for w :: u8
    using low_byte [OF that] by simp_all
  consider (short) "?n < 126" | (medium) "126 \<le> ?n" "?n < 2 ^ 16" | (long) "2 ^ 16 \<le> ?n" by linarith
  then have "ws_length ?b = Some (of_nat ?n, h) \<and> (ws_masked ?b \<longleftrightarrow> mk \<noteq> None)"
  proof cases
    case short
    then have u: "unat (of_nat ?n :: u8) = ?n" by (simp add: unat_of_nat)
    then have "(of_nat ?n :: u8) \<noteq> 126" "(of_nat ?n :: u8) \<noteq> 127" using short by auto
    moreover have "ucast (of_nat ?n :: u8) = (of_nat ?n :: u64)"
      using short by (simp add: unsigned_of_nat take_bit_nat_eq_self)
    moreover have "?b ! 1 = of_nat ?n OR ?m" using short by (simp add: ws_frame_def len_bytes_def)
    ultimately show ?thesis
      using m [of "of_nat ?n"] short u by (simp add: ws_length_def ws_masked_def Let_def h_def len_bytes_def)
  next
    case medium
    have "?b ! 1 = 126 OR ?m" "?b ! 2 = byte_at 1 (of_nat ?n :: u64)" "?b ! 3 = byte_at 0 (of_nat ?n :: u64)"
      "\<not> length ?b < 4"
      using medium by (simp_all add: ws_frame_def len_bytes_def)
    then show ?thesis
      using m [of 126] medium join_bytes_16 [of "of_nat ?n"] n
      by (simp add: ws_length_def ws_masked_def Let_def h_def len_bytes_def)
  next
    case long
    have "?b ! (2 + i) = byte_at (7 - i) (of_nat ?n :: u64)" if "i < 8" for i
      using long that by (simp add: ws_frame_def len_bytes_def nth_append)
    then have "fold (\<lambda>i n. push_bit 8 n OR ucast (?b ! (2 + i))) [0..<8] 0 =
        fold (\<lambda>i n. push_bit 8 n OR ucast (byte_at (7 - i) (of_nat ?n :: u64))) [0..<8] (0 :: u64)"
      by (intro fold_cong) auto
    moreover have "?b ! 1 = 127 OR ?m" "\<not> length ?b < 10"
      using long by (simp_all add: ws_frame_def len_bytes_def)
    ultimately show ?thesis
      using m [of 127] long join_bytes_64 [of "of_nat ?n"]
      by (simp only: ws_length_def ws_masked_def Let_def h_def len_bytes_def) simp
  qed
  then show "ws_length ?b = Some (of_nat ?n, h)" "ws_masked ?b \<longleftrightarrow> mk \<noteq> None" by blast+
qed

section \<open>Parsing what was framed\<close>

definition key_ok :: "bytes option \<Rightarrow> bool" where
  "key_ok mk \<longleftrightarrow> (case mk of None \<Rightarrow> True | Some k \<Rightarrow> length k = 4)"

lemma frame_payload:
  assumes "key_ok mk" and masked: "ws_masked (ws_frame b0 mk msg @ rest) \<longleftrightarrow> mk \<noteq> None"
  shows "ws_payload (ws_frame b0 mk msg @ rest) (length msg)
      (1 + length (len_bytes (if mk = None then 0 else 0x80) (length msg))) = msg"
proof -
  define h where "h = 1 + length (len_bytes (if mk = None then 0 else 0x80) (length msg))"
  define b where "b = ws_frame b0 mk msg @ rest"
  have masked': "ws_masked b \<longleftrightarrow> mk \<noteq> None" using masked by (simp add: b_def)
  have at: "b ! (h + i) = (mask_bytes mk msg @ rest) ! i" for i
    by (simp add: b_def h_def ws_frame_def nth_append)
  have "ws_payload b (length msg) h = msg"
  proof (cases mk)
    case None
    then have "ws_payload b (length msg) h = map (\<lambda>i. b ! (h + i)) [0..<length msg]"
      using masked' by (simp add: ws_payload_def)
    also have "\<dots> = msg"
      unfolding at by (rule nth_equalityI) (simp_all add: None mask_bytes_def nth_append)
    finally show ?thesis .
  next
    case (Some k)
    then have k: "length k = 4" using assms by (simp add: key_ok_def)
    have key: "b ! (h + i) = k ! i" if "i < 4" for i
      unfolding at using that k by (simp add: Some mask_bytes_def nth_append)
    have data: "b ! (h + 4 + i) = msg ! i XOR k ! (i mod 4)" if "i < length msg" for i
      using at [of "4 + i"] that k by (simp add: Some mask_bytes_def nth_append add.assoc)
    have "map (\<lambda>i. b ! (h + i)) [0..<4] = k"
      by (rule nth_equalityI) (simp_all add: k key del: upt_conv_Cons)
    then have "ws_payload b (length msg) h = map (\<lambda>i. b ! (h + 4 + i) XOR k ! (i mod 4)) [0..<length msg]"
      using masked' Some by (simp add: ws_payload_def Let_def)
    also have "\<dots> = msg"
      by (rule nth_equalityI) (simp_all add: data xor.assoc)
    finally show ?thesis .
  qed
then show ?thesis by (simp only: b_def h_def)
qed

lemma parse_frame:
  assumes "length msg < 2 ^ 63" and "key_ok mk" and "b0 AND 0x0F = 1"
  shows "parse_ws_frames fd (ws_frame b0 mk msg @ rest) =
    (let (effs, r, st) = parse_ws_frames fd rest in (OnMessage fd msg # effs, r, st))"
proof -
  let ?b = "ws_frame b0 mk msg @ rest"
  let ?h = "1 + length (len_bytes (if mk = None then 0 else 0x80) (length msg))"
  note head = frame_head [OF assms(1), of b0 mk rest]
  have n: "unat (of_nat (length msg) :: u64) = length msg" using assms(1) by (intro unat_of_nat_u64) simp
  have small: "unat (of_nat (length msg) :: u64) \<le> string_max_size"
    using assms(1) by (simp add: n string_max_size_def)
  have total: "unat (ws_total ?b (of_nat (length msg)) ?h) = length (ws_frame b0 mk msg)"
    using ws_total_exact(1) [OF head(1) small] assms(2) unfolding head(2)
    by (auto simp: n ws_frame_def mask_bytes_def key_ok_def split: option.splits)
  have "\<not> length ?b < 2" by (simp add: ws_frame_def len_bytes_def)
  moreover have "?b ! 0 AND 0x0F = 1" using assms(3) by (simp add: ws_frame_def)
  moreover have "ws_payload ?b (length msg) ?h = msg" by (rule frame_payload [OF assms(2) head(2)])
  ultimately show ?thesis
    using head(1) small total n by (subst parse_ws_frames.simps) (simp add: Let_def not_less)
qed

lemma parse_frames:
  assumes "\<forall>(mk, msg)\<in>set fs. key_ok mk \<and> length msg < 2 ^ 63"
  shows "parse_ws_frames fd (concat (map (\<lambda>(mk, msg). ws_frame 0x81 mk msg) fs)) =
    (map (\<lambda>(_, msg). OnMessage fd msg) fs, [], Ws_done)"
  using assms
proof (induction fs)
  case Nil
  show ?case by (subst parse_ws_frames.simps) simp
next
  case (Cons f fs)
  obtain mk msg where f: "f = (mk, msg)" by (cases f)
  have "(0x81 :: u8) AND 0x0F = 1" by simp
  then show ?case
    using Cons parse_frame [of msg mk "0x81" fd] by (simp add: f)
qed

section \<open>Frames that arrive in pieces\<close>

text \<open>More bytes behind a complete frame do not change how it is read.\<close>

lemma frame_extend:
  assumes "\<not> length b < 2" and "ws_length b = Some (n, h)" and "\<not> length b < unat (ws_total b n h)"
    and "\<not> string_max_size < unat n"
  shows "ws_payload (b @ c) (unat n) h = ws_payload b (unat n) h"
    and "drop (unat (ws_total b n h)) (b @ c) = drop (unat (ws_total b n h)) b @ c"
proof -
  note t = ws_total_exact(1) [OF assms(2)]
  have m: "ws_masked (b @ c) \<longleftrightarrow> ws_masked b" using assms(1) by (simp add: ws_masked_def nth_append)
  have "h + (if ws_masked b then 4 else 0) + unat n \<le> length b" using t assms(3,4) by simp
  then show "ws_payload (b @ c) (unat n) h = ws_payload b (unat n) h"
    by (auto simp: ws_payload_def m nth_append Let_def intro!: nth_equalityI split: if_splits)
  show "drop (unat (ws_total b n h)) (b @ c) = drop (unat (ws_total b n h)) b @ c"
    using assms(3) by simp
qed

lemma head_extend:
  assumes "\<not> length b < 2" and "ws_length b = Some (n, h)"
  shows "ws_length (b @ c) = Some (n, h)" and "ws_total (b @ c) n h = ws_total b n h" and "(b @ c) ! 0 = b ! 0"
proof -
  have 1: "(b @ c) ! 1 = b ! 1" using assms(1) by (simp add: nth_append)
  have "fold (\<lambda>i n. push_bit 8 n OR ucast ((b @ c) ! (2 + i))) [0..<8] 0 =
      fold (\<lambda>i n. push_bit 8 n OR ucast (b ! (2 + i))) [0..<8] (0 :: u64)" if "\<not> length b < 10"
    using that by (intro fold_cong) (auto simp: nth_append)
  with assms show "ws_length (b @ c) = Some (n, h)"
    by (auto simp: ws_length_def Let_def 1 nth_append split: if_splits)
  show "ws_total (b @ c) n h = ws_total b n h" by (simp only: ws_total_def ws_masked_def 1)
  show "(b @ c) ! 0 = b ! 0" using assms(1) by (cases b) (simp_all add: nth_append)
qed

definition prepend :: "'e list \<Rightarrow> 'e list \<times> 'b \<times> 's \<Rightarrow> 'e list \<times> 'b \<times> 's" where
  "prepend es p = (case p of (effs, r, st) \<Rightarrow> (es @ effs, r, st))"

lemma prepend_simps [simp]:
  "prepend es (effs, r, st) = (es @ effs, r, st)" "fst (prepend es p) = es @ fst p"
  "snd (prepend es p) = snd p" "prepend [] p = p" "prepend es (prepend es' p) = prepend (es @ es') p"
  by (simp_all add: prepend_def split: prod.split)

definition frame_effects :: "ws_effect list \<Rightarrow> ws_effect list" where
  "frame_effects es = filter (\<lambda>e. e \<noteq> Lock \<and> e \<noteq> Unlock) es"

lemma frame_effects_simps [simp]:
  "frame_effects [] = []" "frame_effects (Lock # es) = frame_effects es"
  "frame_effects (Unlock # es) = frame_effects es" "frame_effects (es @ es') = frame_effects es @ frame_effects es'"
  by (simp_all add: frame_effects_def)

text \<open>What one round of the loop does, and that it does the same with more bytes behind.\<close>

lemma parse_round:
  obtains (stop) "parse_ws_frames fd b = ([], b, Ws_done)"
  | (throw) "parse_ws_frames fd b = ([], b, Ws_length_error)"
      "parse_ws_frames fd (b @ c) = ([], b @ c, Ws_length_error)"
  | (close) b' where "parse_ws_frames fd b = ([CloseFd fd], b', Ws_done)"
      "parse_ws_frames fd (b @ c) = ([CloseFd fd], b' @ c, Ws_done)"
  | (go) es b' where "length b' < length b" "CloseFd fd \<notin> set es" "frame_effects es = es"
      "parse_ws_frames fd b = prepend es (parse_ws_frames fd b')"
      "parse_ws_frames fd (b @ c) = prepend es (parse_ws_frames fd (b' @ c))"
proof (cases "length b < 2 \<or> ws_length b = None")
  case True
  then have "parse_ws_frames fd b = ([], b, Ws_done)"
    by (subst parse_ws_frames.simps) auto
  then show ?thesis by (rule stop)
next
  case False
  then obtain n h where len: "\<not> length b < 2" and w: "ws_length b = Some (n, h)" by auto
  note ext = head_extend [OF len w, of c]
  have len': "\<not> length (b @ c) < 2" using len by simp
  let ?t = "unat (ws_total b n h)"
  show ?thesis
  proof (cases "length b < ?t")
    case True
    with len w have "parse_ws_frames fd b = ([], b, Ws_done)"
      by (subst parse_ws_frames.simps) (simp add: Let_def)
    then show ?thesis by (rule stop)
  next
    case complete: False
    then have complete': "\<not> length (b @ c) < ?t" by simp
    show ?thesis
    proof (cases "unat n > string_max_size")
      case True
      with len w complete have "parse_ws_frames fd b = ([], b, Ws_length_error)"
        by (subst parse_ws_frames.simps) (simp add: Let_def)
      moreover have "parse_ws_frames fd (b @ c) = ([], b @ c, Ws_length_error)"
        using len' complete' True by (subst parse_ws_frames.simps) (simp add: ext Let_def)
      ultimately show ?thesis by (rule throw)
    next
      case small: False
      let ?p = "ws_payload b (unat n) h" and ?b = "drop ?t b" and ?op = "b ! 0 AND 0x0F"
      have round: "parse_ws_frames fd b =
          (if ?op = 0x1 then prepend [OnMessage fd ?p] (parse_ws_frames fd ?b)
           else if ?op = 0x8 then ([CloseFd fd], ?b, Ws_done)
           else if ?op = 0x9 then prepend (pong_writes fd n ?p) (parse_ws_frames fd ?b)
           else prepend [] (parse_ws_frames fd ?b))"
        using len w complete small by (subst parse_ws_frames.simps) (simp add: Let_def prepend_def)
      have "parse_ws_frames fd (b @ c) =
          (if ?op = 0x1 then prepend [OnMessage fd ?p] (parse_ws_frames fd (?b @ c))
           else if ?op = 0x8 then ([CloseFd fd], ?b @ c, Ws_done)
           else if ?op = 0x9 then prepend (pong_writes fd n ?p) (parse_ws_frames fd (?b @ c))
           else prepend [] (parse_ws_frames fd (?b @ c)))"
        using len' complete' small frame_extend [OF len w complete small, of c]
        by (subst parse_ws_frames.simps) (simp add: Let_def prepend_def ext del: drop_append)
      note round' = this
      have "length ?b < length b" using ws_total_pos [OF w small len] by simp
      moreover have "CloseFd fd \<notin> set (pong_writes fd n ?p)"
        "frame_effects (pong_writes fd n ?p) = pong_writes fd n ?p" "frame_effects [OnMessage fd ?p] = [OnMessage fd ?p]"
        by (simp_all add: pong_writes_def frame_effects_def)
      ultimately show ?thesis
        using round round' close [of ?b] go [of ?b "[OnMessage fd ?p]"] go [of ?b "pong_writes fd n ?p"]
          go [of ?b "[]"] by (simp split: if_splits)
    qed
  qed
qed

lemma parse_extend:
  "case parse_ws_frames fd b of (effs, r, st) \<Rightarrow>
     if st = Ws_length_error then snd (snd (parse_ws_frames fd (b @ c))) = Ws_length_error
     else if CloseFd fd \<in> set effs then CloseFd fd \<in> set (fst (parse_ws_frames fd (b @ c)))
     else parse_ws_frames fd (b @ c) = prepend effs (parse_ws_frames fd (r @ c))"
proof (induction "length b" arbitrary: b rule: less_induct)
  case less
  show ?case
  proof (cases rule: parse_round [where fd = fd and b = b and c = c])
    case (go es b')
    with less.hyps [of b'] show ?thesis
      by (cases "parse_ws_frames fd b'") (auto split: if_splits)
  qed simp_all
qed

lemma parse_no_locks:
  "frame_effects (fst (parse_ws_frames fd b)) = fst (parse_ws_frames fd b)"
proof (induction "length b" arbitrary: b rule: less_induct)
  case less
  show ?case
  proof (cases rule: parse_round [where fd = fd and b = b and c = "[]"])
    case (go es b')
    then show ?thesis using less.hyps [OF go(1)] by simp
  qed (simp_all add: frame_effects_def)
qed

text \<open>What is left in the buffer does not hold a complete frame.\<close>

lemma parse_rest:
  "parse_ws_frames fd b = (effs, r, Ws_done) \<Longrightarrow> CloseFd fd \<notin> set effs \<Longrightarrow>
   parse_ws_frames fd r = ([], r, Ws_done)"
proof (induction "length b" arbitrary: b effs rule: less_induct)
  case less
  show ?case
  proof (cases rule: parse_round [where fd = fd and b = b and c = "[]"])
    case (go es b')
    obtain effs' where "parse_ws_frames fd b' = (effs', r, Ws_done)" "effs = es @ effs'"
      using go(4) less.prems(1) by (cases "parse_ws_frames fd b'") auto
    then show ?thesis using less.hyps [OF go(1)] less.prems(2) by simp
  qed (use less.prems in auto)
qed

text \<open>However the bytes are cut into reads, the client's frames are treated as if they came at once.\<close>

lemma handle_chunks:
  assumes "parse_ws_frames fd (ws_buf c @ concat ds) = (effs, r, Ws_done)" and "CloseFd fd \<notin> set effs"
    and "conns fd = Some c" and "conn_fd c = fd" and "handshake_done c"
    and "parse_ws_frames fd (ws_buf c) = ([], ws_buf c, Ws_done)"
  shows "\<exists>es. handle_client sha wr fd conns (map RData ds) = (es, conns(fd \<mapsto> c\<lparr>ws_buf := r\<rparr>), Ws_done) \<and>
    frame_effects es = effs"
  using assms
proof (induction ds arbitrary: c conns effs)
  case Nil
  then have "c\<lparr>ws_buf := r\<rparr> = c" "effs = []" by simp_all
  then show ?case using Nil by (simp add: fun_upd_idem)
next
  case (Cons d ds)
  let ?b = "ws_buf c @ d"
  obtain e1 r1 st where first: "parse_ws_frames fd ?b = (e1, r1, st)" by (cases "parse_ws_frames fd ?b") auto
  have whole: "parse_ws_frames fd (?b @ concat ds) = (effs, r, Ws_done)" using Cons.prems(1) by simp
  have st: "st = Ws_done" and no: "CloseFd fd \<notin> set e1"
    using parse_extend [of fd ?b "concat ds"] Cons.prems(2) unfolding first whole
    by (cases st; simp split: if_splits)+
  have "parse_ws_frames fd (?b @ concat ds) = prepend e1 (parse_ws_frames fd (r1 @ concat ds))"
    using parse_extend [of fd ?b "concat ds"] unfolding first by (simp add: st no)
  then obtain e2 where e2: "parse_ws_frames fd (r1 @ concat ds) = (e2, r, Ws_done)" "effs = e1 @ e2"
    using whole by (cases "parse_ws_frames fd (r1 @ concat ds)") auto
  let ?c = "c\<lparr>ws_buf := r1\<rparr>"
  have "parse_ws_frames fd r1 = ([], r1, Ws_done)" using parse_rest [of fd ?b e1 r1] first st no by simp
  then have "\<exists>es. handle_client sha wr fd (conns(fd \<mapsto> ?c)) (map RData ds) =
      (es, (conns(fd \<mapsto> ?c))(fd \<mapsto> ?c\<lparr>ws_buf := r\<rparr>), Ws_done) \<and> frame_effects es = e2"
    by (intro Cons.IH) (use e2 Cons.prems(2,4,5) in simp_all)
  then obtain es where es: "frame_effects es = e2"
    "handle_client sha wr fd (conns(fd \<mapsto> ?c)) (map RData ds) = (es, conns(fd \<mapsto> c\<lparr>ws_buf := r\<rparr>), Ws_done)"
    by (simp only: fun_upd_upd ws_connection.simps) (erule exE, elim conjE, simp)
  have "frame_effects e1 = e1" using parse_no_locks [of fd ?b] first by simp
  then show ?case using Cons.prems(3-5) first st es e2(2) by (simp add: Let_def fun_eq_iff)
qed

lemma messages_delivered:
  assumes "\<forall>(mk, msg)\<in>set fs. key_ok mk \<and> length msg < 2 ^ 63"
    and "concat ds = concat (map (\<lambda>(mk, msg). ws_frame 0x81 mk msg) fs)"
    and "conns fd = Some c" and "conn_fd c = fd" and "handshake_done c" and "ws_buf c = []"
  shows "map_prod frame_effects id (handle_client sha wr fd conns (map RData ds)) =
    (map (\<lambda>(_, msg). OnMessage fd msg) fs, conns, Ws_done)"
proof -
  have "parse_ws_frames fd (ws_buf c @ concat ds) = (map (\<lambda>(_, msg). OnMessage fd msg) fs, [], Ws_done)"
    using parse_frames [OF assms(1)] assms(2,6) by simp
  moreover have "CloseFd fd \<notin> set (map (\<lambda>(_, msg). OnMessage fd msg) fs)" by auto
  moreover note assms(3-5)
  moreover have "parse_ws_frames fd (ws_buf c) = ([], ws_buf c, Ws_done)"
    by (subst parse_ws_frames.simps) (simp add: assms(6))
  ultimately have "\<exists>es. handle_client sha wr fd conns (map RData ds) = (es, conns(fd \<mapsto> c\<lparr>ws_buf := []\<rparr>), Ws_done) \<and>
      frame_effects es = map (\<lambda>(_, msg). OnMessage fd msg) fs"
    by (rule handle_chunks)
  moreover have "c\<lparr>ws_buf := []\<rparr> = c" using assms(6) by simp
  ultimately show ?thesis using assms(3) by (auto simp: fun_upd_idem)
qed

text \<open>C13. A client that has completed the handshake sends text messages of any sizes, each masked with a
  key of its own or unmasked.  However the stream is cut into the pieces that \<open>read\<close> returns,
  \<open>handle_client\<close> calls \<open>on_message_\<close> once for each message, in order, with the message's bytes, has no
  other effect (apart from taking and releasing the mutex), and leaves the buffer empty.\<close>

theorem ws_messages_delivered:
  assumes "\<forall>(mk, msg)\<in>set fs. key_ok mk \<and> length msg < 2 ^ 63"
    and "concat ds = concat (map (\<lambda>(mk, msg). ws_frame 0x81 mk msg) fs)"
    and "conns fd = Some c" and "conn_fd c = fd" and "handshake_done c" and "ws_buf c = []"
  shows "map_prod frame_effects id (handle_client sha wr fd conns (map RData ds)) =
    (map (\<lambda>(_, msg). OnMessage fd msg) fs, conns, Ws_done)"
  using assms by (rule messages_delivered)

lemma ws_messages_delivered_witness:
  "map_prod frame_effects id
     (handle_client id (\<lambda>_. 0) 5 [5 \<mapsto> \<lparr>conn_fd = 5, handshake_done = True, recv_buf = [], ws_buf = []\<rparr>]
       (map RData [[0x81, 0x82, 1, 2], [3, 4, 0x69, 0x6B, 0x81], [1, 0x41]])) =
   ([OnMessage 5 [0x68, 0x69], OnMessage 5 [0x41]],
    [5 \<mapsto> \<lparr>conn_fd = 5, handshake_done = True, recv_buf = [], ws_buf = []\<rparr>], Ws_done)"
proof -
  define fs where "fs = [(Some [1, 2, 3, 4], [0x68, 0x69]), (None :: bytes option, [0x41 :: u8])]"
  define ds where "ds = [[0x81, 0x82, 1, 2], [3, 4, 0x69, 0x6B, 0x81], [1, 0x41 :: u8]]"
  have "[0..<2] = [0, 1 :: nat]" by (simp add: upt_rec)
  then have "concat ds = concat (map (\<lambda>(mk, msg). ws_frame 0x81 mk msg) fs)"
    by (simp add: fs_def ds_def ws_frame_def len_bytes_def mask_bytes_def)
  moreover have "\<forall>(mk, msg)\<in>set fs. key_ok mk \<and> length msg < 2 ^ 63" by (simp add: fs_def key_ok_def)
  moreover have "map (\<lambda>(_, msg). OnMessage 5 msg) fs = [OnMessage 5 [0x68, 0x69], OnMessage 5 [0x41]]"
    by (simp add: fs_def)
  ultimately show ?thesis
    using ws_messages_delivered [of fs ds _ 5 "\<lparr>conn_fd = 5, handshake_done = True, recv_buf = [], ws_buf = []\<rparr>"]
    unfolding ds_def [symmetric] by (simp only: fun_upd_same ws_connection.simps simp_thms)
qed

text \<open>What \<open>build_ws_frame\<close> writes is an unmasked text frame of RFC 6455 with the shortest encoding of its
  length, and \<open>parse_ws_frames\<close> reads it back, whatever follows it.\<close>

theorem ws_build_parse:
  assumes "length msg < 2 ^ 63"
  shows "build_ws_frame msg = ws_frame 0x81 None msg \<and>
    parse_ws_frames fd (build_ws_frame msg @ rest) = prepend [OnMessage fd msg] (parse_ws_frames fd rest)"
proof -
  have 1: "build_ws_frame msg = ws_frame 0x81 None msg" by (rule build_is_frame [OF assms])
  have "(0x81 :: u8) AND 0x0F = 1" by simp
  with assms have "parse_ws_frames fd (build_ws_frame msg @ rest) =
      prepend [OnMessage fd msg] (parse_ws_frames fd rest)"
    unfolding 1 by (subst parse_frame) (simp_all add: key_ok_def prepend_def)
  with 1 show ?thesis by blast
qed

lemma ws_build_parse_witness:
  "build_ws_frame [0x68, 0x69] = [0x81, 2, 0x68, 0x69] \<and>
   parse_ws_frames 5 (build_ws_frame [0x68, 0x69] @ []) = ([OnMessage 5 [0x68, 0x69]], [], Ws_done)"
  using ws_build_parse [of "[0x68, 0x69]" 5 "[]"]
  by (fastforce simp: ws_frame_def len_bytes_def mask_bytes_def parse_ws_frames.simps [of 5 "[]"])

section \<open>The handshake\<close>

lemma find_crlf:
  assumes "13 \<notin> set key"
  shows "str_find crlf (p @ key @ crlf @ rest) (length p) = Some (length p + length key)"
proof -
  let ?s = "p @ key @ crlf @ rest" and ?is = "[length p..<Suc (length (p @ key @ crlf @ rest))]"
  have "take 2 (drop (length p + j) ?s) \<noteq> crlf" if "j < length key" for j
  proof -
    have "drop (length p + j) ?s = key ! j # drop (Suc j) key @ crlf @ rest"
      using that by (simp add: Cons_nth_drop_Suc)
    moreover have "key ! j \<noteq> 13" using assms that by (metis nth_mem)
    ultimately show ?thesis by (simp add: crlf_def numeral_2_eq_2)
  qed
  then have "\<not> take (length crlf) (drop (?is ! j) ?s) = crlf" if "j < length key" for j
    using that by (simp add: crlf_def numeral_2_eq_2 del: drop_append take_append upt_Suc)
  moreover have "?is ! length key = length p + length key" by (simp del: upt_Suc)
  moreover have "length key < length ?is" by (simp del: upt_Suc)
  moreover have "take (length crlf) (drop (length p + length key) ?s) = crlf" by simp
  ultimately show ?thesis
    unfolding str_find_def find_Some_iff by (intro exI [of _ "length key"]) auto
qed

lemma request_key:
  assumes "req = pre @ key_header @ replicate k 32 @ key @ crlf @ rest"
    and "str_find key_header req 0 = Some (length pre)" and "13 \<notin> set key" and "takeWhile (\<lambda>c. c = 32) key = []"
  shows "ws_request_key req = Some key"
proof -
  let ?p = "pre @ key_header @ replicate k 32"
  have "drop (length pre + length key_header) req = replicate k 32 @ key @ crlf @ rest"
    by (simp add: assms(1))
  moreover have "takeWhile (\<lambda>c. c = 32) (replicate k 32 @ key @ crlf @ rest) = replicate k 32"
    using assms(4) by (cases key) (auto simp: takeWhile_append crlf_def split: if_splits)
  ultimately have pos: "length pre + length key_header +
      length (takeWhile (\<lambda>c. c = 32) (drop (length pre + length key_header) req)) = length ?p"
    by simp
  have "str_find crlf req (length ?p) = Some (length ?p + length key)"
    using find_crlf [OF assms(3), of ?p rest] by (simp add: assms(1))
  moreover have "take (length key) (drop (length ?p) req) = key" by (simp add: assms(1))
  ultimately show ?thesis
    unfolding ws_request_key_def assms(2) by (simp only: option.case Let_def pos) simp
qed

text \<open>The handshake.  When the read completes the request's headers, the server answers 101 with the hash of
  the client's key and the GUID of RFC 6455, where the key is the value of the first \<open>Sec-WebSocket-Key:\<close>
  up to the end of its line, without leading spaces; the connection counts as open and \<open>on_connect_\<close> is
  called.  What follows the headers in the same read is left in \<open>recv_buf\<close>, where nothing reads it.\<close>

theorem ws_handshake:
  assumes "conns fd = Some c" and "conn_fd c = fd" and "\<not> handshake_done c"
    and "recv_buf c @ d = pre @ key_header @ replicate k 32 @ key @ crlf @ rest"
    and "str_find key_header (recv_buf c @ d) 0 = Some (length pre)"
    and "13 \<notin> set key" and "takeWhile (\<lambda>c. c = 32) key = []"
    and "str_find (crlf @ crlf) (recv_buf c @ d) 0 \<noteq> None"
  shows "handle_client sha (int \<circ> length) fd conns [RData d] =
    ([Lock, Write fd (ws_response (sha (key @ ws_guid))), OnConnect fd, Unlock],
     conns(fd \<mapsto> c\<lparr>recv_buf := recv_buf c @ d, handshake_done := True\<rparr>), Ws_done)"
proof -
  have "ws_request_key (recv_buf c @ d) = Some key" by (rule request_key [OF assms(4-7)])
  then have "do_ws_handshake sha (int \<circ> length) (c\<lparr>recv_buf := recv_buf c @ d\<rparr>) =
      ([Write fd (ws_response (sha (key @ ws_guid)))], True)"
    using assms(2) by (simp add: do_ws_handshake_def Let_def)
  then show ?thesis
    using assms(1,3,8) by (simp add: Let_def fun_eq_iff)
qed

lemma ws_handshake_witness:
  "handle_client id (int \<circ> length) 5 [5 \<mapsto> WsConnection 5]
     [RData (ascii ''Sec-WebSocket-Key: x3JJ'' @ crlf @ crlf)] =
   ([Lock, Write 5 (ws_response (ascii ''x3JJ'' @ ws_guid)), OnConnect 5, Unlock],
    [5 \<mapsto> \<lparr>conn_fd = 5, handshake_done = True, recv_buf = ascii ''Sec-WebSocket-Key: x3JJ'' @ crlf @ crlf, ws_buf = []\<rparr>],
    Ws_done)"
proof -
  define d where "d = ascii ''Sec-WebSocket-Key: x3JJ'' @ crlf @ crlf"
  have d: "d = [] @ key_header @ replicate 1 32 @ ascii ''x3JJ'' @ crlf @ crlf"
    by (simp add: d_def key_header_def ascii_def)
  have "str_find key_header d 0 = Some 0"
    by (simp add: d str_find_def upt_conv_Cons del: upt_Suc)
  moreover have "str_find (crlf @ crlf) d 0 \<noteq> None"
    unfolding str_find_def find_None_iff
    by (simp add: d key_header_def ascii_def crlf_def) (intro exI [of _ 23], simp)
  moreover have "13 \<notin> set (ascii ''x3JJ'')" "takeWhile (\<lambda>c. c = 32) (ascii ''x3JJ'') = []"
    by (simp_all add: ascii_def)
  ultimately show ?thesis
    using ws_handshake [of "[5 \<mapsto> WsConnection 5]" 5 "WsConnection 5" d "[]" 1 "ascii ''x3JJ''" crlf id] d
    unfolding d_def [symmetric] by (simp add: WsConnection_def fun_eq_iff)
qed

section \<open>Two ways to stop the server\<close>

lemma length_wraps:
  fixes n :: u64
  assumes "unat n > 2 ^ 64 - 10"
  shows "parse_ws_frames fd ([b0, 127] @ map (\<lambda>i. byte_at (7 - i) n) [0..<8] @ rest) =
    ([], [b0, 127] @ map (\<lambda>i. byte_at (7 - i) n) [0..<8] @ rest, Ws_length_error)"
proof -
  define b where "b = [b0, 127] @ map (\<lambda>i. byte_at (7 - i) n) [0..<8] @ rest"
  have "b ! (2 + i) = byte_at (7 - i) n" if "i < 8" for i
    using that by (simp add: b_def nth_append)
  then have "fold (\<lambda>i n. push_bit 8 n OR ucast (b ! (2 + i))) [0..<8] 0 =
      fold (\<lambda>i m. push_bit 8 m OR ucast (byte_at (7 - i) n)) [0..<8] (0 :: u64)"
    by (intro fold_cong) auto
  moreover have b: "b ! 1 = 127" "\<not> length b < 10" by (simp_all add: b_def)
  ultimately have len: "ws_length b = Some (n, 10)"
    unfolding ws_length_def Let_def b(1) join_bytes_64 by (simp add: b(2))
  note n = assms
  have less: "unat n < 2 ^ 64" using unsigned_less [of n] by simp
  have "\<not> ws_masked b" unfolding ws_masked_def b(1) by simp
  then have "unat (ws_total b n 10) = (10 + unat n) mod 2 ^ 64"
    by (simp add: ws_total_def unat_word_ariths)
  also have "\<dots> = unat n - (2 ^ 64 - 10)"
  proof -
    have "10 + unat n = (unat n - (2 ^ 64 - 10)) + 2 ^ 64" using n by simp
    moreover have "unat n - (2 ^ 64 - 10) < 2 ^ 64" by (rule le_less_trans [OF diff_le_self less])
    ultimately show ?thesis by (metis mod_add_self2 mod_less)
  qed
  finally have "unat (ws_total b n 10) \<le> 10" using less by linarith
  then have "\<not> length b < unat (ws_total b n 10)" using b(2) by simp
  moreover have "\<not> unat n \<le> string_max_size" using n by (simp add: string_max_size_def)
  ultimately have "parse_ws_frames fd b = ([], b, Ws_length_error)"
    using b(2) len by (subst parse_ws_frames.simps) (simp add: Let_def)
  then show ?thesis unfolding b_def .
qed

text \<open>Ten bytes end the process.  A frame whose eight-byte length is within nine of \<open>2^64\<close> makes the
  \<open>size_t\<close> sum \<open>total\<close> wrap round to at most nine, so the frame counts as complete; constructing the
  payload then throws \<open>std::length_error\<close>, which nothing in the server's thread catches.\<close>

theorem ws_length_wraps:
  fixes n :: u64
  assumes "unat n > 2 ^ 64 - 10"
  shows "parse_ws_frames fd ([b0, 127] @ map (\<lambda>i. byte_at (7 - i) n) [0..<8] @ rest) =
    ([], [b0, 127] @ map (\<lambda>i. byte_at (7 - i) n) [0..<8] @ rest, Ws_length_error)"
  using assms by (rule length_wraps)

lemma ws_length_wraps_witness:
  "parse_ws_frames 5 ([0x81, 127] @ map (\<lambda>i. byte_at (7 - i) (-1 :: u64)) [0..<8] @ []) =
    ([], [0x81, 127] @ map (\<lambda>i. byte_at (7 - i) (-1 :: u64)) [0..<8] @ [], Ws_length_error)"
  by (rule ws_length_wraps) (simp add: unsigned_minus_1_eq_mask mask_eq_exp_minus_1)

lemma mutex_run_effects:
  "frame_effects es = es \<Longrightarrow> mutex_run held (es @ es') = mutex_run held es'"
proof (induction es)
  case (Cons e es)
  have "e \<noteq> Lock \<and> e \<noteq> Unlock \<and> frame_effects es = es"
    using Cons.prems length_filter_le [of "\<lambda>e. e \<noteq> Lock \<and> e \<noteq> Unlock" es]
    by (cases "e \<noteq> Lock \<and> e \<noteq> Unlock") (auto simp: frame_effects_def)
  then show ?case using Cons.IH by (cases e) simp_all
qed simp

lemma handshake_effects:
  "frame_effects (fst (do_ws_handshake sha wr c)) = fst (do_ws_handshake sha wr c)"
  by (simp add: do_ws_handshake_def frame_effects_def Let_def split: option.split)

lemma mutex_run_handle:
  "mutex_run False (fst (handle_client sha wr fd conns rs)) = Some False"
proof (induction rs arbitrary: conns)
  case Nil
  show ?case by simp
next
  case (Cons x rs)
  note hs = mutex_run_effects [OF handshake_effects]
    and pf = mutex_run_effects [OF parse_no_locks]
  consider d c where "x = RData d" "conns fd = Some c" | d where "x = RData d" "conns fd = None"
    | "x \<in> {REof, RAgain, RError}" by (cases x; cases "conns fd") auto
  then show ?case
  proof cases
    case (1 d c)
    let ?c = "c\<lparr>recv_buf := recv_buf c @ d\<rparr>"
    obtain e ok where hd: "do_ws_handshake sha wr ?c = (e, ok)" by (cases "do_ws_handshake sha wr ?c") auto
    obtain e' r st where pd: "parse_ws_frames (conn_fd c) (ws_buf c @ d) = (e', r, st)"
      by (cases "parse_ws_frames (conn_fd c) (ws_buf c @ d)") auto
    have e: "mutex_run held (e @ es) = mutex_run held es" for held es
      using hs [of held sha wr ?c es] by (simp add: hd)
    have e': "mutex_run held (e' @ es) = mutex_run held es" for held es
      using pf [of held "conn_fd c" "ws_buf c @ d" es] by (simp add: pd)
    show ?thesis
      using Cons.IH 1 hd pd by (simp add: e e' disconnect_def Let_def split_beta)
  qed (auto simp: disconnect_def)
qed

lemma mutex_run_append: "mutex_run b es = Some b' \<Longrightarrow> mutex_run b (es @ es') = mutex_run b' es'"
  by (induction b es rule: mutex_run.induct) (auto split: if_splits)

lemma mutex_run_accept: "mutex_run False (fst (accept_client conns cfds)) = Some False"
  by (induction cfds arbitrary: conns) (simp_all add: case_prod_beta)

lemma mutex_run_send: "mutex_run False (ws_send conns fd msg) = Some False"
  by (simp add: ws_send_def split: option.split)

text \<open>The server's own use of \<open>conns_mutex_\<close> is sound: whatever \<open>read\<close> returns, \<open>handle_client\<close> never
  locks it twice and never leaves it locked, on no path (frames, a handshake that succeeds or fails, a lost
  connection, a thrown \<open>std::length_error\<close>), as long as the callbacks do not use the server.  \<open>send\<close> and
  \<open>accept_client\<close> do the same.\<close>

theorem ws_lock_discipline:
  "mutex_run False (fst (handle_client sha wr fd conns rs)) = Some False \<and>
   mutex_run False (fst (accept_client conns cfds)) = Some False \<and>
   mutex_run False (ws_send conns i msg) = Some False"
  by (simp only: mutex_run_handle mutex_run_accept mutex_run_send)

text \<open>C34. But the callbacks run while the mutex is held.  A message handler that answers through
  \<open>WebSocketServer::send\<close>, which is how the signaling server is wired, locks the mutex its own thread holds:
  the first text message of a connected client blocks the server's thread for ever.\<close>

theorem ws_callback_deadlock:
  assumes "key_ok mk" and "length msg < 2 ^ 63"
    and "conns fd = Some c" and "conn_fd c = fd" and "handshake_done c" and "ws_buf c = []"
    and "\<And>m. callback (OnMessage fd m) = ws_send conns fd (reply m)" and "callback Lock = []"
  shows "mutex_run False (with_callbacks callback
    (fst (handle_client sha wr fd conns [RData (ws_frame 0x81 mk msg)]))) = None"
proof -
  have "(0x81 :: u8) AND 0x0F = 1" by simp
  from parse_frame [OF assms(2,1) this, of fd "[]"]
  have "parse_ws_frames fd (ws_frame 0x81 mk msg) = ([OnMessage fd msg], [], Ws_done)"
    by (simp add: parse_ws_frames.simps [of fd "[]"])
  then show ?thesis
    using assms by (simp add: with_callbacks_def ws_send_def)
qed

lemma ws_callback_deadlock_witness:
  "mutex_run False (with_callbacks
      (\<lambda>e. case e of OnMessage fd m \<Rightarrow> ws_send [5 \<mapsto> \<lparr>conn_fd = 5, handshake_done = True, recv_buf = [], ws_buf = []\<rparr>] 5 m
             | _ \<Rightarrow> [])
      (fst (handle_client id (\<lambda>_. 0) 5 [5 \<mapsto> \<lparr>conn_fd = 5, handshake_done = True, recv_buf = [], ws_buf = []\<rparr>]
        [RData (ws_frame 0x81 (Some [1, 2, 3, 4]) [0x41])]))) = None"
  by (rule ws_callback_deadlock [where reply = id and
        c = "\<lparr>conn_fd = 5, handshake_done = True, recv_buf = [], ws_buf = []\<rparr>"]) (simp_all add: key_ok_def)

end
