(* ===== verification/JsonLib.thy ===== *)
theory JsonLib
  imports Prelude "HOL-Library.AList"
begin

text \<open>
  What the code uses of \<open>nlohmann::json\<close>, which is not part of the repository: a record of its operations
  over a type of documents, an argument of the definitions that use it.  An operation that may throw returns
  an option.  A \<open>float\<close> is its bit pattern.
\<close>

record 'j json_lib =
  j_dump :: "'j \<Rightarrow> string option"
  j_parse :: "string \<Rightarrow> 'j option"
  j_int :: "int \<Rightarrow> 'j"
  j_u64 :: "u64 \<Rightarrow> 'j"
  j_u32 :: "u32 \<Rightarrow> 'j"
  j_float :: "u32 \<Rightarrow> 'j"
  j_str :: "string \<Rightarrow> 'j"
  j_arr :: "'j list \<Rightarrow> 'j"
  j_obj :: "(string \<times> 'j) list \<Rightarrow> 'j"
  j_contains :: "string \<Rightarrow> 'j \<Rightarrow> bool"
  j_at :: "string \<Rightarrow> 'j \<Rightarrow> 'j option"
  j_set :: "string \<Rightarrow> 'j \<Rightarrow> 'j \<Rightarrow> 'j option"
  j_is_null :: "'j \<Rightarrow> bool"
  j_elems :: "'j \<Rightarrow> 'j list"
  get_int :: "'j \<Rightarrow> int option"
  get_u64 :: "'j \<Rightarrow> u64 option"
  get_u32 :: "'j \<Rightarrow> u32 option"
  get_float :: "'j \<Rightarrow> u32 option"
  get_str :: "'j \<Rightarrow> string option"

text \<open>The documented laws of construction and access.\<close>

definition json_laws :: "'j json_lib \<Rightarrow> bool" where
  "json_laws L \<longleftrightarrow>
     (\<forall>n. get_u64 L (j_u64 L n) = Some n) \<and> (\<forall>n. get_u32 L (j_u32 L n) = Some n) \<and>
     (\<forall>f. get_float L (j_float L f) = Some f) \<and> (\<forall>s. get_str L (j_str L s) = Some s) \<and>
     (\<forall>xs. j_elems L (j_arr L xs) = xs) \<and>
     (\<forall>kvs k. distinct (map fst kvs) \<longrightarrow> j_at L k (j_obj L kvs) = map_of kvs k)"

text \<open>A document that \<open>dump\<close> writes and \<open>parse\<close> reads back: its strings are UTF-8 and its numbers finite.\<close>

definition json_faithful :: "'j json_lib \<Rightarrow> 'j \<Rightarrow> bool" where
  "json_faithful L j \<longleftrightarrow> (case j_dump L j of None \<Rightarrow> False | Some s \<Rightarrow> j_parse L s = Some j)"

lemma json_simps:
  assumes "json_laws L"
  shows "get_u64 L (j_u64 L n) = Some n" "get_u32 L (j_u32 L m) = Some m" "get_float L (j_float L f) = Some f"
    "get_str L (j_str L s) = Some s" "j_elems L (j_arr L xs) = xs"
    "distinct (map fst kvs) \<Longrightarrow> j_at L k (j_obj L kvs) = map_of kvs k"
  using assms by (auto simp: json_laws_def)

section \<open>A small instance\<close>

text \<open>Documents as trees, and text that is the tree itself written in a list of characters for one given
  document: enough to apply the theorems to concrete inputs.\<close>

datatype tree =
    TNull
  | TInt int
  | TU64 u64
  | TU32 u32
  | TFloat u32
  | TStr string
  | TArr "tree list"
  | TObj "(string \<times> tree) list"

fun tree_at :: "string \<Rightarrow> tree \<Rightarrow> tree option" where
  "tree_at k (TObj kvs) = map_of kvs k"
| "tree_at k _ = None"

fun tree_set :: "string \<Rightarrow> tree \<Rightarrow> tree \<Rightarrow> tree option" where
  "tree_set k v (TObj kvs) = Some (TObj (AList.update k v kvs))"
| "tree_set k v TNull = Some (TObj [(k, v)])"
| "tree_set k v _ = None"

definition tree_lib :: "(string \<times> tree) list \<Rightarrow> tree json_lib" where
  "tree_lib docs = \<lparr>
     j_dump = (\<lambda>j. map_option fst (List.find (\<lambda>(_, j'). j' = j) docs)),
     j_parse = map_of docs,
     j_int = TInt, j_u64 = TU64, j_u32 = TU32, j_float = TFloat, j_str = TStr, j_arr = TArr, j_obj = TObj,
     j_contains = (\<lambda>k j. tree_at k j \<noteq> None), j_at = tree_at, j_set = tree_set,
     j_is_null = (\<lambda>j. j = TNull),
     j_elems = (\<lambda>j. case j of TArr xs \<Rightarrow> xs | TObj kvs \<Rightarrow> map snd kvs | TNull \<Rightarrow> [] | _ \<Rightarrow> [j]),
     get_int = (\<lambda>j. case j of TInt n \<Rightarrow> Some n | _ \<Rightarrow> None),
     get_u64 = (\<lambda>j. case j of TU64 n \<Rightarrow> Some n | _ \<Rightarrow> None),
     get_u32 = (\<lambda>j. case j of TU32 n \<Rightarrow> Some n | _ \<Rightarrow> None),
     get_float = (\<lambda>j. case j of TFloat n \<Rightarrow> Some n | _ \<Rightarrow> None),
     get_str = (\<lambda>j. case j of TStr s \<Rightarrow> Some s | _ \<Rightarrow> None)\<rparr>"

lemma tree_laws: "json_laws (tree_lib docs)"
  by (simp add: json_laws_def tree_lib_def)

lemma tree_faithful: "json_faithful (tree_lib [(s, j)]) j"
  by (simp add: json_faithful_def tree_lib_def)

end
