(* ===== verification/RoomManager.thy ===== *)
theory RoomManager
  imports JsonLib "HOL-Library.Multiset"
begin

text \<open>
  \<open>RoomManager\<close> of \<open>module05_signaling\<close> (\<open>room_manager.h\<close>, \<open>room_manager.cpp\<close>): who is in which room, and
  the relaying of signaling messages.  The JSON library is an argument, and so is the order \<open>iter\<close> in which
  an \<open>unordered_set\<close> is iterated.  An operation returns the state, the calls of \<open>notify_\<close> in order, and its
  result; \<open>None\<close> there means that an exception leaves the operation (\<open>dump\<close> throws on a string that is not
  UTF-8).
\<close>

section \<open>State and operations\<close>

record room_manager =
  rooms :: "string \<rightharpoonup> int set"
  conn_room :: "int \<rightharpoonup> string"
  has_notify :: bool

definition RoomManager :: "bool \<Rightarrow> room_manager" where
  "RoomManager notify = \<lparr>rooms = Map.empty, conn_room = Map.empty, has_notify = notify\<rparr>"

text \<open>\<open>rooms_[room_id]\<close>; where the key is missing the code's \<open>operator[]\<close> stores the empty set before it is
  changed.\<close>

definition members_of :: "room_manager \<Rightarrow> string \<Rightarrow> int set" where
  "members_of st room_id = (case rooms st room_id of None \<Rightarrow> {} | Some m \<Rightarrow> m)"

type_synonym notifications = "(int \<times> string) list"

text \<open>The start of \<open>join\<close>: the connection leaves its old room, and nobody is told.\<close>

definition room_detach :: "int \<Rightarrow> room_manager \<Rightarrow> room_manager" where
  "room_detach conn_id st =
     (case conn_room st conn_id of
        None \<Rightarrow> st
      | Some old_room \<Rightarrow>
          let members = members_of st old_room - {conn_id} in
          st\<lparr>rooms := (if members = {} then (rooms st)(old_room := None)
                      else (rooms st)(old_room \<mapsto> members)),
             conn_room := (conn_room st)(conn_id := None)\<rparr>)"

definition peer_message :: "'j json_lib \<Rightarrow> string \<Rightarrow> int \<Rightarrow> string \<Rightarrow> 'j" where
  "peer_message L kind conn_id room_id =
     j_obj L [(''type'', j_str L kind), (''peer_id'', j_int L conn_id), (''room_id'', j_str L room_id)]"

definition room_info :: "'j json_lib \<Rightarrow> string \<Rightarrow> int list \<Rightarrow> 'j" where
  "room_info L room_id peers =
     j_obj L [(''type'', j_str L ''room_info''), (''room_id'', j_str L room_id),
              (''peers'', j_arr L (map (j_int L) peers))]"

definition room_join ::
    "'j json_lib \<Rightarrow> (int set \<Rightarrow> int list) \<Rightarrow> int \<Rightarrow> string \<Rightarrow> room_manager \<Rightarrow>
     room_manager \<times> notifications \<times> string option" where
  "room_join L iter conn_id room_id st =
     (let st1 = room_detach conn_id st;
          st2 = st1\<lparr>rooms := (rooms st1)(room_id \<mapsto> insert conn_id (members_of st1 room_id)),
                    conn_room := (conn_room st1)(conn_id \<mapsto> room_id)\<rparr>;
          others = filter (\<lambda>peer. peer \<noteq> conn_id) (iter (members_of st2 room_id));
          reply = j_dump L (room_info L room_id others)
      in if has_notify st2
         then case j_dump L (peer_message L ''peer_joined'' conn_id room_id) of
                None \<Rightarrow> (st2, [], None)
              | Some notify_str \<Rightarrow> (st2, map (\<lambda>peer. (peer, notify_str)) others, reply)
         else (st2, [], reply))"

definition room_leave ::
    "'j json_lib \<Rightarrow> (int set \<Rightarrow> int list) \<Rightarrow> int \<Rightarrow> room_manager \<Rightarrow>
     room_manager \<times> notifications \<times> unit option" where
  "room_leave L iter conn_id st =
     (case conn_room st conn_id of
        None \<Rightarrow> (st, [], Some ())
      | Some room_id \<Rightarrow>
          let members = members_of st room_id - {conn_id};
              st1 = st\<lparr>rooms := (rooms st)(room_id \<mapsto> members),
                       conn_room := (conn_room st)(conn_id := None)\<rparr>;
              st2 = (if members = {} then st1\<lparr>rooms := (rooms st1)(room_id := None)\<rparr> else st1)
          in if has_notify st
             then case j_dump L (peer_message L ''peer_left'' conn_id room_id) of
                    None \<Rightarrow> (st1, [], None)
                  | Some notify_str \<Rightarrow> (st2, map (\<lambda>peer. (peer, notify_str)) (iter members), Some ())
             else (st2, [], Some ()))"

text \<open>\<open>relay\<close> catches every exception, so it always returns.  \<open>to\<close> is delivered to whoever it names; without
  it the message goes to the others in the sender's room.\<close>

definition room_relay ::
    "'j json_lib \<Rightarrow> (int set \<Rightarrow> int list) \<Rightarrow> int \<Rightarrow> string \<Rightarrow> room_manager \<Rightarrow> room_manager \<times> notifications" where
  "room_relay L iter sender msg_json st =
     (case j_parse L msg_json of
        None \<Rightarrow> (st, [])
      | Some msg \<Rightarrow>
          if j_contains L ''to'' msg \<and> \<not> (case j_at L ''to'' msg of Some v \<Rightarrow> j_is_null L v | None \<Rightarrow> True)
          then (case Option.bind (j_at L ''to'' msg) (get_int L) of
                  None \<Rightarrow> (st, [])
                | Some to \<Rightarrow>
                    (case j_set L ''from'' (j_int L sender) msg of
                       None \<Rightarrow> (st, [])
                     | Some msg' \<Rightarrow>
                         if has_notify st
                         then (case j_dump L msg' of None \<Rightarrow> (st, []) | Some out \<Rightarrow> (st, [(to, out)]))
                         else (st, [])))
          else (case conn_room st sender of
                  None \<Rightarrow> (st, [])
                | Some room_id \<Rightarrow>
                    (case Option.bind (j_set L ''from'' (j_int L sender) msg) (j_dump L) of
                       None \<Rightarrow> (st, [])
                     | Some out \<Rightarrow>
                         (st\<lparr>rooms := (rooms st)(room_id \<mapsto> members_of st room_id)\<rparr>,
                          if has_notify st
                          then map (\<lambda>peer. (peer, out))
                                 (filter (\<lambda>peer. peer \<noteq> sender) (iter (members_of st room_id)))
                          else []))))"

section \<open>Rooms and connections agree\<close>

definition rooms_agree :: "room_manager \<Rightarrow> bool" where
  "rooms_agree st \<longleftrightarrow> (\<forall>c r. conn_room st c = Some r \<longleftrightarrow> c \<in> members_of st r)"

definition no_empty_room :: "room_manager \<Rightarrow> bool" where
  "no_empty_room st \<longleftrightarrow> (\<forall>r. rooms st r \<noteq> Some {})"

lemma members_upd [simp]:
  "members_of (st\<lparr>rooms := (rooms st')(r \<mapsto> m), conn_room := cr\<rparr>) r' = (if r' = r then m else members_of st' r')"
  "members_of (st\<lparr>rooms := (rooms st')(r := None), conn_room := cr\<rparr>) r' = (if r' = r then {} else members_of st' r')"
  "members_of (st\<lparr>rooms := (rooms st')(r \<mapsto> m)\<rparr>) r' = (if r' = r then m else members_of st' r')"
  "members_of (st\<lparr>rooms := (rooms st')(r := None)\<rparr>) r' = (if r' = r then {} else members_of st' r')"
  by (simp_all add: members_of_def)

lemma detach_members:
  "members_of (room_detach c st) r = (if conn_room st c = Some r then members_of st r - {c} else members_of st r)"
  by (auto simp: room_detach_def Let_def split: option.split)

lemma detach_conn_room [simp]: "conn_room (room_detach c st) = (conn_room st)(c := None)"
  by (auto simp: room_detach_def Let_def split: option.split)

lemma detach_notify [simp]: "has_notify (room_detach c st) = has_notify st"
  by (auto simp: room_detach_def Let_def split: option.split)

text \<open>What the two operations do to the state, on every path.\<close>

lemma join_state:
  fixes L iter c r st
  defines "st' \<equiv> fst (room_join L iter c r st)"
  shows "conn_room st' = (conn_room st)(c \<mapsto> r)"
    and "members_of st' r' = (if r' = r then insert c (members_of st r)
           else if conn_room st c = Some r' then members_of st r' - {c} else members_of st r')"
    and "rooms st' = (rooms (room_detach c st))(r \<mapsto> insert c (members_of st r))"
    and "has_notify st' = has_notify st"
  by (auto simp: st'_def room_join_def Let_def detach_members split: option.split)

lemma leave_state:
  fixes L iter c st
  defines "st' \<equiv> fst (room_leave L iter c st)"
  shows "conn_room st' = (conn_room st)(c := None)"
    and "members_of st' r' = (if conn_room st c = Some r' then members_of st r' - {c} else members_of st r')"
    and "has_notify st' = has_notify st"
  by (auto simp: st'_def room_leave_def Let_def split: option.split)

lemma agree_join: "rooms_agree st \<Longrightarrow> rooms_agree (fst (room_join L iter c r st))"
  unfolding rooms_agree_def join_state by auto

lemma agree_leave: "rooms_agree st \<Longrightarrow> rooms_agree (fst (room_leave L iter c st))"
  unfolding rooms_agree_def leave_state by auto

lemma detach_no_empty: "no_empty_room st \<Longrightarrow> no_empty_room (room_detach c st)"
  by (auto simp: no_empty_room_def room_detach_def Let_def split: option.split if_splits)

lemma no_empty_join: "no_empty_room st \<Longrightarrow> no_empty_room (fst (room_join L iter c r st))"
  using detach_no_empty [of st c] by (auto simp: no_empty_room_def join_state(3))

lemma no_empty_leave:
  "no_empty_room st \<Longrightarrow> snd (snd (room_leave L iter c st)) = Some () \<Longrightarrow> no_empty_room (fst (room_leave L iter c st))"
  by (auto simp: no_empty_room_def room_leave_def Let_def split: option.split_asm option.split if_splits)

section \<open>Runs\<close>

datatype room_op = Join int string | Leave int | Relay int string

text \<open>One call: the new state, the notifications, and whether it returned.\<close>

fun room_step ::
    "'j json_lib \<Rightarrow> (int set \<Rightarrow> int list) \<Rightarrow> room_op \<Rightarrow> room_manager \<Rightarrow> room_manager \<times> notifications \<times> bool" where
  "room_step L iter (Join c r) st = (case room_join L iter c r st of (st', ns, res) \<Rightarrow> (st', ns, res \<noteq> None))"
| "room_step L iter (Leave c) st = (case room_leave L iter c st of (st', ns, res) \<Rightarrow> (st', ns, res \<noteq> None))"
| "room_step L iter (Relay c m) st = (case room_relay L iter c m st of (st', ns) \<Rightarrow> (st', ns, True))"

fun room_run :: "'j json_lib \<Rightarrow> (int set \<Rightarrow> int list) \<Rightarrow> room_op list \<Rightarrow> room_manager \<Rightarrow> room_manager \<times> bool" where
  "room_run L iter [] st = (st, True)"
| "room_run L iter (op # ops) st =
     (case room_step L iter op st of (st', _, ok) \<Rightarrow>
      case room_run L iter ops st' of (st'', oks) \<Rightarrow> (st'', ok \<and> oks))"

definition rooms_finite :: "room_manager \<Rightarrow> bool" where
  "rooms_finite st \<longleftrightarrow> (\<forall>r. finite (members_of st r))"

lemma relay_state:
  assumes "rooms_agree st"
  shows "fst (room_relay L iter c m st) = st"
proof -
  have "st\<lparr>rooms := (rooms st)(r \<mapsto> members_of st r)\<rparr> = st" if "conn_room st c = Some r" for r
  proof -
    have "c \<in> members_of st r" using assms that by (simp add: rooms_agree_def)
    then have "rooms st r = Some (members_of st r)" by (auto simp: members_of_def split: option.splits)
    then have "(rooms st)(r \<mapsto> members_of st r) = rooms st" by auto
    then show ?thesis by simp
  qed
  then show ?thesis by (auto simp: room_relay_def split: option.split)
qed

text \<open>The invariants of a step; a call that throws may leave an empty room behind.\<close>

lemma step_invariants:
  assumes "rooms_agree st"
  shows "rooms_agree (fst (room_step L iter op st))"
    and "rooms_finite st \<Longrightarrow> rooms_finite (fst (room_step L iter op st))"
    and "no_empty_room st \<Longrightarrow> snd (snd (room_step L iter op st)) \<Longrightarrow> no_empty_room (fst (room_step L iter op st))"
proof -
  have fst_step: "fst (room_step L iter op st) = (case op of
      Join c r \<Rightarrow> fst (room_join L iter c r st) | Leave c \<Rightarrow> fst (room_leave L iter c st) | Relay c m \<Rightarrow> st)"
    by (cases op) (simp_all add: split_beta relay_state [OF assms])
  show "rooms_agree (fst (room_step L iter op st))"
    unfolding fst_step using assms by (auto intro: agree_join agree_leave split: room_op.split)
  show "rooms_finite st \<Longrightarrow> rooms_finite (fst (room_step L iter op st))"
    unfolding fst_step by (auto simp: rooms_finite_def join_state leave_state split: room_op.split)
  show "no_empty_room (fst (room_step L iter op st))" if "no_empty_room st" "snd (snd (room_step L iter op st))"
    using that no_empty_join [of st] no_empty_leave [of st] unfolding fst_step
    by (cases op) (auto simp: split_beta)
qed

lemma run_invariants:
  "rooms_agree st \<Longrightarrow> rooms_finite st \<Longrightarrow>
   rooms_agree (fst (room_run L iter ops st)) \<and> rooms_finite (fst (room_run L iter ops st)) \<and>
   (no_empty_room st \<longrightarrow> snd (room_run L iter ops st) \<longrightarrow> no_empty_room (fst (room_run L iter ops st)))"
proof (induction ops arbitrary: st)
  case (Cons op ops)
  obtain st' ns ok where s: "room_step L iter op st = (st', ns, ok)" by (cases "room_step L iter op st") auto
  have "rooms_agree st'" "rooms_finite st'" "no_empty_room st \<Longrightarrow> ok \<Longrightarrow> no_empty_room st'"
    using step_invariants [OF Cons.prems(1), of L iter op] Cons.prems(2) by (simp_all add: s)
  then show ?case using Cons.IH [of st'] by (auto simp: s split: prod.split)
qed simp

lemma initial_invariants:
  "rooms_agree (RoomManager n)" "rooms_finite (RoomManager n)" "no_empty_room (RoomManager n)"
  by (simp_all add: RoomManager_def rooms_agree_def rooms_finite_def no_empty_room_def members_of_def)

text \<open>C25. The two tables agree at all times.  After any sequence of calls of \<open>join\<close>, \<open>leave\<close> and
  \<open>relay\<close>, including calls that an exception of \<open>dump\<close> leaves in the middle, a connection is recorded as
  being in a room exactly if it is a member of the room, so it is in at most one; and as long as no call threw,
  no empty room is kept.\<close>

theorem room_tables_agree:
  "case room_run L iter ops (RoomManager n) of (st, all_returned) \<Rightarrow>
     (conn_room st c = Some r \<longleftrightarrow> c \<in> members_of st r) \<and> finite (members_of st r) \<and>
     (if all_returned then rooms st r \<noteq> Some {} else True)"
  using run_invariants [OF initial_invariants(1,2) [of n], of L iter ops] initial_invariants(3) [of n]
  unfolding rooms_agree_def rooms_finite_def no_empty_room_def by (auto split: prod.split)

section \<open>What the members hear\<close>

definition iterates :: "(int set \<Rightarrow> int list) \<Rightarrow> bool" where
  "iterates iter \<longleftrightarrow> (\<forall>s. finite s \<longrightarrow> distinct (iter s) \<and> set (iter s) = s)"

lemma iterates_others:
  assumes "iterates iter" and "finite s"
  shows "mset (filter (\<lambda>p. p \<noteq> c) (iter s)) = mset_set (s - {c})"
proof -
  have "distinct (filter (\<lambda>p. p \<noteq> c) (iter s))" and "set (filter (\<lambda>p. p \<noteq> c) (iter s)) = s - {c}"
    using assms by (auto simp: iterates_def)
  then show ?thesis by (metis mset_set_set)
qed

text \<open>C26. Joining.  Every member of the room other than the newcomer, and nobody else, is told once; the reply
  lists the same peers; the newcomer is in the new room and in no other, and nobody else moves.\<close>

theorem room_join_functional:
  assumes "iterates iter" and "rooms_agree st" and "rooms_finite st" and "has_notify st"
    and "j_dump L (peer_message L ''peer_joined'' c r) = Some note"
    and "room_join L iter c r st = (st', calls, reply)"
  shows "mset calls = image_mset (\<lambda>p. (p, note)) (mset_set (members_of st r - {c})) \<and>
    reply = j_dump L (room_info L r (map fst calls)) \<and>
    conn_room st' = (conn_room st)(c \<mapsto> r) \<and>
    members_of st' r = insert c (members_of st r) \<and>
    members_of st' r' - {c} = members_of st r' - {c}"
proof -
  let ?s = "insert c (members_of st r)"
  have st': "st' = fst (room_join L iter c r st)" using assms(6) by simp
  have "finite ?s" using assms(3) by (simp add: rooms_finite_def)
  then have "mset (filter (\<lambda>p. p \<noteq> c) (iter ?s)) = mset_set (members_of st r - {c})"
    using iterates_others [OF assms(1)] by simp
  moreover have "insert c (members_of (room_detach c st) r) = ?s" by (auto simp: detach_members)
  then have "calls = map (\<lambda>p. (p, note)) (filter (\<lambda>p. p \<noteq> c) (iter ?s))"
    and "reply = j_dump L (room_info L r (filter (\<lambda>p. p \<noteq> c) (iter ?s)))"
    using assms(4,5,6) by (simp_all add: room_join_def Let_def)
  ultimately show ?thesis
    unfolding st' join_state by (auto simp: comp_def)
qed

definition two_members :: room_manager where
  "two_members = \<lparr>rooms = [''a'' \<mapsto> {1, 2}], conn_room = [1 \<mapsto> ''a'', 2 \<mapsto> ''a''], has_notify = True\<rparr>"

lemma two_members_ok: "rooms_agree two_members" "rooms_finite two_members" "has_notify two_members"
  by (auto simp: two_members_def rooms_agree_def rooms_finite_def members_of_def split: if_splits)

lemma sorted_iterates: "iterates sorted_list_of_set"
  by (simp add: iterates_def)

definition joined_doc :: tree where
  "joined_doc = TObj [(''type'', TStr ''peer_joined''), (''peer_id'', TInt 3), (''room_id'', TStr ''a'')]"

lemma room_join_functional_witness:
  "mset (fst (snd (room_join (tree_lib [(''J'', joined_doc)]) sorted_list_of_set 3 ''a'' two_members))) =
    {#(1, ''J''), (2, ''J'')#}"
proof -
  obtain st' ns reply where
    j: "room_join (tree_lib [(''J'', joined_doc)]) sorted_list_of_set 3 ''a'' two_members = (st', ns, reply)"
    by (cases "room_join (tree_lib [(''J'', joined_doc)]) sorted_list_of_set 3 ''a'' two_members") auto
  have "peer_message (tree_lib [(''J'', joined_doc)]) ''peer_joined'' 3 ''a'' = joined_doc"
    by (simp add: joined_doc_def peer_message_def tree_lib_def)
  then have "j_dump (tree_lib [(''J'', joined_doc)]) (peer_message (tree_lib [(''J'', joined_doc)]) ''peer_joined'' 3 ''a'') = Some ''J''"
    by (simp add: tree_lib_def)
  from room_join_functional [OF sorted_iterates two_members_ok this j]
  have "mset ns = image_mset (\<lambda>p. (p, ''J'')) (mset_set ({1, 2} - {3}))"
    by (simp add: two_members_def members_of_def)
  then show ?thesis by (simp add: j)
qed

text \<open>Relaying.  A message without \<open>to\<close> reaches every other member of the sender's room once, stamped with
  its sender, and nobody outside the room.\<close>

theorem room_relay_broadcast:
  assumes "iterates iter" and "rooms_agree st" and "rooms_finite st" and "has_notify st"
    and "j_parse L text = Some msg" and "\<not> j_contains L ''to'' msg"
    and "j_set L ''from'' (j_int L sender) msg = Some msg'" and "j_dump L msg' = Some out"
    and "conn_room st sender = Some r"
  shows "fst (room_relay L iter sender text st) = st \<and>
    mset (snd (room_relay L iter sender text st)) =
      image_mset (\<lambda>p. (p, out)) (mset_set {p. conn_room st p = Some r \<and> p \<noteq> sender})"
proof -
  have "{p. conn_room st p = Some r \<and> p \<noteq> sender} = members_of st r - {sender}"
    using assms(2) by (auto simp: rooms_agree_def)
  moreover have "snd (room_relay L iter sender text st) =
      map (\<lambda>p. (p, out)) (filter (\<lambda>p. p \<noteq> sender) (iter (members_of st r)))"
    using assms(4-9) by (simp add: room_relay_def)
  ultimately show ?thesis
    using relay_state [OF assms(2)] iterates_others [OF assms(1), of "members_of st r"] assms(3)
    by (simp add: rooms_finite_def)
qed

definition hello :: tree where
  "hello = TObj [(''sdp'', TStr ''x'')]"

definition hello_from :: "int \<Rightarrow> tree" where
  "hello_from c = TObj [(''sdp'', TStr ''x''), (''from'', TInt c)]"

lemma room_relay_broadcast_witness:
  "mset (snd (room_relay (tree_lib [(''H'', hello), (''F'', hello_from 1)]) sorted_list_of_set 1 ''H'' two_members)) =
    {#(2, ''F'')#}"
proof -
  let ?L = "tree_lib [(''H'', hello), (''F'', hello_from 1)]"
  have r: "conn_room two_members 1 = Some ''a''" by (simp add: two_members_def)
  have "{p. conn_room two_members p = Some ''a'' \<and> p \<noteq> 1} = {2}"
    by (auto simp: two_members_def split: if_splits)
  then show ?thesis
    using conjunct2 [OF room_relay_broadcast [OF sorted_iterates two_members_ok, of ?L "''H''" hello 1 "hello_from 1" "''F''" "''a''"]] r
    by (simp add: tree_lib_def hello_def hello_from_def)
qed

text \<open>A message with \<open>to\<close> is not held to the room: it is delivered to whatever connection it names, whether
  or not sender and receiver share a room, or are in any.\<close>

theorem room_relay_any_target:
  assumes "has_notify st" and "j_parse L text = Some msg"
    and "j_contains L ''to'' msg" and "j_at L ''to'' msg = Some v" and "\<not> j_is_null L v" and "get_int L v = Some to"
    and "j_set L ''from'' (j_int L sender) msg = Some msg'" and "j_dump L msg' = Some out"
  shows "room_relay L iter sender text st = (st, [(to, out)])"
  using assms by (simp add: room_relay_def)

definition direct :: tree where
  "direct = TObj [(''to'', TInt 9)]"

definition direct_from :: tree where
  "direct_from = TObj [(''to'', TInt 9), (''from'', TInt 1)]"

lemma room_relay_any_target_witness:
  "room_relay (tree_lib [(''M'', direct), (''F'', direct_from)]) sorted_list_of_set 1 ''M'' two_members = (two_members, [(9, ''F'')]) \<and>
    conn_room two_members 9 = None"
proof -
  have "room_relay (tree_lib [(''M'', direct), (''F'', direct_from)]) sorted_list_of_set 1 ''M'' two_members = (two_members, [(9, ''F'')])"
    by (rule room_relay_any_target [where msg = direct and msg' = direct_from and v = "TInt 9"])
      (simp_all add: two_members_ok tree_lib_def direct_def direct_from_def)
  then show ?thesis by (simp add: two_members_def)
qed

end
