(* ===== verification/Sdp.thy ===== *)
theory Sdp
  imports Prelude
begin

text \<open>
  \<open>Sdp\<close> of \<open>module05_signaling\<close> (\<open>sdp.h\<close>, \<open>sdp.cpp\<close>): writing and reading a session description.  A string
  is a list of characters.  The stream operations (\<open>getline\<close>, \<open>>>\<close>) and \<open>std::stoi\<close> are those of the C++
  standard library in the "C" locale; \<open>std::stoi\<close> throws, and nothing catches it.
\<close>

section \<open>Characters and numbers\<close>

definition LF :: char where "LF = CHR 0x0A"

definition CR :: char where "CR = CHR 0x0D"

definition SP :: char where "SP = CHR 0x20"

definition isspace :: "char \<Rightarrow> bool" where
  "isspace c \<longleftrightarrow> c = SP \<or> (9 \<le> (of_char c :: nat) \<and> (of_char c :: nat) \<le> 13)"

definition isdigit :: "char \<Rightarrow> bool" where
  "isdigit c \<longleftrightarrow> 48 \<le> (of_char c :: nat) \<and> (of_char c :: nat) \<le> 57"

fun show_nat :: "nat \<Rightarrow> string" where
  "show_nat n = (if n < 10 then [char_of (48 + n)] else show_nat (n div 10) @ [char_of (48 + n mod 10)])"

declare show_nat.simps [simp del]

definition show_int :: "int \<Rightarrow> string" where
  "show_int i = (if i < 0 then CHR ''-'' # show_nat (nat (- i)) else show_nat (nat i))"

definition digits_value :: "string \<Rightarrow> nat" where
  "digits_value ds = foldl (\<lambda>n c. 10 * n + (of_char c - 48)) 0 ds"

text \<open>An optional sign, the digits, and what follows them.\<close>

fun num_sign :: "string \<Rightarrow> bool \<times> string" where
  "num_sign [] = (False, [])"
| "num_sign (c # cs) =
     (if c = CHR ''-'' then (True, cs) else if c = CHR ''+'' then (False, cs) else (False, c # cs))"

definition num_token :: "string \<Rightarrow> bool \<times> string \<times> string" where
  "num_token s =
     (fst (num_sign s), takeWhile isdigit (snd (num_sign s)), dropWhile isdigit (snd (num_sign s)))"

definition signed_value :: "bool \<Rightarrow> string \<Rightarrow> int" where
  "signed_value neg ds = (if neg then - int (digits_value ds) else int (digits_value ds))"

definition in_int_range :: "int \<Rightarrow> bool" where
  "in_int_range i \<longleftrightarrow> - (2 ^ 31) \<le> i \<and> i < 2 ^ 31"

section \<open>Stream extraction\<close>

text \<open>\<open>stream >> std::string\<close>: \<open>None\<close> is a stream that fails.\<close>

definition extract_word :: "string \<Rightarrow> (string \<times> string) option" where
  "extract_word s =
     (let r = dropWhile isspace s in
      if r = [] then None else Some (takeWhile (Not \<circ> isspace) r, dropWhile (Not \<circ> isspace) r))"

text \<open>\<open>stream >> uint16_t\<close> into a variable that is zero: the variable afterwards, and the rest of a stream
  that has not failed.  A minus sign negates in the type.\<close>

definition extract_u16 :: "string \<Rightarrow> u16 \<times> string option" where
  "extract_u16 s =
     (let r = dropWhile isspace s; (neg, ds, rest) = num_token r in
      if r = [] \<or> ds = [] then (0, None)
      else if digits_value ds > 65535 then (65535, None)
      else (if neg then - of_nat (digits_value ds) else of_nat (digits_value ds), Some rest))"

definition extract_int :: "string \<Rightarrow> (int \<times> string) option" where
  "extract_int s =
     (let r = dropWhile isspace s; (neg, ds, rest) = num_token r in
      if r = [] \<or> ds = [] \<or> \<not> in_int_range (signed_value neg ds) then None
      else Some (signed_value neg ds, rest))"

datatype sdp_error = Invalid_argument | Out_of_range

definition stoi :: "string \<Rightarrow> sdp_error + int" where
  "stoi s =
     (let (neg, ds, rest) = num_token (dropWhile isspace s) in
      if ds = [] then Inl Invalid_argument
      else if \<not> in_int_range (signed_value neg ds) then Inl Out_of_range
      else Inr (signed_value neg ds))"

text \<open>The lines \<open>std::getline\<close> returns.\<close>

fun getlines :: "string \<Rightarrow> string list" where
  "getlines [] = []"
| "getlines (c # cs) =
     (if c = LF then [] # getlines cs
      else case getlines cs of [] \<Rightarrow> [[c]] | l # ls \<Rightarrow> (c # l) # ls)"

section \<open>The description\<close>

record sdp_media =
  m_type :: string
  m_port :: u16
  m_proto :: string
  m_fmts :: "int list"
  m_fingerprint :: string
  m_ice_ufrag :: string
  m_ice_pwd :: string
  m_candidate :: string
  m_rtpmap :: "(int \<times> string) list"

definition SdpMedia :: sdp_media where
  "SdpMedia = \<lparr>m_type = [], m_port = 9, m_proto = [], m_fmts = [], m_fingerprint = [], m_ice_ufrag = [],
     m_ice_pwd = [], m_candidate = [], m_rtpmap = []\<rparr>"

record sdp =
  s_version :: string
  s_origin :: string
  s_name :: string
  s_media :: "sdp_media list"

definition Sdp :: sdp where
  "Sdp = \<lparr>s_version = ''0'', s_origin = [], s_name = ''-'', s_media = []\<rparr>"

section \<open>Writing\<close>

definition crlf :: string where
  "crlf = [CR, LF]"

definition attr_line :: "string \<Rightarrow> string \<Rightarrow> string" where
  "attr_line name v = (if v \<noteq> [] then ''a='' @ name @ '':'' @ v @ crlf else [])"

definition serialize_media :: "sdp_media \<Rightarrow> string" where
  "serialize_media m =
     ''m='' @ m_type m @ [SP] @ show_nat (unat (m_port m)) @ [SP] @ m_proto m @
     concat (map (\<lambda>pt. SP # show_int pt) (m_fmts m)) @ crlf @
     attr_line ''ice-ufrag'' (m_ice_ufrag m) @
     attr_line ''ice-pwd'' (m_ice_pwd m) @
     attr_line ''fingerprint'' (m_fingerprint m) @
     attr_line ''candidate'' (m_candidate m) @
     concat (map (\<lambda>(pt, codec). ''a=rtpmap:'' @ show_int pt @ [SP] @ codec @ crlf) (m_rtpmap m))"

definition sdp_serialize :: "sdp \<Rightarrow> string" where
  "sdp_serialize s =
     ''v='' @ s_version s @ crlf @
     ''o='' @ s_origin s @ crlf @
     ''s='' @ s_name s @ crlf @
     ''t=0 0'' @ crlf @
     concat (map serialize_media (s_media s))"

section \<open>Reading\<close>

function extract_fmts :: "string \<Rightarrow> int list" where
  "extract_fmts s = (case extract_int s of None \<Rightarrow> [] | Some (pt, rest) \<Rightarrow> pt # extract_fmts rest)"
  by pat_completeness auto

lemma num_token_length:
  assumes "num_token s = (neg, ds, rest)"
  shows "length ds + length rest \<le> length s"
proof -
  have "length (snd (num_sign s)) \<le> length s" by (cases s) simp_all
  moreover have "length (takeWhile isdigit t) + length (dropWhile isdigit t) = length t" for t
    by (metis length_append takeWhile_dropWhile_id)
  ultimately show ?thesis using assms by (auto simp: num_token_def)
qed

lemma extract_int_shorter: "extract_int s = Some (pt, rest) \<Longrightarrow> length rest < length s"
proof -
  assume a: "extract_int s = Some (pt, rest)"
  obtain neg ds rest' where t: "num_token (dropWhile isspace s) = (neg, ds, rest')" by (metis prod_cases3)
  then have "ds \<noteq> []" "rest = rest'" using a by (auto simp: extract_int_def Let_def split: if_splits)
  moreover have "length ds + length rest' \<le> length (dropWhile isspace s)"
    by (rule num_token_length [OF t])
  ultimately show ?thesis
    using length_dropWhile_le [of isspace s] by (cases ds) auto
qed

termination extract_fmts
  by (relation "measure length") (auto dest: extract_int_shorter)

declare extract_fmts.simps [simp del]

definition parse_m :: "string \<Rightarrow> sdp_media" where
  "parse_m value =
     (case extract_word value of
        None \<Rightarrow> SdpMedia\<lparr>m_port := 0\<rparr>
      | Some (ty, r1) \<Rightarrow>
          (case extract_u16 r1 of
             (p, None) \<Rightarrow> SdpMedia\<lparr>m_type := ty, m_port := p\<rparr>
           | (p, Some r2) \<Rightarrow>
               (case extract_word r2 of
                  None \<Rightarrow> SdpMedia\<lparr>m_type := ty, m_port := p\<rparr>
                | Some (proto, r3) \<Rightarrow>
                    SdpMedia\<lparr>m_type := ty, m_port := p, m_proto := proto, m_fmts := extract_fmts r3\<rparr>)))"

text \<open>\<open>value.rfind(name, 0) == 0\<close>, and what follows the name.\<close>

definition after :: "string \<Rightarrow> string \<Rightarrow> string option" where
  "after name v = (if take (length name) v = name then Some (drop (length name) v) else None)"

definition parse_rtpmap :: "string \<Rightarrow> sdp_media \<Rightarrow> sdp_error + sdp_media" where
  "parse_rtpmap rest m =
     (if SP \<notin> set rest then Inr m
      else case stoi (takeWhile (\<lambda>c. c \<noteq> SP) rest) of
             Inl e \<Rightarrow> Inl e
           | Inr pt \<Rightarrow> Inr (m\<lparr>m_rtpmap := m_rtpmap m @ [(pt, tl (dropWhile (\<lambda>c. c \<noteq> SP) rest))]\<rparr>))"

definition parse_a :: "string \<Rightarrow> sdp_media \<Rightarrow> sdp_error + sdp_media" where
  "parse_a value m =
     (case after ''rtpmap:'' value of
        Some rest \<Rightarrow> parse_rtpmap rest m
      | None \<Rightarrow>
     (case after ''fingerprint:'' value of
        Some v \<Rightarrow> Inr (m\<lparr>m_fingerprint := v\<rparr>)
      | None \<Rightarrow>
     (case after ''ice-ufrag:'' value of
        Some v \<Rightarrow> Inr (m\<lparr>m_ice_ufrag := v\<rparr>)
      | None \<Rightarrow>
     (case after ''ice-pwd:'' value of
        Some v \<Rightarrow> Inr (m\<lparr>m_ice_pwd := v\<rparr>)
      | None \<Rightarrow>
     (case after ''candidate:'' value of
        Some v \<Rightarrow> Inr (if m_candidate m = [] then m\<lparr>m_candidate := v\<rparr> else m)
      | None \<Rightarrow> Inr m)))))"

text \<open>One line; \<open>cur_media\<close> is the last medium, and null when there is none.\<close>

definition parse_line :: "string \<Rightarrow> sdp \<Rightarrow> sdp_error + sdp" where
  "parse_line line0 s =
     (let line = (if line0 \<noteq> [] \<and> last line0 = CR then butlast line0 else line0) in
      case line of
        t # e # value \<Rightarrow>
          if e \<noteq> CHR ''='' then Inr s
          else if t = CHR ''v'' then Inr (s\<lparr>s_version := value\<rparr>)
          else if t = CHR ''o'' then Inr (s\<lparr>s_origin := value\<rparr>)
          else if t = CHR ''s'' then Inr (s\<lparr>s_name := value\<rparr>)
          else if t = CHR ''m'' then Inr (s\<lparr>s_media := s_media s @ [parse_m value]\<rparr>)
          else if t = CHR ''a'' \<and> s_media s \<noteq> []
          then (case parse_a value (last (s_media s)) of
                  Inl err \<Rightarrow> Inl err
                | Inr m \<Rightarrow> Inr (s\<lparr>s_media := butlast (s_media s) @ [m]\<rparr>))
          else Inr s
      | _ \<Rightarrow> Inr s)"

fun parse_lines :: "string list \<Rightarrow> sdp \<Rightarrow> sdp_error + sdp" where
  "parse_lines [] s = Inr s"
| "parse_lines (l # ls) s = (case parse_line l s of Inl e \<Rightarrow> Inl e | Inr s' \<Rightarrow> parse_lines ls s')"

definition sdp_parse :: "string \<Rightarrow> sdp_error + sdp" where
  "sdp_parse text = parse_lines (getlines text) Sdp"

section \<open>Numbers read back\<close>

lemma of_char_digit: "d < 10 \<Longrightarrow> (of_char (char_of (48 + d) :: char) :: nat) = 48 + d"
  by (simp add: of_char_of)

lemma isdigit_digit: "d < 10 \<Longrightarrow> isdigit (char_of (48 + d :: nat))"
  by (simp add: isdigit_def of_char_digit)

lemma isdigit_not_space: "isdigit c \<Longrightarrow> \<not> isspace c \<and> c \<noteq> SP \<and> c \<noteq> LF \<and> c \<noteq> CR \<and> c \<noteq> CHR ''-'' \<and> c \<noteq> CHR ''+''"
  by (auto simp: isdigit_def isspace_def SP_def LF_def CR_def)

lemma show_nat_digits: "c \<in> set (show_nat n) \<Longrightarrow> isdigit c"
proof (induction n rule: show_nat.induct)
  case (1 n)
  then show ?case by (subst (asm) (2) show_nat.simps) (auto simp: isdigit_digit split: if_splits)
qed

lemma show_nat_nonempty [simp]: "show_nat n \<noteq> []"
  by (subst show_nat.simps) simp

lemma digits_value_show: "digits_value (show_nat n) = n"
proof (induction n rule: show_nat.induct)
  case (1 n)
  then show ?case by (subst show_nat.simps) (auto simp: digits_value_def of_char_digit)
qed

lemma takeWhile_digits:
  "rest = [] \<or> \<not> isdigit (hd rest) \<Longrightarrow>
   takeWhile isdigit (show_nat n @ rest) = show_nat n \<and> dropWhile isdigit (show_nat n @ rest) = rest"
  using show_nat_digits [of _ n] by (cases rest) (auto simp: takeWhile_append dropWhile_append)

lemma show_nat_Cons: "\<exists>c cs. show_nat n = c # cs \<and> isdigit c"
  using show_nat_digits [of _ n] by (cases "show_nat n") auto

lemma num_token_nat:
  assumes "rest = [] \<or> \<not> isdigit (hd rest)"
  shows "num_token (show_nat n @ rest) = (False, show_nat n, rest)"
proof -
  obtain c cs where "show_nat n = c # cs" "isdigit c" using show_nat_Cons by blast
  then have "num_sign (show_nat n @ rest) = (False, show_nat n @ rest)" using isdigit_not_space by auto
  then show ?thesis using takeWhile_digits [OF assms] by (simp add: num_token_def)
qed

lemma num_token_int:
  assumes "rest = [] \<or> \<not> isdigit (hd rest)"
  shows "\<exists>neg ds. num_token (show_int i @ rest) = (neg, ds, rest) \<and> ds \<noteq> [] \<and> signed_value neg ds = i"
proof (cases "i < 0")
  case True
  then have "num_token (show_int i @ rest) = (True, show_nat (nat (- i)), rest)"
    using takeWhile_digits [OF assms] by (simp add: show_int_def num_token_def)
  then show ?thesis using True
    by (intro exI [of _ True] exI [of _ "show_nat (nat (- i))"]) (simp add: signed_value_def digits_value_show)
next
  case False
  then show ?thesis using num_token_nat [OF assms, of "nat i"]
    by (intro exI [of _ False] exI [of _ "show_nat (nat i)"]) (simp add: show_int_def signed_value_def digits_value_show)
qed

lemma show_int_Cons: "\<exists>c cs. show_int i = c # cs \<and> \<not> isspace c"
  using show_nat_Cons [of "nat i"] isdigit_not_space by (auto simp: show_int_def isspace_def SP_def)

lemma show_int_chars: "c \<in> set (show_int i) \<Longrightarrow> c \<noteq> SP \<and> c \<noteq> LF \<and> c \<noteq> CR"
  using show_nat_digits isdigit_not_space
  by (fastforce simp: show_int_def SP_def LF_def CR_def split: if_splits)

lemma isspace_SP [simp]: "isspace SP" "\<not> isdigit SP"
  by (simp_all add: isspace_def isdigit_def SP_def)

lemma skip_space_int: "dropWhile isspace (show_int i @ rest) = show_int i @ rest"
  using show_int_Cons [of i] by auto

lemma extract_int_show:
  assumes "in_int_range i" and "rest = [] \<or> \<not> isdigit (hd rest)"
  shows "extract_int (SP # show_int i @ rest) = Some (i, rest)"
  using num_token_int [OF assms(2), of i] show_int_Cons [of i] assms(1)
  by (auto simp: extract_int_def skip_space_int Let_def)

lemma stoi_show: "in_int_range i \<Longrightarrow> stoi (show_int i) = Inr i"
  using num_token_int [of "[]" i] skip_space_int [of i "[]"] by (auto simp: stoi_def Let_def)

lemma extract_u16_show:
  assumes "rest = [] \<or> \<not> isdigit (hd rest)"
  shows "extract_u16 (SP # show_nat (unat p) @ rest) = (p, Some rest)"
proof -
  obtain c cs where "show_nat (unat p) = c # cs" "isdigit c" using show_nat_Cons by blast
  then have "dropWhile isspace (SP # show_nat (unat p) @ rest) = show_nat (unat p) @ rest"
    using isdigit_not_space by simp
  moreover have "\<not> 65535 < unat p" using unat_u16_bound [of p] by linarith
  ultimately show ?thesis
    using num_token_nat [OF assms, of "unat p"] by (simp add: extract_u16_def Let_def digits_value_show)
qed

definition word_ok :: "string \<Rightarrow> bool" where
  "word_ok w \<longleftrightarrow> w \<noteq> [] \<and> (\<forall>c\<in>set w. \<not> isspace c)"

lemma extract_word_show:
  assumes "word_ok w" and "rest = [] \<or> isspace (hd rest)"
  shows "extract_word (w @ rest) = Some (w, rest)" and "extract_word (SP # w @ rest) = Some (w, rest)"
proof -
  have "dropWhile isspace (w @ rest) = w @ rest" using assms(1) by (cases w) (auto simp: word_ok_def)
  moreover have "takeWhile (Not \<circ> isspace) (w @ rest) = w" "dropWhile (Not \<circ> isspace) (w @ rest) = rest"
    using assms by (auto simp: word_ok_def takeWhile_append dropWhile_append; cases rest; simp)+
  ultimately show "extract_word (w @ rest) = Some (w, rest)" "extract_word (SP # w @ rest) = Some (w, rest)"
    using assms(1) by (auto simp: extract_word_def word_ok_def Let_def)
qed

lemma extract_fmts_show:
  "\<forall>pt\<in>set pts. in_int_range pt \<Longrightarrow> extract_fmts (concat (map (\<lambda>pt. SP # show_int pt) pts)) = pts"
proof (induction pts)
  case Nil
  show ?case by (subst extract_fmts.simps) (simp add: extract_int_def)
next
  case (Cons pt pts)
  let ?rest = "concat (map (\<lambda>pt. SP # show_int pt) pts)"
  have "?rest = [] \<or> \<not> isdigit (hd ?rest)" by (cases pts) simp_all
  then have "extract_int (SP # show_int pt @ ?rest) = Some (pt, ?rest)"
    using Cons.prems by (intro extract_int_show) simp_all
  then show ?case using Cons by (subst extract_fmts.simps) simp
qed

section \<open>Lines read back\<close>

definition parse_from :: "string \<Rightarrow> sdp \<Rightarrow> sdp_error + sdp" where
  "parse_from text s = parse_lines (getlines text) s"

lemma getlines_line: "LF \<notin> set l \<Longrightarrow> getlines (l @ LF # rest) = l # getlines rest"
  by (induction l) auto

lemma CR_LF [simp]: "CR \<noteq> LF" "LF \<noteq> CR" "SP \<noteq> LF" "SP \<noteq> CR" "CHR ''='' \<noteq> LF" "isspace LF" "isspace CR"
  by (simp_all add: CR_def LF_def SP_def isspace_def)

lemma parse_crlf:
  assumes "LF \<notin> set l"
  shows "parse_from (l @ crlf @ rest) s =
    (case parse_line (l @ [CR]) s of Inl e \<Rightarrow> Inl e | Inr s' \<Rightarrow> parse_from rest s')"
  using getlines_line [of "l @ [CR]" rest] assms by (simp add: parse_from_def crlf_def split: sum.split)

lemma parse_line_simps:
  "parse_line (CHR ''v'' # CHR ''='' # x @ [CR]) s = Inr (s\<lparr>s_version := x\<rparr>)"
  "parse_line (CHR ''o'' # CHR ''='' # x @ [CR]) s = Inr (s\<lparr>s_origin := x\<rparr>)"
  "parse_line (CHR ''s'' # CHR ''='' # x @ [CR]) s = Inr (s\<lparr>s_name := x\<rparr>)"
  "parse_line (CHR ''t'' # CHR ''='' # x @ [CR]) s = Inr s"
  "parse_line (CHR ''m'' # CHR ''='' # x @ [CR]) s = Inr (s\<lparr>s_media := s_media s @ [parse_m x]\<rparr>)"
  "s_media s \<noteq> [] \<Longrightarrow> parse_line (CHR ''a'' # CHR ''='' # x @ [CR]) s =
    (case parse_a x (last (s_media s)) of
       Inl e \<Rightarrow> Inl e | Inr m \<Rightarrow> Inr (s\<lparr>s_media := butlast (s_media s) @ [m]\<rparr>))"
  by (simp_all add: parse_line_def)

lemma media_same: "s_media s = xs \<Longrightarrow> s\<lparr>s_media := xs\<rparr> = s"
  by (cases s) simp

lemma parse_attr:
  assumes "LF \<notin> set x" and "s_media s = ms @ [m]"
  shows "parse_from (''a='' @ x @ crlf @ rest) s =
    (case parse_a x m of Inl e \<Rightarrow> Inl e | Inr m' \<Rightarrow> parse_from rest (s\<lparr>s_media := ms @ [m']\<rparr>))"
proof -
  have "LF \<notin> set (''a='' @ x)" using assms(1) by (simp add: LF_def)
  then have "parse_from (''a='' @ x @ crlf @ rest) s =
      (case parse_line (CHR ''a'' # CHR ''='' # x @ [CR]) s of Inl e \<Rightarrow> Inl e | Inr s' \<Rightarrow> parse_from rest s')"
    using parse_crlf [of "''a='' @ x" rest s] by simp
  then show ?thesis using assms(2) by (simp add: parse_line_simps split: sum.split)
qed

lemma after_simps:
  "after n (n @ v) = Some v"
  "n \<noteq> take (length n) v \<Longrightarrow> after n v = None"
  by (auto simp: after_def)

lemma parse_a_simps:
  "parse_a (''rtpmap:'' @ v) m = parse_rtpmap v m"
  "parse_a (''fingerprint:'' @ v) m = Inr (m\<lparr>m_fingerprint := v\<rparr>)"
  "parse_a (''ice-ufrag:'' @ v) m = Inr (m\<lparr>m_ice_ufrag := v\<rparr>)"
  "parse_a (''ice-pwd:'' @ v) m = Inr (m\<lparr>m_ice_pwd := v\<rparr>)"
  "parse_a (''candidate:'' @ v) m = Inr (if m_candidate m = [] then m\<lparr>m_candidate := v\<rparr> else m)"
  by (simp_all add: parse_a_def after_def)

lemma parse_rtpmap_show:
  assumes "in_int_range pt"
  shows "parse_rtpmap (show_int pt @ [SP] @ codec) m = Inr (m\<lparr>m_rtpmap := m_rtpmap m @ [(pt, codec)]\<rparr>)"
proof -
  have "takeWhile (\<lambda>c. c \<noteq> SP) (show_int pt @ SP # codec) = show_int pt"
    "dropWhile (\<lambda>c. c \<noteq> SP) (show_int pt @ SP # codec) = SP # codec"
    using show_int_chars [of _ pt] by (auto simp: takeWhile_append dropWhile_append)
  then show ?thesis by (simp add: parse_rtpmap_def stoi_show [OF assms])
qed

section \<open>Media read back\<close>

definition media_ok :: "sdp_media \<Rightarrow> bool" where
  "media_ok m \<longleftrightarrow> word_ok (m_type m) \<and> word_ok (m_proto m) \<and> (\<forall>pt\<in>set (m_fmts m). in_int_range pt) \<and>
     LF \<notin> set (m_fingerprint m) \<and> LF \<notin> set (m_ice_ufrag m) \<and> LF \<notin> set (m_ice_pwd m) \<and>
     LF \<notin> set (m_candidate m) \<and> (\<forall>(pt, codec)\<in>set (m_rtpmap m). in_int_range pt \<and> LF \<notin> set codec)"

lemma parse_m_show:
  assumes "word_ok ty" and "word_ok proto" and "\<forall>pt\<in>set pts. in_int_range pt"
  shows "parse_m (ty @ [SP] @ show_nat (unat p) @ [SP] @ proto @ concat (map (\<lambda>pt. SP # show_int pt) pts)) =
    SdpMedia\<lparr>m_type := ty, m_port := p, m_proto := proto, m_fmts := pts\<rparr>"
proof -
  let ?fmts = "concat (map (\<lambda>pt. SP # show_int pt) pts)"
  have "?fmts = [] \<or> isspace (hd ?fmts)" by (cases pts) simp_all
  then have "extract_word (SP # proto @ ?fmts) = Some (proto, ?fmts)"
    by (rule extract_word_show(2) [OF assms(2)])
  moreover have "extract_word (ty @ SP # show_nat (unat p) @ SP # proto @ ?fmts) =
      Some (ty, SP # show_nat (unat p) @ SP # proto @ ?fmts)"
    by (rule extract_word_show(1) [OF assms(1)]) simp
  moreover have "extract_u16 (SP # show_nat (unat p) @ SP # proto @ ?fmts) = (p, Some (SP # proto @ ?fmts))"
    by (rule extract_u16_show) simp
  ultimately show ?thesis using extract_fmts_show [OF assms(3)] by (simp add: parse_m_def)
qed

lemma parse_attr_line:
  assumes "LF \<notin> set v" and "LF \<notin> set name" and "s_media s = ms @ [m]"
    and "v \<noteq> [] \<Longrightarrow> parse_a (name @ '':'' @ v) m = Inr m'" and "v = [] \<Longrightarrow> m' = m"
  shows "parse_from (attr_line name v @ rest) s = parse_from rest (s\<lparr>s_media := ms @ [m']\<rparr>)"
proof (cases "v = []")
  case True
  then show ?thesis using assms(3,5) by (simp add: attr_line_def media_same)
next
  case False
  have "LF \<notin> set (name @ '':'' @ v)" using assms(1,2) by (simp add: LF_def)
  from parse_attr [OF this assms(3), of rest] show ?thesis
    using False assms(4) by (simp add: attr_line_def)
qed

lemma parse_rtpmaps:
  "\<forall>(pt, codec)\<in>set rs. in_int_range pt \<and> LF \<notin> set codec \<Longrightarrow> s_media s = ms @ [m] \<Longrightarrow>
   parse_from (concat (map (\<lambda>(pt, codec). ''a=rtpmap:'' @ show_int pt @ [SP] @ codec @ crlf) rs) @ rest) s =
   parse_from rest (s\<lparr>s_media := ms @ [m\<lparr>m_rtpmap := m_rtpmap m @ rs\<rparr>]\<rparr>)"
proof (induction rs arbitrary: s m)
  case (Cons r rs)
  obtain pt codec where r: "r = (pt, codec)" by (cases r)
  let ?x = "''rtpmap:'' @ show_int pt @ [SP] @ codec"
  let ?more = "concat (map (\<lambda>(pt, codec). ''a=rtpmap:'' @ show_int pt @ [SP] @ codec @ crlf) rs) @ rest"
  have ok: "in_int_range pt" "LF \<notin> set codec" using Cons.prems(1) by (auto simp: r)
  then have "LF \<notin> set ?x" using show_int_chars [of LF pt] by (auto simp: LF_def SP_def)
  moreover have "parse_a ?x m = Inr (m\<lparr>m_rtpmap := m_rtpmap m @ [(pt, codec)]\<rparr>)"
    by (simp only: parse_a_simps parse_rtpmap_show [OF ok(1)])
  ultimately have "parse_from (''a='' @ ?x @ crlf @ ?more) s =
      parse_from ?more (s\<lparr>s_media := ms @ [m\<lparr>m_rtpmap := m_rtpmap m @ [(pt, codec)]\<rparr>]\<rparr>)"
    using parse_attr [of ?x s ms m ?more] Cons.prems(2) by simp
  then show ?case
    using Cons.IH [of "s\<lparr>s_media := ms @ [m\<lparr>m_rtpmap := m_rtpmap m @ [(pt, codec)]\<rparr>]\<rparr>"] Cons.prems
    by (simp add: r)
qed (simp add: media_same)

lemma word_no_LF: "word_ok w \<Longrightarrow> LF \<notin> set w"
  by (auto simp: word_ok_def)

lemma parse_media:
  assumes ok: "media_ok m"
  shows "parse_from (serialize_media m @ rest) s = parse_from rest (s\<lparr>s_media := s_media s @ [m]\<rparr>)"
proof -
  let ?fmts = "concat (map (\<lambda>pt. SP # show_int pt) (m_fmts m))"
  let ?l = "m_type m @ [SP] @ show_nat (unat (m_port m)) @ [SP] @ m_proto m @ ?fmts"
  let ?maps = "concat (map (\<lambda>(pt, codec). ''a=rtpmap:'' @ show_int pt @ [SP] @ codec @ crlf) (m_rtpmap m))"
  define m0 where "m0 = SdpMedia\<lparr>m_type := m_type m, m_port := m_port m, m_proto := m_proto m, m_fmts := m_fmts m\<rparr>"
  define upd where "upd m' = s\<lparr>s_media := s_media s @ [m']\<rparr>" for m'
  note no_LF = word_no_LF show_int_chars show_nat_digits isdigit_not_space
  have w: "word_ok (m_type m)" "word_ok (m_proto m)" "\<forall>pt\<in>set (m_fmts m). in_int_range pt"
    and v: "LF \<notin> set (m_ice_ufrag m)" "LF \<notin> set (m_ice_pwd m)" "LF \<notin> set (m_fingerprint m)" "LF \<notin> set (m_candidate m)"
    and r: "\<forall>(pt, codec)\<in>set (m_rtpmap m). in_int_range pt \<and> LF \<notin> set codec"
    using ok by (simp_all add: media_ok_def)
  have "LF \<notin> set (show_nat n)" for n using show_nat_digits isdigit_not_space by blast
  moreover have "LF \<notin> set ?fmts" using show_int_chars [of LF] CR_LF(3) [symmetric] by auto
  ultimately have "LF \<notin> set (''m='' @ ?l)" using word_no_LF w(1,2) by (simp add: LF_def SP_def)
  note line = parse_crlf [OF this]
  have "parse_line ((''m='' @ ?l) @ [CR]) s = Inr (upd m0)"
    using parse_line_simps(5) [of ?l s] parse_m_show [OF w, of "m_port m"] by (simp add: upd_def m0_def)
  then have "parse_from ((''m='' @ ?l) @ crlf @ t) s = parse_from t (upd m0)" for t
    by (simp only: line sum.case)
  then have 1: "parse_from (''m='' @ ?l @ crlf @ t) s = parse_from t (upd m0)" for t
    by (simp only: append_assoc)
  have media: "s_media (upd m') = s_media s @ [m']" and twice: "(upd m')\<lparr>s_media := s_media s @ [m'']\<rparr> = upd m''"
    for m' m'' by (simp_all add: upd_def)
  note attr = parse_attr_line [OF _ _ media, unfolded twice]
  have 2: "parse_from (attr_line ''ice-ufrag'' (m_ice_ufrag m) @ t) (upd m0) =
      parse_from t (upd (m0\<lparr>m_ice_ufrag := m_ice_ufrag m\<rparr>))" for t
    using v parse_a_simps(3) [of "m_ice_ufrag m" m0] by (intro attr) (simp_all add: LF_def m0_def SdpMedia_def)
  have 3: "parse_from (attr_line ''ice-pwd'' (m_ice_pwd m) @ t) (upd m') =
      parse_from t (upd (m'\<lparr>m_ice_pwd := m_ice_pwd m\<rparr>))" if "m_ice_pwd m' = []" for t m'
    using v that parse_a_simps(4) [of "m_ice_pwd m" m'] by (intro attr) (simp_all add: LF_def)
  have 4: "parse_from (attr_line ''fingerprint'' (m_fingerprint m) @ t) (upd m') =
      parse_from t (upd (m'\<lparr>m_fingerprint := m_fingerprint m\<rparr>))" if "m_fingerprint m' = []" for t m'
    using v that parse_a_simps(2) [of "m_fingerprint m" m'] by (intro attr) (simp_all add: LF_def)
  have 5: "parse_from (attr_line ''candidate'' (m_candidate m) @ t) (upd m') =
      parse_from t (upd (m'\<lparr>m_candidate := m_candidate m\<rparr>))" if "m_candidate m' = []" for t m'
    using v that parse_a_simps(5) [of "m_candidate m" m'] by (intro attr) (simp_all add: LF_def)
  have 6: "parse_from (?maps @ t) (upd m') = parse_from t (upd (m'\<lparr>m_rtpmap := m_rtpmap m' @ m_rtpmap m\<rparr>))" for t m'
    using parse_rtpmaps [OF r media] unfolding twice by simp
  have "parse_from (serialize_media m @ rest) s = parse_from rest (upd m)"
    unfolding serialize_media_def append_assoc using 1 2 3 4 5 6
    by (cases m) (simp add: m0_def SdpMedia_def)
  then show ?thesis by (simp add: upd_def)
qed

lemma parse_medias:
  "\<forall>m\<in>set ms. media_ok m \<Longrightarrow>
   parse_from (concat (map serialize_media ms)) s = Inr (s\<lparr>s_media := s_media s @ ms\<rparr>)"
proof (induction ms arbitrary: s)
  case Nil
  then show ?case by (simp add: parse_from_def media_same)
next
  case (Cons m ms)
  then show ?case using parse_media [of m "concat (map serialize_media ms)" s] by simp
qed

section \<open>Properties\<close>

definition sdp_ok :: "sdp \<Rightarrow> bool" where
  "sdp_ok s \<longleftrightarrow> LF \<notin> set (s_version s) \<and> LF \<notin> set (s_origin s) \<and> LF \<notin> set (s_name s) \<and>
     (\<forall>m\<in>set (s_media s). media_ok m)"

lemma sdp_read_back:
  assumes "sdp_ok s"
  shows "sdp_parse (sdp_serialize s) = Inr s"
proof -
  have LF: "LF \<notin> set (''v='' @ s_version s)" "LF \<notin> set (''o='' @ s_origin s)" "LF \<notin> set (''s='' @ s_name s)"
    "LF \<notin> set ''t=0 0''"
    using assms by (auto simp: sdp_ok_def LF_def)
  have "parse_from (sdp_serialize s) Sdp =
      parse_from (concat (map serialize_media (s_media s)))
        (Sdp\<lparr>s_version := s_version s, s_origin := s_origin s, s_name := s_name s\<rparr>)"
    using parse_crlf [OF LF(1)] parse_crlf [OF LF(2)] parse_crlf [OF LF(3)] parse_crlf [OF LF(4)]
    by (simp add: sdp_serialize_def parse_line_simps parse_line_simps(4) [of "''0 0''", simplified])
  also have "\<dots> = Inr s"
    using assms by (subst parse_medias) (auto simp: sdp_ok_def Sdp_def)
  finally show ?thesis by (simp add: sdp_parse_def parse_from_def)
qed

text \<open>C28. The round trip.  A description whose texts contain no line feed, whose media types and protocols are
  single words and whose payload types are in the range of \<open>int\<close> is read back exactly as it was written, with
  all its media, formats, attributes and \<open>rtpmap\<close> entries in order.\<close>

theorem sdp_roundtrip:
  assumes "sdp_ok s"
  shows "sdp_parse (sdp_serialize s) = Inr s"
  using assms by (rule sdp_read_back)

lemma sdp_roundtrip_witness:
  "sdp_parse (sdp_serialize (Sdp\<lparr>s_origin := ''- 1 1 IN IP4 0'', s_media :=
     [SdpMedia\<lparr>m_type := ''audio'', m_proto := ''UDP'', m_fmts := [111, -1], m_ice_ufrag := ''u'',
       m_rtpmap := [(111, ''opus/48000'')]\<rparr>]\<rparr>)) =
   Inr (Sdp\<lparr>s_origin := ''- 1 1 IN IP4 0'', s_media :=
     [SdpMedia\<lparr>m_type := ''audio'', m_proto := ''UDP'', m_fmts := [111, -1], m_ice_ufrag := ''u'',
       m_rtpmap := [(111, ''opus/48000'')]\<rparr>]\<rparr>)"
  by (rule sdp_roundtrip)
    (simp add: sdp_ok_def media_ok_def word_ok_def Sdp_def SdpMedia_def in_int_range_def isspace_def SP_def LF_def)

text \<open>A well-formed text can be followed by more lines.\<close>

lemma getlines_append:
  "a = [] \<or> last a = LF \<Longrightarrow> getlines (a @ b) = getlines a @ getlines b"
proof (induction a rule: getlines.induct)
  case (2 c cs)
  show ?case
  proof (cases "cs = []")
    case True
    then show ?thesis using 2 by simp
  next
    case False
    then have "last cs = LF" using "2.prems" by simp
    then have "getlines (cs @ b) = getlines cs @ getlines b" using "2.IH" by (cases "c = LF") simp_all
    moreover have "getlines cs \<noteq> []" using False by (cases cs) (auto split: list.split)
    ultimately show ?thesis by (auto split: list.split)
  qed
qed simp

lemma parse_lines_append:
  "parse_lines (xs @ ys) s = (case parse_lines xs s of Inl e \<Rightarrow> Inl e | Inr s' \<Rightarrow> parse_lines ys s')"
  by (induction xs arbitrary: s) (auto split: sum.split)

text \<open>Malformed input is not an empty optional but an exception: after any text that is accepted and has a
  medium, an \<open>rtpmap\<close> line whose payload type does not begin with a digit (after spaces and a sign) makes
  \<open>std::stoi\<close> throw \<open>std::invalid_argument\<close> out of \<open>parse\<close>, and one that exceeds \<open>int\<close> makes it
  throw \<open>std::out_of_range\<close>.\<close>

theorem sdp_parse_throws:
  assumes "sdp_parse text = Inr s" and "s_media s \<noteq> []" and "text \<noteq> []" and "last text = LF"
    and "SP \<notin> set pt" and "LF \<notin> set pt" and "LF \<notin> set codec" and "stoi pt = Inl e"
  shows "sdp_parse (text @ ''a=rtpmap:'' @ pt @ [SP] @ codec @ crlf @ tail) = Inl e"
proof -
  let ?x = "''rtpmap:'' @ pt @ [SP] @ codec"
  obtain ms m where ms: "s_media s = ms @ [m]" using assms(2) by (metis append_butlast_last_id)
  have "sdp_parse (text @ ''a='' @ ?x @ crlf @ tail) = parse_from (''a='' @ ?x @ crlf @ tail) s"
    using assms(1,3,4) by (simp add: sdp_parse_def getlines_append parse_lines_append parse_from_def)
  also have "\<dots> = (case parse_a ?x m of Inl e \<Rightarrow> Inl e | Inr m' \<Rightarrow> parse_from tail (s\<lparr>s_media := ms @ [m']\<rparr>))"
    using assms(6,7) by (intro parse_attr ms) (simp add: LF_def SP_def)
  also have "parse_a ?x m = Inl e"
  proof -
    have "takeWhile (\<lambda>c. c \<noteq> SP) (pt @ SP # codec) = pt"
      using assms(5) by (induction pt) auto
    then show ?thesis
      unfolding parse_a_simps using assms(8) by (simp add: parse_rtpmap_def)
  qed
  finally show ?thesis by simp
qed

lemma sdp_parse_throws_witness:
  "sdp_parse (sdp_serialize (Sdp\<lparr>s_media := [SdpMedia\<lparr>m_type := ''a'', m_proto := ''U''\<rparr>]\<rparr>) @
     ''a=rtpmap:'' @ ''x'' @ [SP] @ ''opus'' @ crlf @ []) = Inl Invalid_argument"
proof (rule sdp_parse_throws)
  let ?s = "Sdp\<lparr>s_media := [SdpMedia\<lparr>m_type := ''a'', m_proto := ''U''\<rparr>]\<rparr>"
  show "sdp_parse (sdp_serialize ?s) = Inr ?s"
    by (rule sdp_roundtrip)
      (simp add: sdp_ok_def media_ok_def word_ok_def Sdp_def SdpMedia_def isspace_def SP_def LF_def)
  show "last (sdp_serialize ?s) = LF"
    by (simp add: sdp_serialize_def serialize_media_def attr_line_def crlf_def SdpMedia_def)
  show "stoi ''x'' = Inl Invalid_argument"
    by (simp add: stoi_def num_token_def isspace_def isdigit_def SP_def)
qed (simp_all add: sdp_serialize_def SP_def LF_def)

end
