(* ===== verification/WhiteboardJson.thy ===== *)
theory WhiteboardJson
  imports Whiteboard JsonLib
begin

text \<open>
  The text form of \<open>CrdtWhiteboard\<close> (\<open>serialize_json\<close> and \<open>parse_json\<close> of \<open>crdt_whiteboard.cpp\<close>).  The JSON
  library is an argument; \<open>dump\<close> may throw, and then so does \<open>serialize_json\<close>.  \<open>parse_json\<close> catches every
  exception and answers whether there was none; it returns the whiteboard as it then is.
\<close>

section \<open>Writing\<close>

definition point_json :: "'j json_lib \<Rightarrow> point \<Rightarrow> 'j" where
  "point_json L p = j_obj L [(''x'', j_float L (px p)), (''y'', j_float L (py p))]"

definition added_json :: "'j json_lib \<Rightarrow> add_entry \<Rightarrow> 'j" where
  "added_json L e =
     j_obj L [(''uuid'', j_str L (uuid (ae_stroke e))), (''color'', j_u32 L (color (ae_stroke e))),
              (''width'', j_float L (width (ae_stroke e))), (''ts'', j_u64 L (ae_ts e)),
              (''peer_id'', j_str L (ae_pid e)),
              (''points'', j_arr L (map (point_json L) (points (ae_stroke e))))]"

definition removed_json :: "'j json_lib \<Rightarrow> string \<Rightarrow> remove_entry \<Rightarrow> 'j" where
  "removed_json L k e =
     j_obj L [(''uuid'', j_str L k), (''ts'', j_u64 L (re_ts e)), (''peer_id'', j_str L (re_pid e))]"

text \<open>\<open>as\<close> and \<open>rs\<close> are the entries of the two maps in the order of the iteration.\<close>

definition whiteboard_json ::
    "'j json_lib \<Rightarrow> (string \<times> add_entry) list \<Rightarrow> (string \<times> remove_entry) list \<Rightarrow> whiteboard \<Rightarrow> 'j" where
  "whiteboard_json L as rs w =
     j_obj L [(''peer_id'', j_str L (peer_id w)), (''lamport_ts'', j_u64 L (lamport_ts w)),
              (''added'', j_arr L (map (\<lambda>(_, e). added_json L e) as)),
              (''removed'', j_arr L (map (\<lambda>(k, e). removed_json L k e) rs))]"

definition serialize_json ::
    "'j json_lib \<Rightarrow> (string \<times> add_entry) list \<Rightarrow> (string \<times> remove_entry) list \<Rightarrow> whiteboard \<Rightarrow> string option" where
  "serialize_json L as rs w = j_dump L (whiteboard_json L as rs w)"

section \<open>Reading\<close>

text \<open>\<open>e.at(key).get<T>()\<close>.\<close>

definition field :: "'j json_lib \<Rightarrow> ('j \<Rightarrow> 'a option) \<Rightarrow> string \<Rightarrow> 'j \<Rightarrow> 'a option" where
  "field L get k j = Option.bind (j_at L k j) get"

definition point_of :: "'j json_lib \<Rightarrow> 'j \<Rightarrow> point option" where
  "point_of L j =
     Option.bind (field L (get_float L) ''x'' j) (\<lambda>x.
     Option.bind (field L (get_float L) ''y'' j) (\<lambda>y. Some \<lparr>px = x, py = y\<rparr>))"

definition add_entry_of :: "'j json_lib \<Rightarrow> 'j \<Rightarrow> add_entry option" where
  "add_entry_of L j =
     Option.bind (field L (get_str L) ''uuid'' j) (\<lambda>k.
     Option.bind (field L (get_u32 L) ''color'' j) (\<lambda>c.
     Option.bind (field L (get_float L) ''width'' j) (\<lambda>wd.
     Option.bind (j_at L ''points'' j) (\<lambda>pts.
     Option.bind (those (map (point_of L) (j_elems L pts))) (\<lambda>ps.
     Option.bind (field L (get_u64 L) ''ts'' j) (\<lambda>ts.
     Option.bind (field L (get_str L) ''peer_id'' j) (\<lambda>pid.
       Some (AddEntry \<lparr>uuid = k, points = ps, color = c, width = wd\<rparr> ts pid))))))))"

definition remove_entry_of :: "'j json_lib \<Rightarrow> 'j \<Rightarrow> (string \<times> remove_entry) option" where
  "remove_entry_of L j =
     Option.bind (field L (get_str L) ''uuid'' j) (\<lambda>k.
     Option.bind (field L (get_u64 L) ''ts'' j) (\<lambda>ts.
     Option.bind (field L (get_str L) ''peer_id'' j) (\<lambda>pid. Some (k, RemoveEntry ts pid))))"

fun load_added :: "'j json_lib \<Rightarrow> 'j list \<Rightarrow> whiteboard \<Rightarrow> whiteboard \<times> bool" where
  "load_added L [] w = (w, True)"
| "load_added L (j # js) w =
     (case add_entry_of L j of
        None \<Rightarrow> (w, False)
      | Some e \<Rightarrow> load_added L js (w\<lparr>added := (added w)(uuid (ae_stroke e) \<mapsto> e)\<rparr>))"

fun load_removed :: "'j json_lib \<Rightarrow> 'j list \<Rightarrow> whiteboard \<Rightarrow> whiteboard \<times> bool" where
  "load_removed L [] w = (w, True)"
| "load_removed L (j # js) w =
     (case remove_entry_of L j of
        None \<Rightarrow> (w, False)
      | Some (k, e) \<Rightarrow> load_removed L js (w\<lparr>removed := (removed w)(k \<mapsto> e)\<rparr>))"

definition parse_json :: "'j json_lib \<Rightarrow> string \<Rightarrow> whiteboard \<Rightarrow> whiteboard \<times> bool" where
  "parse_json L s w =
     (case j_parse L s of None \<Rightarrow> (w, False) | Some j \<Rightarrow>
     (case field L (get_str L) ''peer_id'' j of None \<Rightarrow> (w, False) | Some pid \<Rightarrow>
      let w1 = w\<lparr>peer_id := pid\<rparr> in
     (case field L (get_u64 L) ''lamport_ts'' j of None \<Rightarrow> (w1, False) | Some ts \<Rightarrow>
      let w2 = w1\<lparr>lamport_ts := ts, added := Map.empty\<rparr> in
     (case j_at L ''added'' j of None \<Rightarrow> (w2, False) | Some arr \<Rightarrow>
     (case load_added L (j_elems L arr) w2 of (w3, ok) \<Rightarrow>
      if \<not> ok then (w3, False)
      else let w4 = w3\<lparr>removed := Map.empty\<rparr> in
     (case j_at L ''removed'' j of None \<Rightarrow> (w4, False) | Some arr \<Rightarrow>
        load_removed L (j_elems L arr) w4))))))"

section \<open>Entries read back\<close>

lemma point_back: "json_laws L \<Longrightarrow> point_of L (point_json L p) = Some p"
  by (simp add: point_of_def point_json_def field_def json_simps)

lemma points_back: "json_laws L \<Longrightarrow> those (map (point_of L \<circ> point_json L) ps) = Some ps"
  by (induction ps) (simp_all add: point_back)

lemma add_entry_back: "json_laws L \<Longrightarrow> add_entry_of L (added_json L e) = Some e"
  by (cases e) (simp add: add_entry_of_def added_json_def field_def json_simps points_back)

lemma remove_entry_back: "json_laws L \<Longrightarrow> remove_entry_of L (removed_json L k e) = Some (k, e)"
  by (cases e) (simp add: remove_entry_of_def removed_json_def field_def json_simps)

lemma load_added_back:
  assumes "json_laws L"
  shows "\<forall>(k, e)\<in>set as. uuid (ae_stroke e) = k \<Longrightarrow> distinct (map fst as) \<Longrightarrow>
    load_added L (map (\<lambda>(_, e). added_json L e) as) w = (w\<lparr>added := added w ++ map_of as\<rparr>, True)"
proof (induction as arbitrary: w)
  case (Cons a as)
  obtain k e where a: "a = (k, e)" by (cases a)
  have "map_of as k = None" using Cons.prems(2) by (simp add: a map_of_eq_None_iff)
  then have "(added w)(k \<mapsto> e) ++ map_of as = added w ++ map_of (a # as)"
    by (simp add: a map_add_upd_left domIff del: fun_upd_apply)
  moreover have "load_added L (map (\<lambda>(_, e). added_json L e) (a # as)) w =
      load_added L (map (\<lambda>(_, e). added_json L e) as) (w\<lparr>added := (added w)(k \<mapsto> e)\<rparr>)"
    using Cons.prems(1) by (simp add: a add_entry_back [OF assms])
  moreover have "load_added L (map (\<lambda>(_, e). added_json L e) as) (w\<lparr>added := (added w)(k \<mapsto> e)\<rparr>) =
      (w\<lparr>added := (added w)(k \<mapsto> e) ++ map_of as\<rparr>, True)"
    using Cons.prems by (subst Cons.IH) simp_all
  ultimately show ?case by (simp only:)
qed simp

lemma load_removed_back:
  assumes "json_laws L"
  shows "distinct (map fst rs) \<Longrightarrow>
    load_removed L (map (\<lambda>(k, e). removed_json L k e) rs) w = (w\<lparr>removed := removed w ++ map_of rs\<rparr>, True)"
proof (induction rs arbitrary: w)
  case (Cons a rs)
  obtain k e where a: "a = (k, e)" by (cases a)
  have "map_of rs k = None" using Cons.prems by (simp add: a map_of_eq_None_iff)
  then have "(removed w)(k \<mapsto> e) ++ map_of rs = removed w ++ map_of (a # rs)"
    by (simp add: a map_add_upd_left domIff del: fun_upd_apply)
  moreover have "load_removed L (map (\<lambda>(k, e). removed_json L k e) (a # rs)) w =
      load_removed L (map (\<lambda>(k, e). removed_json L k e) rs) (w\<lparr>removed := (removed w)(k \<mapsto> e)\<rparr>)"
    by (simp add: a remove_entry_back [OF assms])
  moreover have "load_removed L (map (\<lambda>(k, e). removed_json L k e) rs) (w\<lparr>removed := (removed w)(k \<mapsto> e)\<rparr>) =
      (w\<lparr>removed := (removed w)(k \<mapsto> e) ++ map_of rs\<rparr>, True)"
    using Cons.prems by (subst Cons.IH) simp_all
  ultimately show ?case by (simp only:)
qed simp

section \<open>Properties\<close>

definition keys_match :: "whiteboard \<Rightarrow> bool" where
  "keys_match w \<longleftrightarrow> (\<forall>k. case added w k of None \<Rightarrow> True | Some e \<Rightarrow> uuid (ae_stroke e) = k)"

lemma parse_whiteboard:
  assumes L: "json_laws L" and it: "iterates as (added w)" "iterates rs (removed w)" and k: "keys_match w"
    and doc: "json_faithful L (whiteboard_json L as rs w)"
  shows "\<exists>s. serialize_json L as rs w = Some s \<and> parse_json L s w' = (w, True)"
proof -
  obtain s where s: "serialize_json L as rs w = Some s" "j_parse L s = Some (whiteboard_json L as rs w)"
    using doc by (auto simp: json_faithful_def serialize_json_def split: option.splits)
  have "uuid (ae_stroke e) = k'" if "(k', e) \<in> set as" for k' e
  proof -
    have "added w k' = Some e" using iterates_iff [OF it(1)] that by blast
    then show ?thesis using k [unfolded keys_match_def, rule_format, of k'] by simp
  qed
  then have "\<forall>(k', e)\<in>set as. uuid (ae_stroke e) = k'" by auto
  note added = load_added_back [OF L this]
  have "parse_json L s w' = (w, True)"
    using it load_removed_back [OF L] added
    by (cases w) (simp add: parse_json_def s(2) whiteboard_json_def field_def json_simps [OF L] iterates_def)
  with s(1) show ?thesis by blast
qed

text \<open>The text form is faithful: whatever order the maps are iterated in, the receiver that reads what
  \<open>serialize_json\<close> wrote, whatever it held before, ends with exactly the sender's whiteboard.\<close>

theorem wb_json_roundtrip:
  assumes "json_laws L" and "iterates as (added w)" and "iterates rs (removed w)" and "keys_match w"
    and "json_faithful L (whiteboard_json L as rs w)"
  shows "map_option (\<lambda>s. parse_json L s w') (serialize_json L as rs w) = Some (w, True)"
  using parse_whiteboard [OF assms, of w'] by auto

text \<open>Reading is not atomic: a text with a peer name and a clock but without \<open>added\<close> is refused, and the
  whiteboard has then lost every stroke and taken the name and the clock of the text.\<close>

theorem wb_json_refused_but_cleared:
  assumes "json_laws L" and "j_parse L s = Some (j_obj L [(''peer_id'', j_str L pid), (''lamport_ts'', j_u64 L ts)])"
  shows "parse_json L s w = (w\<lparr>peer_id := pid, lamport_ts := ts, added := Map.empty\<rparr>, False) \<and>
    \<not> is_visible (fst (parse_json L s w)) k"
  using assms by (simp add: parse_json_def field_def json_simps is_visible_def)

text \<open>The text also carries the sender's identity, and the receiver takes it.  A whiteboard synchronised
  this way and its source sign the next stroke with the same stamp; when they exchange these two strokes,
  each keeps its own, and no further exchange of them changes that.\<close>

theorem wb_json_clones_identity:
  assumes "json_laws L" and "iterates as (added w)" and "iterates rs (removed w)" and "keys_match w"
    and "json_faithful L (whiteboard_json L as rs w)" and "serialize_json L as rs w = Some text"
    and "copy = fst (parse_json L text w')"
    and "added w k = None" and "uuid s1 = k" and "uuid s2 = k" and "s1 \<noteq> s2"
    and "op1 = AddEntry s1 (lamport_ts w + 1) (peer_id w)" and "op2 = AddEntry s2 (lamport_ts w + 1) (peer_id w)"
    and "w1 = remote_add (ae_stroke op2) (ae_ts op2) (ae_pid op2) (local_add s1 w)"
    and "w2 = remote_add (ae_stroke op1) (ae_ts op1) (ae_pid op1) (local_add s2 copy)"
  shows "added w1 k = Some op1 \<and> added w2 k = Some op2 \<and> op1 \<noteq> op2"
proof -
  have copy: "copy = w" using parse_whiteboard [OF assms(1-5), of w'] assms(6,7) by auto
  have "added (local_add s1 w) k = Some op1" "added (local_add s2 w) k = Some op2"
    using assms(8-10) by (simp_all add: local_add_def put_add_def tick_def assms(12,13))
  moreover have "\<not> lww_wins t p t p" for t p by (simp add: lww_wins_def)
  ultimately show ?thesis
    using assms(9-11) unfolding assms(14,15) copy
    by (auto simp: remote_add_def put_add_def update_clock_def assms(12,13))
qed

section \<open>Witnesses\<close>

definition red_dot :: stroke where
  "red_dot = \<lparr>uuid = ''s'', points = [\<lparr>px = 0x3F800000, py = 0x40000000\<rparr>], color = 0xFFFF0000, width = 0x40000000\<rparr>"

definition board :: whiteboard where
  "board = \<lparr>peer_id = ''a'', lamport_ts = 7, added = [''s'' \<mapsto> AddEntry red_dot 3 ''a''],
     removed = [''s'' \<mapsto> RemoveEntry 5 ''b'']\<rparr>"

definition board_added :: "(string \<times> add_entry) list" where
  "board_added = [(''s'', AddEntry red_dot 3 ''a'')]"

definition board_removed :: "(string \<times> remove_entry) list" where
  "board_removed = [(''s'', RemoveEntry 5 ''b'')]"

definition board_doc :: tree where
  "board_doc = whiteboard_json (tree_lib []) board_added board_removed board"

lemma board_doc_any: "whiteboard_json (tree_lib docs) board_added board_removed board = board_doc"
  by (simp add: board_doc_def whiteboard_json_def added_json_def removed_json_def point_json_def tree_lib_def
      cong: map_cong)

lemma board_ok:
  "iterates board_added (added board)" "iterates board_removed (removed board)" "keys_match board"
  "json_faithful (tree_lib [(''B'', board_doc)]) (whiteboard_json (tree_lib [(''B'', board_doc)]) board_added board_removed board)"
  using tree_faithful [of "''B''" board_doc]
  by (simp_all add: board_added_def board_removed_def board_def iterates_def keys_match_def red_dot_def
      board_doc_any [unfolded board_added_def board_removed_def board_def red_dot_def])

lemma wb_json_roundtrip_witness:
  "map_option (\<lambda>s. parse_json (tree_lib [(''B'', board_doc)]) s (CrdtWhiteboard ''z''))
     (serialize_json (tree_lib [(''B'', board_doc)]) board_added board_removed board) = Some (board, True)"
  by (rule wb_json_roundtrip [OF tree_laws board_ok])

definition refused_doc :: tree where
  "refused_doc = TObj [(''peer_id'', TStr ''q''), (''lamport_ts'', TU64 9)]"

lemma wb_json_refused_but_cleared_witness:
  "parse_json (tree_lib [(''R'', refused_doc)]) ''R'' board =
     (board\<lparr>peer_id := ''q'', lamport_ts := 9, added := Map.empty\<rparr>, False)"
  using wb_json_refused_but_cleared [OF tree_laws, of "[(''R'', refused_doc)]" "''R''" "''q''" 9 board]
  by (simp add: tree_lib_def refused_doc_def)

definition new_stroke :: "u32 \<Rightarrow> stroke" where
  "new_stroke c = \<lparr>uuid = ''n'', points = [], color = c, width = 0\<rparr>"

lemma wb_json_clones_identity_witness:
  "added (remote_add (new_stroke 2) 8 ''a'' (local_add (new_stroke 1) board)) ''n'' = Some (AddEntry (new_stroke 1) 8 ''a'') \<and>
   added (remote_add (new_stroke 1) 8 ''a'' (local_add (new_stroke 2)
     (fst (parse_json (tree_lib [(''B'', board_doc)]) ''B'' (CrdtWhiteboard ''z''))))) ''n'' =
     Some (AddEntry (new_stroke 2) 8 ''a'')"
proof -
  have s: "serialize_json (tree_lib [(''B'', board_doc)]) board_added board_removed board = Some ''B''"
    by (simp add: serialize_json_def board_doc_any) (simp add: tree_lib_def)
  show ?thesis
    using wb_json_clones_identity [where k = "''n''" and ?op1.0 = "AddEntry (new_stroke 1) 8 ''a''" and
        ?op2.0 = "AddEntry (new_stroke 2) 8 ''a''" and w' = "CrdtWhiteboard ''z''", OF tree_laws board_ok s refl
        _ _ _ _ _ _ refl refl, of "new_stroke 1" "new_stroke 2"]
    by (simp add: board_def new_stroke_def)
qed

end
