(* ===== verification/Dtls.thy ===== *)
theory Dtls
  imports Stun RtpPacket
begin

text \<open>
  \<open>DtlsTransport\<close> of \<open>module04_dtls_srtp\<close> (\<open>dtls_transport.h\<close>, \<open>dtls_transport.cpp\<close>), the operations on an
  initialised transport.  OpenSSL is not part of the repository: its functions over an opaque state (the SSL
  object and its two memory BIOs) are an argument.  A read that returns nothing is one whose result is not
  positive; a read loop may not end, so it is a partial function with an option.
\<close>

section \<open>The transport\<close>

record 's openssl =
  bio_write :: "bytes \<Rightarrow> 's \<Rightarrow> 's"
  bio_read :: "nat \<Rightarrow> 's \<Rightarrow> bytes \<times> 's"
  do_handshake :: "'s \<Rightarrow> int \<times> 's"
  handle_timeout :: "'s \<Rightarrow> 's"
  ssl_write :: "bytes \<Rightarrow> 's \<Rightarrow> 's"
  ssl_read :: "nat \<Rightarrow> 's \<Rightarrow> bytes \<times> 's"
  export_keying_material :: "nat \<Rightarrow> string \<Rightarrow> 's \<Rightarrow> bytes option"
  cert_sha256 :: "'s \<Rightarrow> bytes option"

record 's dtls_transport =
  ssl :: 's
  handshake_done :: bool

definition feed_data :: "'s openssl \<Rightarrow> bytes \<Rightarrow> 's dtls_transport \<Rightarrow> 's dtls_transport" where
  "feed_data lib d t = t\<lparr>ssl := bio_write lib d (ssl t)\<rparr>"

definition drive_handshake :: "'s openssl \<Rightarrow> 's dtls_transport \<Rightarrow> 's dtls_transport" where
  "drive_handshake lib t =
     (if handshake_done t then t
      else case do_handshake lib (ssl t) of (ret, s) \<Rightarrow>
        if ret = 1 then t\<lparr>ssl := s, handshake_done := True\<rparr> else t\<lparr>ssl := s\<rparr>)"

definition drive_timeout :: "'s openssl \<Rightarrow> 's dtls_transport \<Rightarrow> 's dtls_transport" where
  "drive_timeout lib t = (if handshake_done t then t else t\<lparr>ssl := handle_timeout lib (ssl t)\<rparr>)"

text \<open>\<open>while ((n = read(buf, 4096)) > 0) result.insert(...)\<close>.\<close>

partial_function (option) read_all :: "(nat \<Rightarrow> 's \<Rightarrow> bytes \<times> 's) \<Rightarrow> bytes \<Rightarrow> 's \<Rightarrow> (bytes \<times> 's) option" where
  "read_all rd result s =
     (let (d, s') = rd 4096 s in if d = [] then Some (result, s') else read_all rd (result @ d) s')"

definition pending_send :: "'s openssl \<Rightarrow> 's dtls_transport \<Rightarrow> (bytes \<times> 's dtls_transport) option" where
  "pending_send lib t = map_option (\<lambda>(d, s). (d, t\<lparr>ssl := s\<rparr>)) (read_all (bio_read lib) [] (ssl t))"

definition encrypt :: "'s openssl \<Rightarrow> bytes \<Rightarrow> 's dtls_transport \<Rightarrow> (bytes \<times> 's dtls_transport) option" where
  "encrypt lib plain t =
     (if \<not> handshake_done t then Some ([], t)
      else pending_send lib (t\<lparr>ssl := ssl_write lib plain (ssl t)\<rparr>))"

definition decrypt :: "'s openssl \<Rightarrow> 's dtls_transport \<Rightarrow> (bytes \<times> 's dtls_transport) option" where
  "decrypt lib t =
     (if \<not> handshake_done t then Some ([], t)
      else map_option (\<lambda>(d, s). (d, t\<lparr>ssl := s\<rparr>)) (read_all (ssl_read lib) [] (ssl t)))"

text \<open>\<open>None\<close> is the result false.\<close>

definition export_srtp_keying_material :: "'s openssl \<Rightarrow> 's dtls_transport \<Rightarrow> bytes option" where
  "export_srtp_keying_material lib t =
     (if \<not> handshake_done t then None else export_keying_material lib 60 ''EXTRACTOR-dtls_srtp'' (ssl t))"

definition hex_digit :: "nat \<Rightarrow> char" where
  "hex_digit n = ''0123456789ABCDEF'' ! n"

definition hex_byte :: "u8 \<Rightarrow> string" where
  "hex_byte b = [hex_digit (unat b div 16), hex_digit (unat b mod 16)]"

definition hex_colons :: "bytes \<Rightarrow> string" where
  "hex_colons digest =
     concat (map (\<lambda>i. (if i > 0 then '':'' else []) @ hex_byte (digest ! i)) [0..<length digest])"

definition local_fingerprint :: "'s openssl \<Rightarrow> 's dtls_transport \<Rightarrow> string" where
  "local_fingerprint lib t = (case cert_sha256 lib (ssl t) of None \<Rightarrow> [] | Some digest \<Rightarrow> hex_colons digest)"

definition is_dtls :: "bytes \<Rightarrow> bool" where
  "is_dtls d = (if length d < 1 then False else d ! 0 \<ge> 20 \<and> d ! 0 \<le> 63)"

section \<open>The read loop\<close>

text \<open>A memory BIO is a queue of bytes: \<open>q\<close> is its content.\<close>

definition reads_queue :: "(nat \<Rightarrow> 's \<Rightarrow> bytes \<times> 's) \<Rightarrow> ('s \<Rightarrow> bytes) \<Rightarrow> bool" where
  "reads_queue rd q \<longleftrightarrow> (\<forall>n s. fst (rd n s) = take n (q s) \<and> q (snd (rd n s)) = drop n (q s))"

lemma read_all_queue:
  assumes "reads_queue rd q"
  shows "\<exists>s'. read_all rd result s = Some (result @ q s, s') \<and> q s' = []"
proof (induction "length (q s)" arbitrary: s result rule: less_induct)
  case less
  obtain d s' where rd: "rd 4096 s = (d, s')" by (cases "rd 4096 s")
  then have d: "d = take 4096 (q s)" "q s' = drop 4096 (q s)"
    using assms unfolding reads_queue_def by (metis fst_conv, metis snd_conv)
  show ?case
  proof (cases "q s = []")
    case True
    then show ?thesis using rd d by (subst read_all.simps) simp
  next
    case False
    then have "length (q s') < length (q s)" by (simp add: d)
    then obtain s'' where "read_all rd (result @ d) s' = Some ((result @ d) @ q s', s'')" "q s'' = []"
      using less by blast
    then show ?thesis using rd d False by (subst read_all.simps) simp
  qed
qed

text \<open>\<open>pending_send\<close> terminates and empties the outgoing BIO: whatever the BIO holds, however many reads of
  4096 bytes that takes, the result is exactly its content.\<close>

theorem dtls_pending_send:
  assumes "reads_queue (bio_read lib) q"
  shows "case pending_send lib t of
      None \<Rightarrow> False
    | Some (d, t') \<Rightarrow> d = q (ssl t) \<and> q (ssl t') = [] \<and> handshake_done t' = handshake_done t"
  using read_all_queue [OF assms, of "[]" "ssl t"] by (auto simp: pending_send_def)

definition queue_ssl :: "(bytes \<times> bool) openssl" where
  "queue_ssl = \<lparr>
     bio_write = (\<lambda>d s. s), bio_read = (\<lambda>n (q, e). (take n q, (drop n q, e))),
     do_handshake = (\<lambda>(q, e). (if e then 1 else -1, (q @ [22], True))),
     handle_timeout = (\<lambda>s. s), ssl_write = (\<lambda>d (q, e). (q @ [23] @ d, e)), ssl_read = (\<lambda>n s. ([], s)),
     export_keying_material = (\<lambda>n l s. Some (replicate n 7)), cert_sha256 = (\<lambda>s. Some [0xAB, 0x05])\<rparr>"

lemma queue_ssl_reads: "reads_queue (bio_read queue_ssl) fst"
  by (auto simp: reads_queue_def queue_ssl_def split: prod.split)

lemma dtls_pending_send_witness:
  "case pending_send queue_ssl \<lparr>ssl = (replicate 5000 9, True), handshake_done = False\<rparr> of
      None \<Rightarrow> False
    | Some (d, t') \<Rightarrow> d = replicate 5000 9 \<and> fst (ssl t') = []"
  using dtls_pending_send [OF queue_ssl_reads, of "\<lparr>ssl = (replicate 5000 9, True), handshake_done = False\<rparr>"]
  by (auto split: option.splits)

section \<open>No data before the handshake\<close>

datatype ssl_call = BioWrite | BioRead | Handshake int | Timeout | SslWrite bytes | SslRead

text \<open>OpenSSL with a record of the calls it receives.\<close>

definition logged :: "'s openssl \<Rightarrow> ('s \<times> ssl_call list) openssl" where
  "logged lib = \<lparr>
     bio_write = (\<lambda>d (s, l). (bio_write lib d s, l @ [BioWrite])),
     bio_read = (\<lambda>n (s, l). case bio_read lib n s of (d, s') \<Rightarrow> (d, (s', l @ [BioRead]))),
     do_handshake = (\<lambda>(s, l). case do_handshake lib s of (r, s') \<Rightarrow> (r, (s', l @ [Handshake r]))),
     handle_timeout = (\<lambda>(s, l). (handle_timeout lib s, l @ [Timeout])),
     ssl_write = (\<lambda>d (s, l). (ssl_write lib d s, l @ [SslWrite d])),
     ssl_read = (\<lambda>n (s, l). case ssl_read lib n s of (d, s') \<Rightarrow> (d, (s', l @ [SslRead]))),
     export_keying_material = (\<lambda>n k (s, l). export_keying_material lib n k s),
     cert_sha256 = (\<lambda>(s, l). cert_sha256 lib s)\<rparr>"

datatype dtls_op = Feed bytes | Drive | Tick | Pending | Encrypt bytes | Decrypt

definition dtls_step :: "'s openssl \<Rightarrow> dtls_op \<Rightarrow> 's dtls_transport \<Rightarrow> 's dtls_transport option" where
  "dtls_step lib op t =
     (case op of
        Feed d \<Rightarrow> Some (feed_data lib d t)
      | Drive \<Rightarrow> Some (drive_handshake lib t)
      | Tick \<Rightarrow> Some (drive_timeout lib t)
      | Pending \<Rightarrow> map_option snd (pending_send lib t)
      | Encrypt d \<Rightarrow> map_option snd (encrypt lib d t)
      | Decrypt \<Rightarrow> map_option snd (decrypt lib t))"

fun dtls_run :: "'s openssl \<Rightarrow> dtls_op list \<Rightarrow> 's dtls_transport \<Rightarrow> 's dtls_transport option" where
  "dtls_run lib [] t = Some t"
| "dtls_run lib (op # ops) t = Option.bind (dtls_step lib op t) (dtls_run lib ops)"

text \<open>The protocol the calls have to keep to, as an automaton: whether the handshake is over after the calls,
  if none of them was out of place.\<close>

fun protocol :: "bool \<Rightarrow> ssl_call list \<Rightarrow> bool option" where
  "protocol fin [] = Some fin"
| "protocol fin (Handshake r # cs) = (if fin then None else protocol (r = 1) cs)"
| "protocol fin (Timeout # cs) = (if fin then None else protocol fin cs)"
| "protocol fin (SslWrite d # cs) = (if fin then protocol fin cs else None)"
| "protocol fin (SslRead # cs) = (if fin then protocol fin cs else None)"
| "protocol fin (BioWrite # cs) = protocol fin cs"
| "protocol fin (BioRead # cs) = protocol fin cs"

lemma protocol_append: "protocol fin (cs @ cs') = Option.bind (protocol fin cs) (\<lambda>f. protocol f cs')"
  by (induction fin cs rule: protocol.induct) simp_all

lemma protocol_reads: "protocol fin (replicate k BioRead) = Some fin" "protocol True (replicate k SslRead) = Some True"
  by (induction k) simp_all

lemmas read_all_induct = read_all.raw_induct [rotated, consumes 1, case_names round]

lemma read_all_log:
  "read_all rd result st = Some y \<Longrightarrow> \<forall>n st. snd (snd (rd n st)) = snd st @ [c] \<Longrightarrow>
   \<exists>k. snd (snd y) = snd st @ replicate k c"
proof (induction rd result st y rule: read_all_induct)
  case (round f rd result st y)
  obtain d st' where rd: "rd 4096 st = (d, st')" by (cases "rd 4096 st")
  moreover have "snd (snd (rd 4096 st)) = snd st @ [c]" using round.prems by blast
  ultimately have st': "snd st' = snd st @ [c]" by simp
  have step: "(if d = [] then Some (result, st') else f rd (result @ d) st') = Some y"
    using round.hyps rd by simp
  show ?case
  proof (cases "d = []")
    case True
    then have "snd (snd y) = snd st @ replicate 1 c" using step st' by auto
    then show ?thesis by blast
  next
    case False
    then have "f rd (result @ d) st' = Some y" using step by simp
    then obtain k where "snd (snd y) = snd st' @ replicate k c" using round.IH round.prems by blast
    then have "snd (snd y) = snd st @ replicate (Suc k) c" using st' by simp
    then show ?thesis by blast
  qed
qed

lemma logged_reads:
  "snd (snd (bio_read (logged lib) n st)) = snd st @ [BioRead]"
  "snd (snd (ssl_read (logged lib) n st)) = snd st @ [SslRead]"
  by (auto simp: logged_def split: prod.split)

definition keeps :: "('s \<times> ssl_call list) dtls_transport \<Rightarrow> bool" where
  "keeps t \<longleftrightarrow> protocol False (snd (ssl t)) = Some (handshake_done t)"

lemma pending_keeps:
  assumes "pending_send (logged lib) t = Some (d, t')" and "keeps t"
  shows "keeps t'"
proof -
  obtain st where st: "read_all (bio_read (logged lib)) [] (ssl t) = Some (d, st)" "t' = t\<lparr>ssl := st\<rparr>"
    using assms(1) by (auto simp: pending_send_def)
  obtain k where "snd st = snd (ssl t) @ replicate k BioRead"
    using read_all_log [OF st(1)] logged_reads(1) by fastforce
  then show ?thesis using assms(2) by (simp add: keeps_def st(2) protocol_append protocol_reads)
qed

lemma decrypt_keeps:
  assumes "decrypt (logged lib) t = Some (d, t')" and "keeps t"
  shows "keeps t'"
proof (cases "handshake_done t")
  case True
  then obtain st where st: "read_all (ssl_read (logged lib)) [] (ssl t) = Some (d, st)" "t' = t\<lparr>ssl := st\<rparr>"
    using assms(1) by (auto simp: decrypt_def)
  obtain k where "snd st = snd (ssl t) @ replicate k SslRead"
    using read_all_log [OF st(1)] logged_reads(2) by fastforce
  then show ?thesis using assms(2) True by (simp add: keeps_def st(2) protocol_append protocol_reads)
next
  case False
  then show ?thesis using assms by (simp add: decrypt_def)
qed

lemma encrypt_keeps:
  assumes "encrypt (logged lib) p t = Some (d, t')" and "keeps t"
  shows "keeps t'"
proof (cases "handshake_done t")
  case True
  let ?t = "t\<lparr>ssl := ssl_write (logged lib) p (ssl t)\<rparr>"
  have "snd (ssl_write (logged lib) p (ssl t)) = snd (ssl t) @ [SslWrite p]"
    by (simp add: logged_def split: prod.split)
  then have "keeps ?t" using assms(2) True by (simp add: keeps_def protocol_append)
  moreover have "pending_send (logged lib) ?t = Some (d, t')" using assms(1) True by (simp add: encrypt_def)
  ultimately show ?thesis by (rule pending_keeps [rotated])
next
  case False
  then show ?thesis using assms by (simp add: encrypt_def)
qed

lemma drive_keeps: "keeps t \<Longrightarrow> keeps (drive_handshake (logged lib) t)"
  by (cases "ssl t") (auto simp: keeps_def drive_handshake_def logged_def protocol_append split: prod.split)

lemma step_keeps: "dtls_step (logged lib) op t = Some t' \<Longrightarrow> keeps t \<Longrightarrow> keeps t'"
  by (cases op; cases "ssl t")
    (auto simp: dtls_step_def drive_keeps dest: pending_keeps encrypt_keeps decrypt_keeps,
     auto simp: keeps_def feed_data_def drive_timeout_def logged_def protocol_append)

lemma run_keeps: "dtls_run (logged lib) ops t = Some t' \<Longrightarrow> keeps t \<Longrightarrow> keeps t'"
  by (induction ops arbitrary: t) (auto simp: bind_eq_Some_conv dest: step_keeps)

text \<open>C27. No data outside the handshake.  Whatever the user of a fresh transport calls, in whatever order and
  however OpenSSL answers, the calls OpenSSL receives keep to the protocol: \<open>SSL_write\<close> and \<open>SSL_read\<close> only
  after \<open>SSL_do_handshake\<close> has returned 1, and no further handshake or timeout call after that;
  \<open>handshake_done_\<close> says which of the two phases it is, and keys are exported only in the second.\<close>

theorem dtls_no_early_data:
  assumes "dtls_run (logged lib) ops \<lparr>ssl = (s, []), handshake_done = False\<rparr> = Some t"
  shows "protocol False (snd (ssl t)) = Some (handshake_done t) \<and>
    (if handshake_done t then Handshake 1 \<in> set (snd (ssl t))
     else export_srtp_keying_material (logged lib) t = None)"
proof -
  have "protocol False l = Some True \<Longrightarrow> Handshake 1 \<in> set l" for l
  proof (induction l)
    case (Cons c l)
    then show ?case by (cases c; cases "c = Handshake 1") auto
  qed simp
  moreover have "protocol False (snd (ssl t)) = Some (handshake_done t)"
    using run_keeps [OF assms] by (simp add: keeps_def)
  ultimately show ?thesis by (simp add: export_srtp_keying_material_def)
qed

lemma dtls_no_early_data_witness:
  "\<exists>t. dtls_run (logged queue_ssl) [Encrypt [1], Drive, Drive, Encrypt [2], Drive] \<lparr>ssl = (([], False), []), handshake_done = False\<rparr> = Some t \<and>
     snd (ssl t) = [Handshake (-1), Handshake 1, SslWrite [2], BioRead, BioRead] \<and>
     protocol False (snd (ssl t)) = Some (handshake_done t)"
proof -
  obtain t where t: "dtls_run (logged queue_ssl) [Encrypt [1], Drive, Drive, Encrypt [2], Drive]
      \<lparr>ssl = (([], False), []), handshake_done = False\<rparr> = Some t"
    and log: "snd (ssl t) = [Handshake (-1), Handshake 1, SslWrite [2], BioRead, BioRead]"
    by (simp add: dtls_step_def encrypt_def drive_handshake_def pending_send_def logged_def queue_ssl_def
        read_all.simps)
  show ?thesis
    by (rule exI [of _ t], intro conjI t log conjunct1 [OF dtls_no_early_data [OF t]])
qed

section \<open>The fingerprint\<close>

lemma hex_digit_inj: "m < 16 \<Longrightarrow> n < 16 \<Longrightarrow> hex_digit m = hex_digit n \<Longrightarrow> m = n"
proof -
  assume "m < 16" "n < 16" "hex_digit m = hex_digit n"
  moreover have "distinct ''0123456789ABCDEF''" by simp
  ultimately show "m = n" by (simp add: hex_digit_def nth_eq_iff_index_eq del: nth_Cons_numeral)
qed

lemma hex_byte_inj: "hex_byte a = hex_byte b \<Longrightarrow> a = b"
proof -
  assume "hex_byte a = hex_byte b"
  then have "unat a div 16 = unat b div 16" "unat a mod 16 = unat b mod 16"
    using hex_digit_inj [of "unat a div 16" "unat b div 16"] hex_digit_inj [of "unat a mod 16" "unat b mod 16"]
    by (auto simp: hex_byte_def less_mult_imp_div_less)
  then show "a = b" by (metis div_mult_mod_eq word_unat_eq_iff)
qed

lemma hex_colons_Cons:
  "hex_colons (b # bs) = hex_byte b @ concat (map (\<lambda>b. '':'' @ hex_byte b) bs)"
proof -
  have "map (\<lambda>i. (if i > 0 then '':'' else []) @ hex_byte ((b # bs) ! i)) [0..<length (b # bs)] =
      hex_byte b # map (\<lambda>b. '':'' @ hex_byte b) bs"
    by (rule nth_equalityI) (auto simp: nth_Cons split: nat.split simp del: upt_Suc)
  then show ?thesis unfolding hex_colons_def by simp
qed

lemma colons_inj:
  "concat (map (\<lambda>b. '':'' @ hex_byte b) bs) = concat (map (\<lambda>b. '':'' @ hex_byte b) cs) \<Longrightarrow> bs = cs"
proof (induction bs arbitrary: cs)
  case Nil
  then show ?case by (cases cs) simp_all
next
  case (Cons b bs)
  then obtain c cs' where cs: "cs = c # cs'" by (cases cs) auto
  then have "hex_byte b = hex_byte c" "bs = cs'"
    using Cons by (auto simp: hex_byte_def)
  then show ?case using hex_byte_inj cs by simp
qed

text \<open>The fingerprint is faithful: two certificates have the same text exactly if they have the same
  digest, and a digest of \<open>n\<close> bytes has a text of \<open>3 n - 1\<close> characters, for SHA-256 the 95 characters
  an SDP carries.\<close>

theorem dtls_fingerprint_faithful:
  "(hex_colons d = hex_colons d' \<longleftrightarrow> d = d') \<and> length (hex_colons d) = 3 * length d - 1"
proof
  have len: "length (concat (map (\<lambda>b. '':'' @ hex_byte b) bs)) = 3 * length bs" for bs
    by (induction bs) (simp_all add: hex_byte_def)
  show "length (hex_colons d) = 3 * length d - 1"
  proof (cases d)
    case (Cons b bs)
    then show ?thesis using len [of bs] by (simp add: hex_colons_Cons) (simp add: hex_byte_def)
  qed (simp add: hex_colons_def)
  have empty: "hex_colons [] = []" by (simp add: hex_colons_def)
  have "d = d'" if eq: "hex_colons d = hex_colons d'"
  proof (cases d)
    case Nil
    then show ?thesis using that by (cases d') (simp_all add: empty hex_colons_Cons hex_byte_def)
  next
    case (Cons b bs)
    then obtain c cs where d': "d' = c # cs"
      using eq by (cases d') (auto simp: empty hex_colons_Cons hex_byte_def)
    then have "hex_byte b = hex_byte c" "bs = cs"
      using that Cons colons_inj by (auto simp: hex_colons_Cons hex_byte_def)
    then show ?thesis using hex_byte_inj Cons d' by simp
  qed
  then show "hex_colons d = hex_colons d' \<longleftrightarrow> d = d'" by blast
qed

section \<open>Telling packets apart\<close>

lemma unat_high_byte: "unat (byte_at 1 (w :: u16)) = unat w div 256"
proof -
  have "byte_at 1 w = ucast (drop_bit 8 w)"
    by (rule bit_word_eqI) (auto simp: bit_byte_at bit_simps)
  moreover have "unat (drop_bit 8 w) = unat w div 256" by (simp add: drop_bit_eq_div unat_div)
  moreover have "unat w div 256 < 256" using unat_u16_bound [of w] by (simp add: less_mult_imp_div_less)
  ultimately show ?thesis by (simp add: unsigned_ucast_eq take_bit_nat_eq_self)
qed

text \<open>The packets that share the UDP port can be told apart by \<open>is_stun\<close> and \<open>is_dtls\<close>: an RTP packet as
  \<open>build\<close> writes it is neither; a STUN message of a type below \<open>0x1400\<close>, so every binding request and
  response, is not taken for DTLS; and a DTLS record is taken for STUN only if its bytes 4 to 7, which are
  the epoch and the first half of the sequence number shifted by one byte, spell the magic cookie.\<close>

theorem packets_told_apart:
  "\<not> is_dtls (RtpPacket_data (RtpPacket_build pt seq ts ssrc (Some src) (length src) m p)) \<and>
   \<not> is_stun (RtpPacket_data (RtpPacket_build pt seq ts ssrc (Some src) (length src) m p)) \<and>
   (if unat (msg_type msg) < 0x1400 then \<not> is_dtls (stun_serialize msg) else True) \<and>
   (if is_dtls d \<and> is_stun d then read_u32 d 4 = STUN_MAGIC_COOKIE else True)"
proof -
  let ?d = "RtpPacket_data (RtpPacket_build pt seq ts ssrc (Some src) (length src) m p)"
  have "?d \<noteq> [] \<and> ?d ! 0 = 0x80"
    by (simp add: RtpPacket_data_def build_buf rtp_header_def)
  then have rtp: "\<not> is_dtls ?d" "\<not> is_stun ?d" by (auto simp: is_dtls_def is_stun_def)
  have "\<not> is_dtls (stun_serialize msg)" if "unat (msg_type msg) < 0x1400"
  proof -
    have "stun_serialize msg ! 0 = byte_at 1 (msg_type msg)"
      by (simp add: stun_serialize_def stun_header_def Let_def write_u16_def)
    moreover have "unat (byte_at 1 (msg_type msg)) < 20"
      using that unat_high_byte [of "msg_type msg"] by (simp add: less_mult_imp_div_less)
    ultimately show ?thesis by (auto simp: is_dtls_def word_le_nat_alt)
  qed
  with rtp show ?thesis by (simp add: is_stun_def)
qed

end
