(* ===== verification/IoContext.thy ===== *)
theory IoContext
  imports Prelude
begin

text \<open>
  \<open>net::IoContext\<close> of \<open>module01_network_core\<close> (\<open>io_context.h\<close>, \<open>io_context.cpp\<close>): the event loop.  The
  kernel's interest set is part of the state; what \<open>epoll_create1\<close>, \<open>eventfd\<close>, \<open>epoll_ctl\<close> and
  \<open>epoll_wait\<close> answer is an argument.  A callback is a value of a type \<open>'c\<close>; \<open>invoke\<close> says which methods
  of the context a call of it makes, in order, and what becomes of the rest of the world, a value of \<open>'w\<close>.
\<close>

section \<open>The context\<close>

record 'c io_context =
  interest :: "int \<rightharpoonup> u32"
  callbacks :: "int \<rightharpoonup> 'c"
  running :: bool
  event_fd :: int
  wakeups :: u64

text \<open>The descriptors the constructor closes, and the context if it does not throw.\<close>

definition IoContext :: "'c \<Rightarrow> int \<Rightarrow> int \<Rightarrow> bool \<Rightarrow> int list \<times> 'c io_context option" where
  "IoContext noop epoll_fd efd add_ok =
     (if epoll_fd < 0 then ([], None)
      else if efd < 0 then ([epoll_fd], None)
      else if \<not> add_ok then ([efd, epoll_fd], None)
      else ([], Some \<lparr>interest = [efd \<mapsto> 1], callbacks = [efd \<mapsto> noop], running = False, event_fd = efd, wakeups = 0\<rparr>))"

text \<open>The descriptors the destructor closes; \<open>epoll_fd\<close> is the one the constructor was given.\<close>

definition io_destroy :: "int \<Rightarrow> 'c io_context \<Rightarrow> int list" where
  "io_destroy epoll_fd c =
     (if event_fd c \<ge> 0 then [event_fd c] else []) @ (if epoll_fd \<ge> 0 then [epoll_fd] else [])"

text \<open>\<open>EPOLL_CTL_ADD\<close> refuses a descriptor that is in the set, and may refuse others (\<open>add_ok\<close>); then
  \<open>register_fd\<close> throws.\<close>

definition register_fd :: "(int \<Rightarrow> bool) \<Rightarrow> int \<Rightarrow> u32 \<Rightarrow> 'c \<Rightarrow> 'c io_context \<Rightarrow> 'c io_context option" where
  "register_fd add_ok fd events cb c =
     (if interest c fd \<noteq> None \<or> \<not> add_ok fd then None
      else Some (c\<lparr>interest := (interest c)(fd \<mapsto> events), callbacks := (callbacks c)(fd \<mapsto> cb)\<rparr>))"

definition unregister_fd :: "int \<Rightarrow> 'c io_context \<Rightarrow> 'c io_context" where
  "unregister_fd fd c = c\<lparr>interest := (interest c)(fd := None), callbacks := (callbacks c)(fd := None)\<rparr>"

text \<open>\<open>stop\<close> stores, then writes to the \<open>eventfd\<close>, which adds one to its counter, whose greatest value is \<open>2^64 - 2\<close>.\<close>

definition io_stop_store :: "'c io_context \<Rightarrow> 'c io_context" where
  "io_stop_store c = c\<lparr>running := False\<rparr>"

definition io_stop_write :: "'c io_context \<Rightarrow> 'c io_context" where
  "io_stop_write c = c\<lparr>wakeups := (if wakeups c < 0xFFFFFFFFFFFFFFFE then wakeups c + 1 else wakeups c)\<rparr>"

definition io_stop :: "'c io_context \<Rightarrow> 'c io_context" where
  "io_stop c = io_stop_write (io_stop_store c)"

section \<open>The loop\<close>

datatype 'c io_call = Register int u32 'c | Unregister int | Stop

fun io_op :: "(int \<Rightarrow> bool) \<Rightarrow> 'c io_call \<Rightarrow> 'c io_context \<Rightarrow> 'c io_context option" where
  "io_op add_ok (Register fd events cb) c = register_fd add_ok fd events cb c"
| "io_op add_ok (Unregister fd) c = Some (unregister_fd fd c)"
| "io_op add_ok Stop c = Some (io_stop c)"

fun io_ops :: "(int \<Rightarrow> bool) \<Rightarrow> 'c io_call list \<Rightarrow> 'c io_context \<Rightarrow> 'c io_context option" where
  "io_ops add_ok [] c = Some c"
| "io_ops add_ok (op # ops) c = Option.bind (io_op add_ok op c) (io_ops add_ok ops)"

type_synonym ('c, 'w) handler = "'c \<Rightarrow> int \<Rightarrow> u32 \<Rightarrow> 'w \<Rightarrow> 'c io_call list \<times> 'w"

text \<open>One element of \<open>events\<close>; \<open>None\<close> is an exception out of the callback.\<close>

definition handle_event ::
    "(int \<Rightarrow> bool) \<Rightarrow> ('c, 'w) handler \<Rightarrow> int \<times> u32 \<Rightarrow> 'c io_context \<times> 'w \<Rightarrow> ('c io_context \<times> 'w) option" where
  "handle_event add_ok invoke e s =
     (case e of (fd, events) \<Rightarrow>
      case s of (c, w) \<Rightarrow>
        if fd = event_fd c then Some (c\<lparr>wakeups := 0\<rparr>, w)
        else case callbacks c fd of
               None \<Rightarrow> Some (c, w)
             | Some cb \<Rightarrow>
                 (case invoke cb fd events w of (ops, w') \<Rightarrow>
                    map_option (\<lambda>c'. (c', w')) (io_ops add_ok ops c)))"

fun handle_batch ::
    "(int \<Rightarrow> bool) \<Rightarrow> ('c, 'w) handler \<Rightarrow> (int \<times> u32) list \<Rightarrow> 'c io_context \<times> 'w \<Rightarrow> ('c io_context \<times> 'w) option" where
  "handle_batch add_ok invoke [] s = Some s"
| "handle_batch add_ok invoke (e # es) s =
     Option.bind (handle_event add_ok invoke e s) (handle_batch add_ok invoke es)"

section \<open>The thread and its environment\<close>

text \<open>Where the thread that calls \<open>run\<close> is: before the store of \<open>running_\<close>, before the load of it, blocked in \<open>epoll_wait\<close>,
  with the rest of a batch, or out of \<open>run\<close>.\<close>

datatype io_pc = Starting | Checking | In_wait | Handling "(int \<times> u32) list" | Returned | Thrown

text \<open>\<open>stopping\<close> counts the calls of \<open>stop\<close> in other threads that have stored and not yet written.\<close>

record ('c, 'w) io_sys =
  ctx :: "'c io_context"
  world :: 'w
  pc :: io_pc
  stopping :: nat

definition io_begin :: "'c io_context \<Rightarrow> 'w \<Rightarrow> ('c, 'w) io_sys" where
  "io_begin c w = \<lparr>ctx = c, world = w, pc = Starting, stopping = 0\<rparr>"

text \<open>\<open>epoll_wait\<close>, level-triggered: a batch names watched descriptors, at most 64 of them and none twice, and the
  \<open>eventfd\<close> only while its counter is not zero; while it is not zero there is something to report, and the wait
  does not time out.\<close>

definition wake_ready :: "'c io_context \<Rightarrow> bool" where
  "wake_ready c \<longleftrightarrow> interest c (event_fd c) \<noteq> None \<and> wakeups c > 0"

definition kMaxEvents :: nat where
  "kMaxEvents = 64"

definition reportable :: "'c io_context \<Rightarrow> (int \<times> u32) list \<Rightarrow> bool" where
  "reportable c es \<longleftrightarrow> es \<noteq> [] \<and> length es \<le> kMaxEvents \<and> distinct (map fst es) \<and>
     (\<forall>(fd, ev)\<in>set es. interest c fd \<noteq> None \<and> (fd = event_fd c \<longrightarrow> wakeups c > 0))"

text \<open>What happens next: the thread goes on, \<open>epoll_wait\<close> returns in one of its ways, or another thread makes one of the
  two accesses of \<open>stop\<close>.  The accesses to \<open>running_\<close>, relaxed in the code, take effect in the order of the steps.\<close>

datatype io_choice =
    Advance
  | Report "(int \<times> u32) list"
  | Timeout
  | Interrupt
  | Wait_error
  | Stop_store
  | Stop_write

definition io_advance ::
    "(int \<Rightarrow> bool) \<Rightarrow> ('c, 'w) handler \<Rightarrow> ('c, 'w) io_sys \<Rightarrow> ('c, 'w) io_sys option" where
  "io_advance add_ok invoke s =
     (case pc s of
        Starting \<Rightarrow> Some (s\<lparr>ctx := (ctx s)\<lparr>running := True\<rparr>, pc := Checking\<rparr>)
      | Checking \<Rightarrow> Some (s\<lparr>pc := if running (ctx s) then In_wait else Returned\<rparr>)
      | Handling [] \<Rightarrow> Some (s\<lparr>pc := Checking\<rparr>)
      | Handling (e # es) \<Rightarrow>
          (case handle_event add_ok invoke e (ctx s, world s) of
             None \<Rightarrow> Some (s\<lparr>pc := Thrown\<rparr>)
           | Some (c, w) \<Rightarrow> Some (s\<lparr>ctx := c, world := w, pc := Handling es\<rparr>))
      | _ \<Rightarrow> None)"

definition io_take ::
    "(int \<Rightarrow> bool) \<Rightarrow> ('c, 'w) handler \<Rightarrow> io_choice \<Rightarrow> ('c, 'w) io_sys \<Rightarrow> ('c, 'w) io_sys option" where
  "io_take add_ok invoke ch s =
     (case ch of
        Advance \<Rightarrow> io_advance add_ok invoke s
      | Report es \<Rightarrow> if pc s = In_wait \<and> reportable (ctx s) es then Some (s\<lparr>pc := Handling es\<rparr>) else None
      | Timeout \<Rightarrow> if pc s = In_wait \<and> \<not> wake_ready (ctx s) then Some (s\<lparr>pc := Checking\<rparr>) else None
      | Interrupt \<Rightarrow> if pc s = In_wait then Some (s\<lparr>pc := Checking\<rparr>) else None
      | Wait_error \<Rightarrow> if pc s = In_wait then Some (s\<lparr>pc := Returned\<rparr>) else None
      | Stop_store \<Rightarrow> Some (s\<lparr>ctx := io_stop_store (ctx s), stopping := stopping s + 1\<rparr>)
      | Stop_write \<Rightarrow>
          if stopping s > 0 then Some (s\<lparr>ctx := io_stop_write (ctx s), stopping := stopping s - 1\<rparr>) else None)"

fun io_runs ::
    "(int \<Rightarrow> bool) \<Rightarrow> ('c, 'w) handler \<Rightarrow> io_choice list \<Rightarrow> ('c, 'w) io_sys \<Rightarrow> ('c, 'w) io_sys option" where
  "io_runs add_ok invoke [] s = Some s"
| "io_runs add_ok invoke (ch # chs) s = Option.bind (io_take add_ok invoke ch s) (io_runs add_ok invoke chs)"

definition by_loop :: "io_choice \<Rightarrow> bool" where
  "by_loop ch \<longleftrightarrow> ch \<noteq> Stop_store \<and> ch \<noteq> Stop_write"

section \<open>What holds of every call\<close>

definition tables_agree :: "'c io_context \<Rightarrow> bool" where
  "tables_agree c \<longleftrightarrow> dom (callbacks c) = dom (interest c)"

lemma tables_upd [simp]:
  "tables_agree (c\<lparr>wakeups := n\<rparr>) = tables_agree c" "tables_agree (c\<lparr>running := b\<rparr>) = tables_agree c"
  by (simp_all add: tables_agree_def)

lemma op_effects:
  assumes "io_op add_ok op c = Some c'"
  shows "tables_agree c \<Longrightarrow> tables_agree c'"
    and "event_fd c' = event_fd c"
    and "running c' = (running c \<and> op \<noteq> Stop)"
  using assms by (cases op; auto simp: register_fd_def unregister_fd_def io_stop_def io_stop_store_def io_stop_write_def
    tables_agree_def split: if_splits)+

lemma ops_effects:
  "io_ops add_ok ops c = Some c' \<Longrightarrow>
   (tables_agree c \<longrightarrow> tables_agree c') \<and> event_fd c' = event_fd c \<and> running c' = (running c \<and> Stop \<notin> set ops)"
proof (induction ops arbitrary: c)
  case (Cons op ops)
  then obtain c1 where c1: "io_op add_ok op c = Some c1" "io_ops add_ok ops c1 = Some c'"
    by (auto simp: bind_eq_Some_conv)
  show ?case using Cons.IH [OF c1(2)] op_effects [OF c1(1)] by auto
qed simp

lemma event_effects:
  assumes "handle_event add_ok invoke e (c, w) = Some (c', w')"
  shows "(tables_agree c \<longrightarrow> tables_agree c') \<and> event_fd c' = event_fd c \<and>
    (running c' \<longrightarrow> running c)"
  using assms ops_effects [of add_ok _ c c']
  by (auto simp: handle_event_def split: prod.splits if_splits option.splits)

lemma batch_effects:
  "handle_batch add_ok invoke es s = Some s' \<Longrightarrow>
   (tables_agree (fst s) \<longrightarrow> tables_agree (fst s')) \<and> event_fd (fst s') = event_fd (fst s) \<and>
   (running (fst s') \<longrightarrow> running (fst s))"
proof (induction es arbitrary: s)
  case (Cons e es)
  then obtain s1 where s1: "handle_event add_ok invoke e s = Some s1" "handle_batch add_ok invoke es s1 = Some s'"
    by (auto simp: bind_eq_Some_conv)
  show ?case
    using Cons.IH [OF s1(2)] event_effects [of add_ok invoke e "fst s" "snd s" "fst s1" "snd s1"] s1(1) by auto
qed simp

text \<open>What every step keeps holds all along.\<close>

lemma runs_invariant:
  assumes "io_runs add_ok invoke chs s = Some s'" "P s"
    and "\<And>ch s s'. ch \<in> set chs \<Longrightarrow> io_take add_ok invoke ch s = Some s' \<Longrightarrow> P s \<Longrightarrow> P s'"
  shows "P s'"
  using assms
proof (induction chs arbitrary: s)
  case (Cons ch chs)
  then obtain s1 where s1: "io_take add_ok invoke ch s = Some s1" "io_runs add_ok invoke chs s1 = Some s'"
    by (auto simp: bind_eq_Some_conv)
  have "P s1" using Cons.prems(3) [OF _ s1(1) Cons.prems(2)] by simp
  show ?case
    by (rule Cons.IH [OF s1(2) \<open>P s1\<close>]) (rule Cons.prems(3), auto)
qed simp

lemma take_cases:
  assumes "io_take add_ok invoke ch s = Some s'"
  obtains (starts) "ch = Advance" "pc s = Starting" "s' = s\<lparr>ctx := (ctx s)\<lparr>running := True\<rparr>, pc := Checking\<rparr>"
  | (go_on) "ch = Advance" "pc s = Checking" "running (ctx s)" "s' = s\<lparr>pc := In_wait\<rparr>"
  | (stopped) "ch = Advance" "pc s = Checking" "\<not> running (ctx s)" "s' = s\<lparr>pc := Returned\<rparr>"
  | (one_event) e es c w where "ch = Advance" "pc s = Handling (e # es)"
      "handle_event add_ok invoke e (ctx s, world s) = Some (c, w)" "s' = s\<lparr>ctx := c, world := w, pc := Handling es\<rparr>"
  | (throws) e es where "ch = Advance" "pc s = Handling (e # es)"
      "handle_event add_ok invoke e (ctx s, world s) = None" "s' = s\<lparr>pc := Thrown\<rparr>"
  | (handled) "ch = Advance" "pc s = Handling []" "s' = s\<lparr>pc := Checking\<rparr>"
  | (batch) es where "ch = Report es" "pc s = In_wait" "reportable (ctx s) es" "s' = s\<lparr>pc := Handling es\<rparr>"
  | (again) "ch = Timeout \<or> ch = Interrupt" "pc s = In_wait" "s' = s\<lparr>pc := Checking\<rparr>"
  | (failed) "ch = Wait_error" "pc s = In_wait" "s' = s\<lparr>pc := Returned\<rparr>"
  | (stop_store) "ch = Stop_store" "s' = s\<lparr>ctx := io_stop_store (ctx s), stopping := stopping s + 1\<rparr>"
  | (stop_write) "ch = Stop_write" "stopping s > 0" "s' = s\<lparr>ctx := io_stop_write (ctx s), stopping := stopping s - 1\<rparr>"
proof (cases ch)
  case Advance
  with assms have a: "io_advance add_ok invoke s = Some s'" by (simp add: io_take_def)
  show ?thesis
  proof (cases "pc s")
    case Starting
    with a Advance starts show ?thesis by (simp add: io_advance_def)
  next
    case Checking
    with a Advance go_on stopped show ?thesis by (cases "running (ctx s)") (simp_all add: io_advance_def)
  next
    case (Handling es)
    show ?thesis
    proof (cases es)
      case Nil
      with a Advance handled Handling show ?thesis by (simp add: io_advance_def)
    next
      case (Cons e rest)
      show ?thesis
      proof (cases "handle_event add_ok invoke e (ctx s, world s)")
        case None
        with a Advance throws Handling Cons show ?thesis by (simp add: io_advance_def)
      next
        case (Some cw)
        obtain c w where "cw = (c, w)" by (cases cw)
        with Some a Advance one_event [OF _ _ Some [unfolded this]] Handling Cons show ?thesis by (simp add: io_advance_def)
      qed
    qed
  qed (use a in \<open>simp_all add: io_advance_def\<close>)
next
  case (Report es)
  with assms batch show ?thesis by (simp add: io_take_def split: if_splits)
next
  case Timeout
  with assms again show ?thesis by (simp add: io_take_def split: if_splits)
next
  case Interrupt
  with assms again show ?thesis by (simp add: io_take_def split: if_splits)
next
  case Wait_error
  with assms failed show ?thesis by (simp add: io_take_def split: if_splits)
next
  case Stop_store
  with assms stop_store show ?thesis by (simp add: io_take_def)
next
  case Stop_write
  with assms stop_write show ?thesis by (simp add: io_take_def split: if_splits)
qed

lemma runs_tables:
  assumes "io_runs add_ok invoke chs (io_begin c w) = Some s" "tables_agree c"
  shows "tables_agree (ctx s)"
  using assms(1)
proof (rule runs_invariant)
  show "tables_agree (ctx (io_begin c w))" using assms(2) by (simp add: io_begin_def)
next
  fix ch s s' assume "io_take add_ok invoke ch s = Some s'" "tables_agree (ctx s)"
  then show "tables_agree (ctx s')"
  proof (cases rule: take_cases)
    case (one_event e es c w)
    then show ?thesis using event_effects [OF one_event(3)] \<open>tables_agree (ctx s)\<close> by simp
  qed (auto simp: io_stop_store_def io_stop_write_def)
qed

text \<open>Callbacks that call no method of the context never make the loop throw, and what each of them keeps of the
  world the loop keeps.\<close>

lemma runs_quiet:
  assumes quiet: "\<And>cb fd ev w. fst (invoke cb fd ev w) = []"
    and keep: "\<And>cb fd ev w. P w \<Longrightarrow> P (snd (invoke cb fd ev w))"
    and "io_runs add_ok invoke chs (io_begin c w) = Some s" "P w"
  shows "pc s \<noteq> Thrown \<and> P (world s)"
  using assms(3)
proof (rule runs_invariant)
  show "pc (io_begin c w) \<noteq> Thrown \<and> P (world (io_begin c w))" using assms(4) by (simp add: io_begin_def)
next
  fix ch s s' assume "io_take add_ok invoke ch s = Some s'" and ok: "pc s \<noteq> Thrown \<and> P (world s)"
  have event: "\<exists>c' w'. handle_event add_ok invoke e (c, w) = Some (c', w') \<and> P w'" if "P w" for e c w
    using that quiet keep by (auto simp: handle_event_def case_prod_beta split: option.split)
  from \<open>io_take add_ok invoke ch s = Some s'\<close> show "pc s' \<noteq> Thrown \<and> P (world s')"
  proof (cases rule: take_cases)
    case (one_event e es c w)
    then show ?thesis using event [of "world s" e "ctx s"] ok by auto
  next
    case (throws e es)
    then show ?thesis using event [of "world s" e "ctx s"] ok by auto
  qed (use ok in auto)
qed

section \<open>Stopping\<close>

text \<open>The steps of the loop's thread that are left once \<open>running_\<close> is cleared: at most one batch, one load.\<close>

fun steps_left :: "io_pc \<Rightarrow> nat" where
  "steps_left Starting = 0"
| "steps_left Checking = 1"
| "steps_left In_wait = kMaxEvents + 3"
| "steps_left (Handling es) = length es + 2"
| "steps_left Returned = 0"
| "steps_left Thrown = 0"

text \<open>The wake-up descriptor stays watched, and a thread that is blocked although \<open>running_\<close> is cleared is waited for by a
  \<open>stop\<close> that has yet to write, or has been woken; a batch is no longer than the buffer.\<close>

definition wake_inv :: "('c, 'w) io_sys \<Rightarrow> bool" where
  "wake_inv s \<longleftrightarrow> interest (ctx s) (event_fd (ctx s)) \<noteq> None \<and>
     (pc s = In_wait \<and> \<not> running (ctx s) \<longrightarrow> stopping s > 0 \<or> wakeups (ctx s) > 0) \<and>
     (\<forall>es. pc s = Handling es \<longrightarrow> length es \<le> kMaxEvents)"

lemma ops_watch:
  "io_ops add_ok ops c = Some c' \<Longrightarrow> interest c fd \<noteq> None \<Longrightarrow> Unregister fd \<notin> set ops \<Longrightarrow> interest c' fd \<noteq> None"
proof (induction ops arbitrary: c)
  case (Cons op ops)
  then obtain c1 where c1: "io_op add_ok op c = Some c1" "io_ops add_ok ops c1 = Some c'"
    by (auto simp: bind_eq_Some_conv)
  have "interest c1 fd \<noteq> None"
    using c1(1) Cons.prems(2,3)
    by (cases op) (auto simp: register_fd_def unregister_fd_def io_stop_def io_stop_store_def io_stop_write_def split: if_splits)
  with Cons.IH [OF c1(2)] Cons.prems(3) show ?case by simp
qed simp

lemma event_watch:
  assumes "handle_event add_ok invoke e (c, w) = Some (c', w')" "interest c fd \<noteq> None"
    and "\<And>cb fd' ev w. Unregister fd \<notin> set (fst (invoke cb fd' ev w))"
  shows "interest c' fd \<noteq> None"
proof -
  have "interest c' fd \<noteq> None" if "invoke cb fd' ev w = (ops, w'')" "io_ops add_ok ops c = Some c'" for cb fd' ev ops w''
    using ops_watch [OF that(2) assms(2)] assms(3) [of cb fd' ev w] that(1) by simp
  then show ?thesis
    using assms(1,2) by (auto simp: handle_event_def split: prod.splits if_splits option.splits)
qed

lemma take_wake:
  assumes "io_take add_ok invoke ch s = Some s'" "wake_inv s"
    and "\<And>cb fd ev w. Unregister (event_fd (ctx s)) \<notin> set (fst (invoke cb fd ev w))"
  shows "wake_inv s' \<and> event_fd (ctx s') = event_fd (ctx s)"
  using assms(1)
proof (cases rule: take_cases)
  case (one_event e es c w)
  have "interest c (event_fd (ctx s)) \<noteq> None"
    using event_watch [OF one_event(3) _ assms(3)] assms(2) by (simp add: wake_inv_def)
  then show ?thesis using one_event event_effects [OF one_event(3)] assms(2) by (simp add: wake_inv_def)
next
  case stop_write
  have "(0 :: u64) < n + 1" if "n < 0xFFFFFFFFFFFFFFFE" for n :: u64
    using that by (simp add: word_less_nat_alt unat_word_ariths)
  moreover have "(0 :: u64) < n" if "\<not> n < 0xFFFFFFFFFFFFFFFE" for n :: u64
    using that by (auto simp: not_less intro: order.strict_trans2 [of 0 "0xFFFFFFFFFFFFFFFE"])
  ultimately show ?thesis using stop_write assms(2) by (auto simp: wake_inv_def io_stop_write_def)
qed (use assms(2) in \<open>auto simp: wake_inv_def io_stop_store_def reportable_def\<close>)

text \<open>Nothing but \<open>run\<close> itself sets \<open>running_\<close>.\<close>

lemma take_stopped:
  assumes "io_take add_ok invoke ch s = Some s'" "pc s \<noteq> Starting" "\<not> running (ctx s)"
  shows "pc s' \<noteq> Starting \<and> \<not> running (ctx s') \<and>
    (if by_loop ch then 1 else 0) + steps_left (pc s') \<le> steps_left (pc s)"
  using assms(1)
proof (cases rule: take_cases)
  case (one_event e es c w)
  then show ?thesis using event_effects [OF one_event(3)] one_event assms(3) by (auto simp: by_loop_def)
qed (use assms(2,3) in \<open>auto simp: by_loop_def reportable_def io_stop_store_def io_stop_write_def kMaxEvents_def\<close>)

lemma runs_stopped:
  "io_runs add_ok invoke chs s = Some s' \<Longrightarrow> pc s \<noteq> Starting \<Longrightarrow> \<not> running (ctx s) \<Longrightarrow>
   pc s' \<noteq> Starting \<and> \<not> running (ctx s') \<and> length (filter by_loop chs) + steps_left (pc s') \<le> steps_left (pc s)"
proof (induction chs arbitrary: s)
  case (Cons ch chs)
  then obtain s1 where s1: "io_take add_ok invoke ch s = Some s1" "io_runs add_ok invoke chs s1 = Some s'"
    by (auto simp: bind_eq_Some_conv)
  from take_stopped [OF s1(1) Cons.prems(2,3)] Cons.IH [OF s1(2)] show ?case by (auto split: if_splits)
qed simp

lemma runs_append:
  "io_runs add_ok invoke (chs @ chs') s = Option.bind (io_runs add_ok invoke chs s) (io_runs add_ok invoke chs')"
proof (induction chs arbitrary: s)
  case (Cons ch chs)
  then show ?case by (cases "io_take add_ok invoke ch s") simp_all
qed simp

lemma runs_wake:
  assumes "io_runs add_ok invoke chs (io_begin c w) = Some s" "interest c (event_fd c) \<noteq> None"
    and "\<And>cb fd ev w. Unregister (event_fd c) \<notin> set (fst (invoke cb fd ev w))"
  shows "wake_inv s \<and> event_fd (ctx s) = event_fd c"
  using assms(1)
proof (rule runs_invariant)
  show "wake_inv (io_begin c w) \<and> event_fd (ctx (io_begin c w)) = event_fd c"
    using assms(2) by (simp add: io_begin_def wake_inv_def)
next
  fix ch s s' assume "io_take add_ok invoke ch s = Some s'" "wake_inv s \<and> event_fd (ctx s) = event_fd c"
  with take_wake [of add_ok invoke ch s s'] assms(3) show "wake_inv s' \<and> event_fd (ctx s') = event_fd c" by metis
qed

section \<open>Properties\<close>

text \<open>C23. \<open>stop\<close> stops, and wakes.  Let the context be run and anything happen: batches, timeouts, interruptions, callbacks,
  calls of \<open>stop\<close> in other threads, access by access.  Once \<open>run\<close> has begun and \<open>running_\<close> has been cleared after it, by
  any \<open>stop\<close>, it stays cleared, and the thread of the loop makes at most 67 more steps before it has left \<open>run\<close>,
  whatever else happens; it is not left blocked meanwhile: when every \<open>stop\<close> has made its write and the thread is in
  \<open>epoll_wait\<close>, the \<open>eventfd\<close> is there to be reported, so the wait ends without its timeout.  No callback may take the
  \<open>eventfd\<close> out of the context.\<close>

theorem io_stop_ends_loop:
  assumes "interest c (event_fd c) \<noteq> None"
    and "\<And>cb fd ev w. Unregister (event_fd c) \<notin> set (fst (invoke cb fd ev w))"
    and "io_runs add_ok invoke chs (io_begin c w) = Some s" and "pc s \<noteq> Starting" and "\<not> running (ctx s)"
    and "io_runs add_ok invoke chs' s = Some s'"
  shows "\<not> running (ctx s') \<and>
    length (filter by_loop chs') + steps_left (pc s') \<le> 67 \<and>
    (steps_left (pc s') = 0 \<longleftrightarrow> pc s' = Returned \<or> pc s' = Thrown) \<and>
    (pc s' = In_wait \<and> stopping s' = 0 \<longrightarrow> wake_ready (ctx s') \<and> reportable (ctx s') [(event_fd c, 1)] \<and>
      io_take add_ok invoke Timeout s' = None)"
proof -
  have "io_runs add_ok invoke (chs @ chs') (io_begin c w) = Some s'" using assms(3,6) by (simp add: runs_append)
  from runs_wake [OF this assms(1,2)] have w: "wake_inv s'" "event_fd (ctx s') = event_fd c" by simp_all
  have left: "pc s' \<noteq> Starting" "\<not> running (ctx s')"
    "length (filter by_loop chs') + steps_left (pc s') \<le> steps_left (pc s)"
    using runs_stopped [OF assms(6,4,5)] by simp_all
  have "steps_left (pc s) \<le> 67"
    using runs_wake [OF assms(3,1,2)] by (cases "pc s") (simp_all add: wake_inv_def kMaxEvents_def)
  moreover have "steps_left (pc s') = 0 \<longleftrightarrow> pc s' = Returned \<or> pc s' = Thrown"
    using left(1) by (cases "pc s'") (simp_all add: kMaxEvents_def)
  ultimately show ?thesis
    using w left by (auto simp: wake_inv_def wake_ready_def reportable_def kMaxEvents_def io_take_def)
qed

definition three_fds :: "int io_context" where
  "three_fds = \<lparr>interest = [3 \<mapsto> 1, 5 \<mapsto> 1, 6 \<mapsto> 1], callbacks = [3 \<mapsto> 0, 5 \<mapsto> 6, 6 \<mapsto> 5],
    running = True, event_fd = 3, wakeups = 0\<rparr>"

lemma io_stop_ends_loop_witness:
  "\<exists>s s'. io_runs (\<lambda>_. True) (\<lambda>cb fd ev (w :: nat). ([], w + 1)) [Advance, Advance, Stop_store, Stop_write] (io_begin three_fds 0) = Some s \<and>
    pc s = In_wait \<and> wake_ready (ctx s) \<and>
    io_runs (\<lambda>_. True) (\<lambda>cb fd ev w. ([], w + 1)) [Report [(3, 1), (5, 1)], Advance, Advance, Advance, Advance] s = Some s' \<and>
    pc s' = Returned \<and> \<not> running (ctx s')"
proof -
  let ?i = "\<lambda>cb fd ev (w :: nat). ([] :: int io_call list, w + 1)"
  obtain s where s: "io_runs (\<lambda>_. True) ?i [Advance, Advance, Stop_store, Stop_write] (io_begin three_fds 0) = Some s"
    and p: "pc s = In_wait" "stopping s = 0" "\<not> running (ctx s)"
    "io_runs (\<lambda>_. True) ?i [Report [(3, 1), (5, 1)], Advance, Advance, Advance, Advance] s \<noteq> None"
    "pc (the (io_runs (\<lambda>_. True) ?i [Report [(3, 1), (5, 1)], Advance, Advance, Advance, Advance] s)) = Returned"
    by (simp add: io_take_def io_advance_def io_begin_def three_fds_def io_stop_store_def io_stop_write_def
        reportable_def kMaxEvents_def handle_event_def)
  then obtain s' where s': "io_runs (\<lambda>_. True) ?i [Report [(3, 1), (5, 1)], Advance, Advance, Advance, Advance] s = Some s'"
    "pc s' = Returned" by auto
  have "interest three_fds (event_fd three_fds) \<noteq> None" "\<And>cb fd ev w. Unregister (event_fd three_fds) \<notin> set (fst (?i cb fd ev w))"
    by (simp_all add: three_fds_def)
  note ends = io_stop_ends_loop [OF this s _ p(3)]
  have "\<not> running (ctx s')" "wake_ready (ctx s)" using ends [OF _ s'(1)] ends [of "[]" s] p(1,2) by simp_all
  then show ?thesis using s s' p(1) by blast
qed

text \<open>C24. But only a loop that runs.  \<open>run\<close> sets \<open>running_\<close> when its thread gets to it, so a \<open>stop\<close> that comes
  first is lost: as long as no other thread and no callback calls \<open>stop\<close> again and \<open>epoll_wait\<close> does not fail, the
  thread never returns, whatever is reported and whatever the callbacks register and unregister; it goes on for ever
  unless a callback throws.  \<open>SfuServer::stop\<close>, which joins that thread, then does not return.\<close>

theorem io_early_stop_lost:
  assumes "\<And>cb fd ev w. Stop \<notin> set (fst (invoke cb fd ev w))"
    and "set chs \<inter> {Wait_error, Stop_store, Stop_write} = {}"
    and "io_runs add_ok invoke chs (io_begin (io_stop c) w) = Some s"
  shows "pc s \<noteq> Returned \<and>
    (pc s = Thrown \<or> (pc s = Starting \<or> running (ctx s)) \<and> (\<exists>ch\<in>{Advance, Interrupt}. io_take add_ok invoke ch s \<noteq> None))"
proof -
  let ?P = "\<lambda>s. pc s = Starting \<or> pc s = Thrown \<or> running (ctx s) \<and> pc s \<noteq> Returned"
  have "?P s"
    using assms(3)
  proof (rule runs_invariant [where P = ?P])
    show "?P (io_begin (io_stop c) w)" by (simp add: io_begin_def)
  next
    fix ch s s' assume "ch \<in> set chs" "io_take add_ok invoke ch s = Some s'" and P: "?P s"
    from this(2) show "?P s'"
    proof (cases rule: take_cases)
      case (one_event e es c w)
      then have "running c"
        using P assms(1) ops_effects
        by (fastforce simp: handle_event_def split: prod.splits if_splits option.splits dest: arg_cong [where f = fst])
      then show ?thesis using one_event by simp
    qed (use P assms(2) \<open>ch \<in> set chs\<close> in auto)
  qed
  then show ?thesis
    by (cases "pc s") (auto simp: io_take_def io_advance_def split: list.split option.split)
qed

lemma io_early_stop_lost_witness:
  "\<exists>s. io_runs (\<lambda>_. True) (\<lambda>cb fd ev (w :: nat). ([Unregister cb], w + 1))
      [Advance, Advance, Report [(3, 1), (5, 1)], Advance, Advance, Advance, Advance, Timeout] (io_begin (io_stop three_fds) 0) = Some s \<and>
    pc s = Checking \<and> running (ctx s) \<and> interest (ctx s) 6 = None"
proof -
  let ?i = "\<lambda>cb fd ev (w :: nat). ([Unregister cb] :: int io_call list, w + 1)"
  let ?chs = "[Advance, Advance, Report [(3, 1), (5, 1)], Advance, Advance, Advance, Advance, Timeout]"
  obtain s where s: "io_runs (\<lambda>_. True) ?i ?chs (io_begin (io_stop three_fds) 0) = Some s"
    and p: "pc s = Checking" "interest (ctx s) 6 = None"
    by (simp add: io_take_def io_advance_def io_begin_def three_fds_def io_stop_def io_stop_store_def io_stop_write_def
        reportable_def kMaxEvents_def handle_event_def unregister_fd_def wake_ready_def)
  from io_early_stop_lost [OF _ _ s] p have "running (ctx s)" by simp
  with s p show ?thesis by blast
qed

text \<open>Dispatch.  From the constructor on, whatever is registered and unregistered and however the loop ends,
  there is a callback exactly for the descriptors the kernel watches.  In a batch a descriptor's callback is
  called only if it is still registered when its turn comes: a callback that unregisters another descriptor
  keeps that one's pending event from being delivered.  The wake-up event calls nothing and resets the
  counter.\<close>

theorem io_dispatch:
  assumes "fd \<noteq> event_fd c" and "fd' \<noteq> event_fd c" and "callbacks c fd = Some cb"
    and "invoke cb fd ev w = ([Unregister fd'], w1)"
  shows "(case snd (IoContext noop epfd efd ok) of
       None \<Rightarrow> True
     | Some c0 \<Rightarrow> (case io_runs add_ok invoke chs (io_begin c0 w0) of
                     None \<Rightarrow> True | Some s \<Rightarrow> dom (callbacks (ctx s)) = dom (interest (ctx s)))) \<and>
    handle_batch add_ok invoke [(fd, ev), (fd', ev')] (c, w) = Some (unregister_fd fd' c, w1) \<and>
    handle_batch add_ok invoke [(event_fd c, ev), (fd, ev)] (c, w) =
      Some (unregister_fd fd' (c\<lparr>wakeups := 0\<rparr>), w1)"
proof -
  have "case snd (IoContext noop epfd efd ok) of
       None \<Rightarrow> True
     | Some c0 \<Rightarrow> (case io_runs add_ok invoke chs (io_begin c0 w0) of
                     None \<Rightarrow> True | Some s \<Rightarrow> tables_agree (ctx s))"
    using runs_tables [of add_ok invoke chs _ w0]
    by (auto simp: IoContext_def tables_agree_def split: option.split)
  note agree = this [unfolded tables_agree_def]
  have "handle_batch add_ok invoke [(fd, ev), (fd', ev')] (c, w) = Some (unregister_fd fd' c, w1)"
    "handle_batch add_ok invoke [(event_fd c, ev), (fd, ev)] (c, w) = Some (unregister_fd fd' (c\<lparr>wakeups := 0\<rparr>), w1)"
    using assms by (simp_all add: handle_event_def unregister_fd_def)
  then show ?thesis by (intro conjI agree)
qed

lemma io_dispatch_witness:
  "handle_batch (\<lambda>_. True) (\<lambda>cb fd ev w. ([Unregister cb], fd # w)) [(5, 1), (6, 1)] (three_fds, []) =
   Some (unregister_fd 6 three_fds, [5])"
  using io_dispatch [where fd = 5 and c = three_fds and fd' = 6 and cb = 6 and ev = 1 and ev' = 1 and w = "[]" and
      invoke = "\<lambda>cb fd ev w. ([Unregister cb], fd # w)" and add_ok = "\<lambda>_. True"]
  by (simp add: three_fds_def)

lemma io_ops_event_fd: "io_ops add_ok ops c = Some c' \<Longrightarrow> event_fd c' = event_fd c"
proof (induction ops arbitrary: c)
  case (Cons op ops)
  then obtain c1 where "io_op add_ok op c = Some c1" "io_ops add_ok ops c1 = Some c'" by (auto simp: bind_eq_Some_conv)
  moreover from this(1) have "event_fd c1 = event_fd c"
    by (rule op_effects)
  ultimately show ?case using Cons.IH by simp
qed simp

text \<open>Whatever fails while the context is made, and whatever is called on it afterwards, the two descriptors it opens
  are each closed exactly once, by the constructor that throws or by the destructor.\<close>

theorem io_descriptors_closed:
  "case IoContext noop epfd efd ok of (closed, made) \<Rightarrow>
     closed @ (case Option.bind made (io_ops add_ok ops) of Some c \<Rightarrow> io_destroy epfd c
                     | None \<Rightarrow> (case made of Some c \<Rightarrow> io_destroy epfd c | None \<Rightarrow> [])) =
     (if epfd < 0 then [] else if efd < 0 then [epfd] else [efd, epfd])"
  using io_ops_event_fd [of add_ok ops "\<lparr>interest = [efd \<mapsto> 1], callbacks = [efd \<mapsto> noop], running = False,
    event_fd = efd, wakeups = 0\<rparr>"]
  by (auto simp: IoContext_def io_destroy_def split: option.splits)

end
