(* ===== verification/UdpSocket.thy ===== *)
theory UdpSocket
  imports Prelude "HOL-Library.Multiset"
begin

text \<open>
  \<open>net::UdpSocket\<close> of \<open>module01_network_core\<close> (\<open>udp_socket.h\<close>, \<open>udp_socket.cpp\<close>): who owns a descriptor.
  An object is its \<open>fd_\<close>; what the system calls answer is an argument.  The descriptors that \<open>socket\<close> opens
  and \<open>close\<close> is called on are recorded in order.
\<close>

section \<open>The operations of an object\<close>

text \<open>The constructor: the descriptors opened and closed, and \<open>fd_\<close> if it does not throw.  \<open>fd\<close>, \<open>flags\<close> and
  \<open>setfl\<close> are the answers of \<open>socket\<close>, \<open>fcntl(F_GETFL)\<close> and \<open>fcntl(F_SETFL)\<close>.\<close>

definition udp_new :: "int \<Rightarrow> int \<Rightarrow> int \<Rightarrow> int list \<times> int list \<times> int option" where
  "udp_new fd flags setfl =
     (if fd < 0 then ([], [], None)
      else if flags < 0 then ([fd], [fd], None)
      else if setfl < 0 then ([fd], [fd], None)
      else ([fd], [], Some fd))"

definition udp_destroy :: "int \<Rightarrow> int list" where
  "udp_destroy fd = (if fd \<ge> 0 then [fd] else [])"

text \<open>The new object's and the source's \<open>fd_\<close> after a move.\<close>

definition udp_move :: "int \<Rightarrow> int \<times> int" where
  "udp_move other = (other, -1)"

text \<open>Move assignment between different objects: what is closed, and the two \<open>fd_\<close> afterwards.\<close>

definition udp_assign :: "int \<Rightarrow> int \<Rightarrow> int list \<times> int \<times> int" where
  "udp_assign fd other = ((if fd \<ge> 0 then [fd] else []), other, -1)"

record udp_address =
  sin_addr :: u32
  sin_port :: u16

text \<open>\<open>htons\<close> on a little-endian host.\<close>

definition htons :: "u16 \<Rightarrow> u16" where
  "htons p = push_bit 8 p OR drop_bit 8 p"

text \<open>\<open>bind\<close>: the address it binds to, if it gets so far, and its result.  \<open>opt\<close> and \<open>bound\<close> answer for
  \<open>setsockopt\<close> and \<open>bind\<close>.\<close>

definition udp_bind :: "int \<Rightarrow> (udp_address \<Rightarrow> int) \<Rightarrow> u16 \<Rightarrow> udp_address option \<times> bool" where
  "udp_bind opt bound port =
     (if opt < 0 then (None, False)
      else let addr = \<lparr>sin_addr = 0, sin_port = htons port\<rparr> in (Some addr, bound addr = 0))"

text \<open>\<open>send_to\<close>: the answer of \<open>sendto\<close> for the object's descriptor.\<close>

definition udp_send_to :: "(int \<Rightarrow> bytes \<Rightarrow> udp_address \<Rightarrow> int) \<Rightarrow> int \<Rightarrow> bytes \<Rightarrow> udp_address \<Rightarrow> int" where
  "udp_send_to sendto fd data addr = sendto fd data addr"

text \<open>\<open>recv_from\<close> into a buffer of \<open>len\<close> bytes: its result and what it leaves in the buffer.  The answer of
  \<open>recvfrom\<close> is \<^const>\<open>None\<close> for an error, else the datagram, of which it keeps what fits.\<close>

definition udp_recv_from :: "nat \<Rightarrow> bytes option \<Rightarrow> int \<times> bytes" where
  "udp_recv_from len answer =
     (case answer of None \<Rightarrow> (-1, []) | Some d \<Rightarrow> (int (length (take len d)), take len d))"

definition udp_valid :: "int \<Rightarrow> bool" where
  "udp_valid fd \<longleftrightarrow> fd \<ge> 0"

section \<open>A program with sockets\<close>

text \<open>The objects made so far, destroyed ones as \<open>None\<close>, and the descriptors opened and closed.\<close>

record udp_world =
  sockets :: "int option list"
  opened :: "int list"
  closed :: "int list"

datatype udp_op = New int int int | Move_from nat | Assign nat nat | Destroy nat

definition live :: "udp_world \<Rightarrow> nat \<Rightarrow> int option" where
  "live w i = (if i < length (sockets w) then sockets w ! i else None)"

fun udp_step :: "udp_op \<Rightarrow> udp_world \<Rightarrow> udp_world" where
  "udp_step (New fd flags setfl) w =
     (case udp_new fd flags setfl of (os, cs, obj) \<Rightarrow>
        w\<lparr>sockets := sockets w @ (case obj of None \<Rightarrow> [] | Some f \<Rightarrow> [Some f]),
          opened := opened w @ os, closed := closed w @ cs\<rparr>)"
| "udp_step (Move_from i) w =
     (case live w i of None \<Rightarrow> w | Some fd \<Rightarrow>
        (case udp_move fd of (new, old) \<Rightarrow> w\<lparr>sockets := (sockets w)[i := Some old] @ [Some new]\<rparr>))"
| "udp_step (Assign i j) w =
     (case (live w i, live w j) of
        (Some fd, Some other) \<Rightarrow>
          if i = j then w
          else (case udp_assign fd other of (cs, new, old) \<Rightarrow>
                  w\<lparr>sockets := (sockets w)[i := Some new, j := Some old], closed := closed w @ cs\<rparr>)
      | _ \<Rightarrow> w)"
| "udp_step (Destroy i) w =
     (case live w i of None \<Rightarrow> w | Some fd \<Rightarrow>
        w\<lparr>sockets := (sockets w)[i := None], closed := closed w @ udp_destroy fd\<rparr>)"

definition no_sockets :: udp_world where
  "no_sockets = \<lparr>sockets = [], opened = [], closed = []\<rparr>"

section \<open>Every descriptor has one owner\<close>

fun holds :: "int option \<Rightarrow> int multiset" where
  "holds None = {#}"
| "holds (Some fd) = (if fd \<ge> 0 then {#fd#} else {#})"

definition owned :: "udp_world \<Rightarrow> int multiset" where
  "owned w = sum_list (map holds (sockets w))"

lemma sum_list_update_mset:
  "i < length xs \<Longrightarrow> sum_list (map holds (xs[i := x])) + holds (xs ! i) = sum_list (map holds xs) + holds x"
proof (induction xs arbitrary: i)
  case (Cons a xs)
  show ?case
  proof (cases i)
    case (Suc j)
    then have "sum_list (map holds (xs[j := x])) + holds (xs ! j) = sum_list (map holds xs) + holds x"
      using Cons by simp
    then show ?thesis using Suc by (simp add: add.assoc)
  qed (simp add: ac_simps)
qed simp

lemma swap_cancel:
  fixes a b c x y :: "'a multiset"
  assumes "a + x = b" and "b + y = c + x"
  shows "a + y = c"
proof -
  have "(a + y) + x = (a + x) + y" by (simp add: ac_simps)
  also have "\<dots> = c + x" by (simp only: assms)
  finally show ?thesis by (rule add_right_imp_eq)
qed

definition accounted :: "udp_world \<Rightarrow> bool" where
  "accounted w \<longleftrightarrow> mset (opened w) = mset (closed w) + owned w"

lemma live_nth: "live w i = Some fd \<Longrightarrow> i < length (sockets w) \<and> sockets w ! i = Some fd"
  by (simp add: live_def split: if_splits)

lemma step_accounted:
  assumes "accounted w"
  shows "accounted (udp_step op w)"
proof (cases op)
  case (New fd flags setfl)
  then show ?thesis using assms by (simp add: accounted_def owned_def udp_new_def)
next
  case (Move_from i)
  show ?thesis
  proof (cases "live w i")
    case (Some fd)
    note l = live_nth [OF Some]
    have "owned (udp_step op w) = owned w"
      using sum_list_update_mset [of i "sockets w" "Some (-1)"] l Move_from Some
      by (simp add: owned_def udp_move_def)
    then show ?thesis using assms Move_from Some by (simp add: accounted_def udp_move_def)
  qed (use assms Move_from in simp)
next
  case (Assign i j)
  show ?thesis
  proof (cases "live w i = None \<or> live w j = None \<or> i = j")
    case True
    then show ?thesis using assms Assign by (auto split: option.split)
  next
    case False
    then obtain fd other where s: "live w i = Some fd" "live w j = Some other" "i \<noteq> j" by auto
    note l = live_nth [OF s(1)] live_nth [OF s(2)]
    let ?xs = "(sockets w)[i := Some other]"
    have "sum_list (map holds (?xs[j := Some (-1)])) + holds (Some other) = sum_list (map holds ?xs)"
      using sum_list_update_mset [of j ?xs "Some (-1)"] l s(3) by simp
    moreover have "sum_list (map holds ?xs) + holds (Some fd) = owned w + holds (Some other)"
      using sum_list_update_mset [of i "sockets w" "Some other"] l by (simp add: owned_def)
    ultimately have "sum_list (map holds (?xs[j := Some (-1)])) + holds (Some fd) = owned w"
      by (rule swap_cancel)
    then have "mset (if fd \<ge> 0 then [fd] else []) + owned (udp_step op w) = owned w"
      using Assign s by (auto simp: owned_def udp_assign_def split: if_splits)
    then show ?thesis using assms Assign s by (simp add: accounted_def udp_assign_def add.assoc)
  qed
next
  case (Destroy i)
  show ?thesis
  proof (cases "live w i")
    case (Some fd)
    note l = live_nth [OF Some]
    have "mset (udp_destroy fd) + owned (udp_step op w) = owned w"
      using sum_list_update_mset [of i "sockets w" None] l Destroy Some
      by (auto simp: owned_def udp_destroy_def split: if_splits)
    then show ?thesis using assms Destroy Some by (simp add: accounted_def add.assoc)
  qed (use assms Destroy in simp)
qed

text \<open>No descriptor leaks and none is closed twice.  In every program that makes, moves, assigns and
  destroys sockets, whatever the system calls answer, the descriptors opened are, one for one, those
  that have been closed and those that exactly one live object still owns; so once every object is
  destroyed or empty, each has been closed exactly once.\<close>

theorem udp_descriptors_accounted:
  "let w = fold udp_step ops no_sockets in
   mset (opened w) = mset (closed w) + owned w \<and>
   (if set (sockets w) \<subseteq> {None, Some (-1)} then mset (closed w) = mset (opened w) else True)"
proof -
  have "accounted (fold udp_step ops w)" if "accounted w" for w
    using that by (induction ops arbitrary: w) (simp_all add: step_accounted)
  from this [of no_sockets]
  have "accounted (fold udp_step ops no_sockets)" by (simp add: accounted_def owned_def no_sockets_def)
  moreover have "sum_list (map holds xs) = {#}" if "set xs \<subseteq> {None, Some (-1)}" for xs
    using that by (induction xs) auto
  ultimately show ?thesis by (simp add: Let_def accounted_def owned_def)
qed

end
