(* ===== verification/Binary64.thy ===== *)
theory Binary64
  imports Complex_Main "HOL-Library.Log_Nat"
begin

text \<open>
  The \<open>double\<close> of the code (\<open>gcc_estimator.cpp\<close>, \<open>jitter_buffer.cpp\<close>): IEEE 754 binary64 with rounding to
  nearest, ties to even, as the compilers of the build implement it.  A finite double is a rational number, and
  the result of an operation is the exact result rounded once; so \<open>a * b\<close> of the code is \<open>rnd (a * b)\<close> here.
  Section one states what the estimators rely on as a locale: rounding is monotone, gives a double, and leaves
  doubles alone.  Section two is the rounding itself and the interpretation.  The magnitudes of the code stay
  between \<open>1e-30\<close> and \<open>1e40\<close>, so the limits of the exponent, infinities and NaN do not occur in it.
\<close>

section \<open>The interface\<close>

text \<open>A number with 53 significant bits.\<close>

definition is_double :: "rat \<Rightarrow> bool" where
  "is_double x \<longleftrightarrow> (\<exists>m e :: int. x = of_int m * 2 powi e \<and> \<bar>m\<bar> \<le> 2 ^ 53)"

lemma is_double_int [intro]: "\<bar>i\<bar> \<le> 2 ^ 53 \<Longrightarrow> is_double (of_int i)"
  unfolding is_double_def by (intro exI [of _ i] exI [of _ 0]) simp

lemma is_double_minus [simp]: "is_double (- x) \<longleftrightarrow> is_double x"
proof -
  have "is_double (- x)" if "is_double x" for x
    using that unfolding is_double_def by (metis abs_minus_cancel minus_mult_left of_int_minus)
  from this [of x] this [of "- x"] show ?thesis by auto
qed

text \<open>Multiples of a quarter below \<open>2^51\<close>: what sums and products of small integers and their means are.\<close>

definition quarters :: "rat \<Rightarrow> rat \<Rightarrow> bool" where
  "quarters bound x \<longleftrightarrow> 4 * x \<in> \<int> \<and> \<bar>x\<bar> \<le> bound"

lemma quarters_double:
  assumes "quarters bound x" and "bound \<le> 2 ^ 51"
  shows "is_double x"
proof -
  from assms(1) obtain i where i: "4 * x = of_int i" by (auto simp: quarters_def elim: Ints_cases)
  have "\<bar>of_int i\<bar> \<le> (4 * 2 ^ 51 :: rat)"
    using assms by (auto simp: quarters_def abs_mult simp flip: i)
  then have "\<bar>i\<bar> \<le> 2 ^ 53" by (simp flip: of_int_abs)
  moreover have "x = of_int i * 2 powi - 2" using i by (simp add: power_int_minus field_simps)
  ultimately show ?thesis unfolding is_double_def by blast
qed

lemma quarters_add: "quarters a x \<Longrightarrow> quarters b y \<Longrightarrow> quarters (a + b) (x + y)"
  unfolding quarters_def
  by (metis Ints_add abs_triangle_ineq add_mono distrib_left order_trans)

lemma quarters_mono: "quarters a x \<Longrightarrow> a \<le> b \<Longrightarrow> quarters b x"
  by (auto simp: quarters_def)

lemma quarters_minus: "quarters a x \<Longrightarrow> quarters a (- x)"
  by (auto simp: quarters_def)

lemma quarters_0: "0 \<le> b \<Longrightarrow> quarters b 0"
  by (simp add: quarters_def)

locale rounding =
  fixes rnd :: "rat \<Rightarrow> rat"
  assumes mono: "x \<le> y \<Longrightarrow> rnd x \<le> rnd y"
    and double: "is_double (rnd x)"
    and exact: "is_double x \<Longrightarrow> rnd x = x"
begin

lemma idem [simp]: "rnd (rnd x) = rnd x"
  by (rule exact [OF double])

lemma zero [simp]: "rnd 0 = 0"
  using exact is_double_int [of 0] by simp

lemma int_exact: "\<bar>i\<bar> \<le> 2 ^ 53 \<Longrightarrow> rnd (of_int i) = of_int i"
  using exact is_double_int by blast

lemma nat_exact: "n \<le> 2 ^ 53 \<Longrightarrow> rnd (of_nat n) = of_nat n"
  using int_exact [of "int n"] by (simp add: of_nat_le_iff [of n "2 ^ 53", where 'a = int, simplified])

lemma nonneg: "0 \<le> x \<Longrightarrow> 0 \<le> rnd x"
  using mono [of 0 x] by simp

lemma nonpos: "x \<le> 0 \<Longrightarrow> rnd x \<le> 0"
  using mono [of x 0] by simp

lemma le_double: "x \<le> y \<Longrightarrow> is_double y \<Longrightarrow> rnd x \<le> y"
  using mono exact by fastforce

lemma ge_double: "y \<le> x \<Longrightarrow> is_double y \<Longrightarrow> y \<le> rnd x"
  using mono exact by fastforce

lemma quarters_exact: "quarters bound x \<Longrightarrow> bound \<le> 2 ^ 51 \<Longrightarrow> rnd x = x"
  using exact quarters_double by blast

text \<open>An accumulator that stays a small multiple of a quarter has no rounding error.\<close>

lemma sum_exact:
  assumes "\<And>z. z \<in> set zs \<Longrightarrow> quarters b (f z)" and "quarters s a"
    and "s + of_nat (length zs) * b \<le> 2 ^ 51" and "0 \<le> b"
  shows "foldl (\<lambda>a z. rnd (a + f z)) a zs = a + sum_list (map f zs)"
  using assms
proof (induction zs arbitrary: a s)
  case (Cons z zs)
  have q: "quarters (s + b) (a + f z)"
    using Cons.prems(1) [of z] Cons.prems(2) by (simp add: quarters_add)
  have "s + b \<le> s + of_nat (length (z # zs)) * b"
    using Cons.prems(4) by (simp add: algebra_simps)
  also have "\<dots> \<le> 2 ^ 51" by (rule Cons.prems)
  finally have "rnd (a + f z) = a + f z" using q quarters_exact by blast
  moreover have "foldl (\<lambda>a z. rnd (a + f z)) (a + f z) zs = a + f z + sum_list (map f zs)"
    using Cons.prems by (intro Cons.IH [OF _ q]) (simp_all add: algebra_simps)
  ultimately show ?case by (simp add: add.assoc)
qed simp

text \<open>The moving average \<open>s += (d - s) / 16\<close> of two nonnegative doubles stays nonnegative.\<close>

lemma average_nonneg:
  assumes "0 \<le> s" "is_double s" "0 \<le> d"
  shows "0 \<le> rnd (s + rnd (rnd (d - s) / 16))"
proof -
  have "- s \<le> rnd (d - s)" using assms by (intro ge_double) simp_all
  then have "- s \<le> rnd (d - s) / 16" using assms(1) by simp
  then have "- s \<le> rnd (rnd (d - s) / 16)" using assms(2) by (intro ge_double) simp_all
  then show ?thesis by (intro nonneg) simp
qed

end

section \<open>The rounding of the machine\<close>

text \<open>The nearest integer, the even one of two that are equally near.\<close>

definition half_even :: "rat \<Rightarrow> int" where
  "half_even x = (let f = \<lfloor>x\<rfloor>; d = x - of_int f in if d < 1 / 2 \<or> d = 1 / 2 \<and> even f then f else f + 1)"

text \<open>The exponent of the leading bit.\<close>

definition binade :: "rat \<Rightarrow> int" where
  "binade x =
     (if 1 \<le> x then bitlen \<lfloor>x\<rfloor> - 1 else - bitlen (\<lceil>1 / x\<rceil> - 1))"

definition rnd_pos :: "rat \<Rightarrow> rat" where
  "rnd_pos x = of_int (half_even (x / 2 powi (binade x - 52))) * 2 powi (binade x - 52)"

definition rnd64 :: "rat \<Rightarrow> rat" where
  "rnd64 x = (if x < 0 then - rnd_pos (- x) else if x = 0 then 0 else rnd_pos x)"

lemma half_even_int [simp]: "half_even (of_int i) = i"
  by (simp add: half_even_def)

lemma half_even_between: "of_int i \<le> x \<Longrightarrow> x \<le> of_int j \<Longrightarrow> i \<le> half_even x \<and> half_even x \<le> j"
proof -
  assume lo: "of_int i \<le> x" and hi: "x \<le> of_int j"
  have "i \<le> \<lfloor>x\<rfloor>" using lo by (simp add: le_floor_iff)
  moreover have "\<lfloor>x\<rfloor> + 1 \<le> j" if "x \<noteq> of_int \<lfloor>x\<rfloor>"
  proof -
    have "of_int \<lfloor>x\<rfloor> < x" using that by (metis of_int_floor_le order_le_neq_trans)
    then have "of_int \<lfloor>x\<rfloor> < (of_int j :: rat)" using hi by linarith
    then show ?thesis by simp
  qed
  moreover have "\<lfloor>x\<rfloor> \<le> j" using hi by linarith
  ultimately show ?thesis by (cases "x = of_int \<lfloor>x\<rfloor>") (auto simp: half_even_def Let_def)
qed

lemma half_even_mono: "x \<le> y \<Longrightarrow> half_even x \<le> half_even y"
proof -
  assume le: "x \<le> y"
  show ?thesis
  proof (cases "\<lfloor>x\<rfloor> = \<lfloor>y\<rfloor>")
    case True
    with le show ?thesis by (auto simp: half_even_def Let_def)
  next
    case False
    with floor_mono [OF le] have lt: "\<lfloor>x\<rfloor> + 1 \<le> \<lfloor>y\<rfloor>" by simp
    have "half_even x \<le> \<lfloor>x\<rfloor> + 1" by (auto simp: half_even_def Let_def)
    moreover have "\<lfloor>y\<rfloor> \<le> half_even y" by (auto simp: half_even_def Let_def)
    ultimately show ?thesis using lt by linarith
  qed
qed

lemma binade_bounds:
  assumes "0 < x"
  shows "2 powi binade x \<le> x" and "x < 2 powi (binade x + 1)"
proof -
  have "2 powi binade x \<le> x \<and> x < 2 powi (binade x + 1)"
  proof (cases "1 \<le> x")
    case True
    define n where "n = nat \<lfloor>x\<rfloor>"
    define f where "f = floorlog 2 n"
    have n: "0 < n" "of_nat n \<le> x" "x < of_nat n + 1"
      using True of_int_floor_le [of x] by (auto simp: n_def zero_less_floor floor_less_iff) linarith
    have f: "2 ^ (f - 1) \<le> n" "n < 2 ^ f" using floorlog_bounds [OF n(1), of 2] by (auto simp: f_def)
    from f n(1) obtain g where g: "f = Suc g" by (cases f) auto
    have "of_nat (2 ^ (f - 1)) \<le> x" "x < of_nat (2 ^ f)"
      using f n by (metis of_nat_le_iff order_trans, metis Suc_leI of_nat_Suc of_nat_le_iff order_less_le_trans add.commute)
    moreover have "binade x = int f - 1" using True by (simp add: binade_def bitlen_def n_def f_def)
    then have b: "binade x = int g" by (simp add: g)
    have "binade x + 1 = int (Suc g)" by (simp add: b)
    ultimately show ?thesis by (simp only: b) (simp add: g power_int_of_nat del: of_nat_Suc)
  next
    case False
    define n where "n = nat (\<lceil>1 / x\<rceil> - 1)"
    define f where "f = floorlog 2 n"
    have "1 < 1 / x" using False assms by simp
    then have "1 < \<lceil>1 / x\<rceil>" by (simp only: less_ceiling_iff of_int_1)
    then have "0 < n" "int n = \<lceil>1 / x\<rceil> - 1" unfolding n_def by linarith+
    moreover from this(2) have "of_nat n = of_int \<lceil>1 / x\<rceil> - (1 :: rat)" by (metis of_int_1 of_int_diff of_int_of_nat_eq)
    ultimately have n: "0 < n" "of_nat n < 1 / x" "1 / x \<le> of_nat n + 1"
      using ceiling_correct [of "1 / x"] by linarith+
    have f: "2 ^ (f - 1) \<le> n" "n < 2 ^ f" using floorlog_bounds [OF n(1), of 2] by (auto simp: f_def)
    from f n(1) obtain g where g: "f = Suc g" by (cases f) auto
    have "of_nat (2 ^ (f - 1)) < 1 / x" "1 / x \<le> of_nat (2 ^ f)"
      using f n by (metis of_nat_le_iff order_le_less_trans, metis Suc_leI of_nat_Suc of_nat_le_iff order_trans add.commute)
    then have "2 ^ (f - 1) * x < 1" "1 \<le> 2 ^ f * x"
      using assms by (auto simp: field_simps)
    moreover have "binade x = - int f" using False by (simp add: binade_def bitlen_def n_def f_def)
    then have b: "binade x = - int (Suc g)" by (simp add: g)
    have "binade x + 1 = - int g" by (simp add: b)
    ultimately show ?thesis
      by (simp only: b) (simp add: g power_int_minus power_int_of_nat field_simps del: of_nat_Suc)
  qed
  then show "2 powi binade x \<le> x" and "x < 2 powi (binade x + 1)" by auto
qed

lemma binade_mono:
  assumes "0 < x" and "x \<le> y"
  shows "binade x \<le> binade y"
proof -
  have "2 powi binade x \<le> x" using assms(1) by (rule binade_bounds)
  also have "\<dots> \<le> y" by (rule assms)
  also have "y < 2 powi (binade y + 1)" using assms by (intro binade_bounds) simp
  finally have "(2 :: rat) powi binade x < 2 powi (binade y + 1)" .
  then show ?thesis
    using power_int_increasing [of "binade y + 1" "binade x" "2 :: rat"] by (cases "binade x \<le> binade y") auto
qed

text \<open>The rounded number stays in the binade of the exact one, its upper end included.\<close>

lemma scaled_bounds:
  assumes "0 < x"
  shows "2 ^ 52 \<le> x / 2 powi (binade x - 52)" and "x / 2 powi (binade x - 52) < 2 ^ 53"
proof -
  have "x / 2 powi (binade x - 52) = x / 2 powi binade x * 2 ^ 52"
    by (simp add: power_int_diff)
  then show "2 ^ 52 \<le> x / 2 powi (binade x - 52)" "x / 2 powi (binade x - 52) < 2 ^ 53"
    using binade_bounds [OF assms] by (simp_all add: field_simps power_int_add)
qed

lemma rnd_pos_bounds:
  assumes "0 < x"
  shows "2 powi binade x \<le> rnd_pos x" and "rnd_pos x \<le> 2 powi (binade x + 1)"
proof -
  let ?u = "2 powi (binade x - 52) :: rat"
  have h: "2 ^ 52 \<le> half_even (x / ?u) \<and> half_even (x / ?u) \<le> 2 ^ 53"
    using scaled_bounds [OF assms] by (intro half_even_between) simp_all
  then have "of_int (2 ^ 52) * ?u \<le> rnd_pos x" "rnd_pos x \<le> of_int (2 ^ 53) * ?u"
    unfolding rnd_pos_def by (intro mult_right_mono; simp only: of_int_le_iff zero_le_power_int; simp)+
  moreover have "of_int (2 ^ 52) * ?u = 2 powi binade x" "of_int (2 ^ 53) * ?u = 2 powi (binade x + 1)"
    by (simp_all add: power_int_diff power_int_add)
  ultimately show "2 powi binade x \<le> rnd_pos x" "rnd_pos x \<le> 2 powi (binade x + 1)" by simp_all
qed

lemma rnd_pos_mono:
  assumes "0 < x" and "x \<le> y"
  shows "rnd_pos x \<le> rnd_pos y"
proof (cases "binade x = binade y")
  case True
  then show ?thesis
    using assms by (simp add: rnd_pos_def half_even_mono divide_right_mono mult_right_mono)
next
  case False
  with binade_mono [OF assms] have "binade x + 1 \<le> binade y" by simp
  then have "(2 :: rat) powi (binade x + 1) \<le> 2 powi binade y" by (simp add: power_int_increasing)
  then show ?thesis using rnd_pos_bounds [of x] rnd_pos_bounds [of y] assms by linarith
qed

lemma rnd_pos_double: "0 < x \<Longrightarrow> is_double (rnd_pos x)"
proof -
  assume x: "0 < x"
  have "2 ^ 52 \<le> half_even (x / 2 powi (binade x - 52)) \<and> half_even (x / 2 powi (binade x - 52)) \<le> 2 ^ 53"
    using scaled_bounds [OF x] by (intro half_even_between) simp_all
  then show ?thesis unfolding is_double_def rnd_pos_def
    by (intro exI [of _ "half_even (x / 2 powi (binade x - 52))"] exI [of _ "binade x - 52"]) simp
qed

text \<open>A double is a multiple of the unit of its binade, so it is not changed.\<close>

lemma rnd_pos_exact:
  assumes "0 < x" and "is_double x"
  shows "rnd_pos x = x"
proof -
  from assms(2) obtain m e where x: "x = of_int m * 2 powi e" and m: "\<bar>m\<bar> \<le> 2 ^ 53"
    by (auto simp: is_double_def)
  have "x \<le> of_int (2 ^ 53) * 2 powi e"
    unfolding x using m by (intro mult_right_mono) (simp only: of_int_le_iff, simp_all)
  then have "x \<le> 2 powi (e + 53)" by (simp add: power_int_add)
  have "\<exists>k. x / 2 powi (binade x - 52) = of_int k"
  proof (cases "binade x - 52 \<le> e")
    case True
    then have "(2 :: rat) powi e = 2 ^ nat (e - (binade x - 52)) * 2 powi (binade x - 52)"
      by (simp flip: power_int_of_nat power_int_add)
    moreover have "x / 2 powi (binade x - 52) = of_int m * (2 powi e / 2 powi (binade x - 52))" by (simp flip: x)
    ultimately have "x / 2 powi (binade x - 52) = of_int (m * 2 ^ nat (e - (binade x - 52)))" by simp
    then show ?thesis by blast
  next
    case False
    then have "(2 :: rat) powi (e + 53) \<le> 2 powi binade x" by (intro power_int_increasing) simp_all
    with \<open>x \<le> 2 powi (e + 53)\<close> binade_bounds(1) [OF assms(1)] have "x = 2 powi binade x" by linarith
    with assms(1) have "x / 2 powi (binade x - 52) = of_int (2 ^ 52)"
      by (simp add: power_int_diff)
    then show ?thesis by blast
  qed
  then obtain k where k: "x / 2 powi (binade x - 52) = of_int k" by blast
  then have "rnd_pos x = of_int k * 2 powi (binade x - 52)" by (simp add: rnd_pos_def)
  also have "\<dots> = x" by (simp flip: k)
  finally show ?thesis .
qed

interpretation b64: rounding rnd64
proof
  show "rnd64 x \<le> rnd64 y" if xy: "x \<le> y" for x y
  proof -
    have pos: "0 < rnd_pos z" if "0 < z" for z
      using rnd_pos_bounds(1) [OF that] zero_less_power_int [of "2 :: rat" "binade z"] by linarith
    consider "x < 0" "y < 0" | "x < 0" "y = 0" | "x < 0" "0 < y" | "x = 0" "0 \<le> y" | "0 < x" using xy by linarith
    then show ?thesis
      using xy pos [of "- x"] pos [of y] rnd_pos_mono [of "- y" "- x"] rnd_pos_mono [of x y]
      by cases (auto simp: rnd64_def)
  qed
  show "is_double (rnd64 x)" for x
    using rnd_pos_double is_double_int [of 0] by (simp add: rnd64_def)
  show "rnd64 x = x" if "is_double x" for x
    using that rnd_pos_exact [of x] rnd_pos_exact [of "- x"] by (auto simp: rnd64_def)
qed

text \<open>\<open>static_cast<int64_t>\<close> and \<open>static_cast<int>\<close> of a double cut off the fraction.\<close>

definition trunc :: "rat \<Rightarrow> int" where
  "trunc x = (if 0 \<le> x then \<lfloor>x\<rfloor> else \<lceil>x\<rceil>)"

lemma trunc_nonneg: "0 \<le> x \<Longrightarrow> 0 \<le> trunc x"
  by (simp add: trunc_def)

lemma trunc_le: "x \<le> of_int i \<Longrightarrow> 0 \<le> x \<Longrightarrow> trunc x \<le> i"
  by (simp add: trunc_def) linarith

lemma trunc_int [simp]: "trunc (of_int i) = i"
  by (simp add: trunc_def)

end
