(* ===== verification/Gcc.thy ===== *)
theory Gcc
  imports Binary64
begin

text \<open>
  \<open>GccEstimator\<close> (\<open>module08_weak_network/src/gcc_estimator.cpp\<close>): the delays of the last twenty packets, the slope
  of the line through them, and the bandwidth estimate it drives.  Doubles are those of \<open>Binary64\<close>, every
  operation rounded as the code performs it (without contraction to fused operations).  The 64-bit times and the
  estimate are integers: they would overflow only after \<open>9 * 10^13\<close> packets or with times \<open>2^63\<close> apart.
\<close>

section \<open>The estimator\<close>

record sample =
  smp_x :: rat
  smp_y :: rat

datatype gcc_state = Normal | Overuse | Underuse

record gcc_estimator =
  trendline_buf :: "sample list"
  gcc_state :: gcc_state
  estimated_bps :: int
  last_ref_ms :: int

definition gcc_init :: gcc_estimator where
  "gcc_init = \<lparr>trendline_buf = [], gcc_state = Normal, estimated_bps = 1000000, last_ref_ms = 0\<rparr>"

definition TRENDLINE_WIN :: nat where
  "TRENDLINE_WIN = 20"

definition compute_trendline :: "sample list \<Rightarrow> rat" where
  "compute_trendline buf =
     (let n = length buf in
      if n < 2 then 0
      else
        let (sum_x, sum_y) = foldl (\<lambda>(sum_x, sum_y) s. (rnd64 (sum_x + smp_x s), rnd64 (sum_y + smp_y s))) (0, 0) buf;
            mean_x = rnd64 (sum_x / of_nat n);
            mean_y = rnd64 (sum_y / of_nat n);
            (num, den) = foldl (\<lambda>(num, den) s.
                let dx = rnd64 (smp_x s - mean_x); dy = rnd64 (smp_y s - mean_y)
                in (rnd64 (num + rnd64 (dx * dy)), rnd64 (den + rnd64 (dx * dx)))) (0, 0) buf
        in if \<bar>den\<bar> < rnd64 (1 / 10 ^ 9) then 0 else rnd64 (num / den))"

text \<open>Every sample gets its position as \<open>x\<close>.\<close>

definition renumber :: "sample list \<Rightarrow> sample list" where
  "renumber buf = map (\<lambda>(i, s). s\<lparr>smp_x := rnd64 (of_nat i)\<rparr>) (enumerate 0 buf)"

definition push_sample :: "sample list \<Rightarrow> int \<Rightarrow> sample list" where
  "push_sample buf delay =
     (let buf = buf @ [\<lparr>smp_x = rnd64 (of_nat (length buf)), smp_y = rnd64 (of_int delay)\<rparr>]
      in if length buf > TRENDLINE_WIN then renumber (tl buf) else buf)"

definition on_packet_arrival :: "gcc_estimator \<Rightarrow> int \<Rightarrow> int \<Rightarrow> gcc_estimator" where
  "on_packet_arrival g send_time_ms recv_time_ms =
     (let g = g\<lparr>trendline_buf := push_sample (trendline_buf g) (recv_time_ms - send_time_ms)\<rparr> in
      if length (trendline_buf g) < 4 then g
      else
        let slope = compute_trendline (trendline_buf g);
            prev_state = gcc_state g;
            g = g\<lparr>gcc_state := if slope > 1 / 2 then Overuse else if slope < - (1 / 2) then Underuse else Normal\<rparr>
        in if gcc_state g = Overuse \<and> prev_state \<noteq> Overuse then
             let bps = trunc (rnd64 (rnd64 (of_int (estimated_bps g)) * rnd64 (85 / 100)))
             in g\<lparr>estimated_bps := if bps < 50000 then 50000 else bps\<rparr>
           else if gcc_state g = Normal \<or> gcc_state g = Underuse then
             g\<lparr>estimated_bps := estimated_bps g + 100000\<rparr>
           else g)"

text \<open>A sequence of packets, each with its send and its receive time.\<close>

definition gcc_run :: "(int \<times> int) list \<Rightarrow> gcc_estimator" where
  "gcc_run ps = foldl (\<lambda>g (send, recv). on_packet_arrival g send recv) gcc_init ps"

lemma gcc_run_Nil [simp]: "gcc_run [] = gcc_init"
  by (simp add: gcc_run_def)

lemma gcc_run_snoc [simp]: "gcc_run (ps @ [(send, recv)]) = on_packet_arrival (gcc_run ps) send recv"
  by (simp add: gcc_run_def)

section \<open>The window\<close>

text \<open>The samples with the given delays, numbered from zero.\<close>

definition numbered :: "rat list \<Rightarrow> sample list" where
  "numbered ys = map (\<lambda>(i, y). \<lparr>smp_x = rnd64 (of_nat i), smp_y = y\<rparr>) (enumerate 0 ys)"

lemma length_numbered [simp]: "length (numbered ys) = length ys"
  by (simp add: numbered_def)

lemma numbered_snoc: "numbered (ys @ [y]) = numbered ys @ [\<lparr>smp_x = rnd64 (of_nat (length ys)), smp_y = y\<rparr>]"
  by (simp add: numbered_def enumerate_append_eq)

lemma enumerate_map: "enumerate n (map f xs) = map (\<lambda>(i, x). (i, f x)) (enumerate n xs)"
  by (induction xs arbitrary: n) auto

lemma map_smp_y_numbered [simp]: "map smp_y (numbered ys) = ys"
  by (simp add: numbered_def comp_def case_prod_beta map_snd_enumerate [unfolded comp_def])

lemma renumber_numbered: "renumber buf = numbered (map smp_y buf)"
proof -
  have "s\<lparr>smp_x := x\<rparr> = \<lparr>smp_x = x, smp_y = smp_y s\<rparr>" for s :: sample and x by (cases s) simp
  then show ?thesis
    by (simp add: renumber_def numbered_def enumerate_map comp_def case_prod_beta)
qed

lemma push_numbered:
  assumes "length ys \<le> 20"
  shows "push_sample (numbered ys) delay =
    numbered (drop (length ys + 1 - 20) (ys @ [rnd64 (of_int delay)]))"
proof (cases "length ys = 20")
  case True
  have "push_sample (numbered ys) delay = renumber (tl (numbered (ys @ [rnd64 (of_int delay)])))"
    using True by (simp add: push_sample_def TRENDLINE_WIN_def numbered_snoc)
  also have "\<dots> = numbered (tl (ys @ [rnd64 (of_int delay)]))"
    by (simp add: renumber_numbered map_tl)
  finally show ?thesis using True by (cases ys) auto
next
  case False
  with assms show ?thesis by (simp add: push_sample_def TRENDLINE_WIN_def numbered_snoc)
qed

definition delays :: "(int \<times> int) list \<Rightarrow> rat list" where
  "delays ps = map (\<lambda>(send, recv). rnd64 (of_int (recv - send))) ps"

lemma length_delays [simp]: "length (delays ps) = length ps"
  by (simp add: delays_def)

lemma trendline_on_packet:
  "trendline_buf (on_packet_arrival g send recv) = push_sample (trendline_buf g) (recv - send)"
  by (simp add: on_packet_arrival_def Let_def)

lemma gcc_window: "trendline_buf (gcc_run ps) = numbered (drop (length ps - 20) (delays ps))"
proof (induction ps rule: rev_induct)
  case (snoc p ps)
  obtain send recv where p: "p = (send, recv)" by force
  have "length (drop (length ps - 20) (delays ps)) \<le> 20" by (simp add: delays_def)
  moreover have "\<not> length ps < 20 \<Longrightarrow> Suc (length ps - 20) = length ps - 19" by simp
  ultimately show ?case
    by (simp add: p trendline_on_packet snoc push_numbered)
       (cases "length ps < 20", simp_all add: delays_def)
qed (simp add: gcc_init_def numbered_def delays_def)

section \<open>The slope of a line\<close>

text \<open>When the delays grow by the same whole number of milliseconds from packet to packet, no operation of the
  regression rounds, and the slope is that number.\<close>

lemma foldl_pair:
  "foldl (\<lambda>(a, b) z. (f a z, g b z)) (a, b) zs = (foldl f a zs, foldl g b zs)"
  by (induction zs arbitrary: a b) auto

lemma sum_upt: "(\<Sum>i\<leftarrow>[0..<n]. (of_nat i :: rat)) = of_nat n * (of_nat n - 1) / 2"
  by (induction n) (simp_all add: field_simps)

lemma sum_list_scale: "(\<Sum>i\<leftarrow>xs. c * f i) = c * (\<Sum>i\<leftarrow>xs. (f i :: rat))"
  by (induction xs) (simp_all add: algebra_simps)

lemma sum_list_nonneg_ge: "x \<in> set xs \<Longrightarrow> (\<And>y. 0 \<le> (f y :: rat)) \<Longrightarrow> f x \<le> (\<Sum>i\<leftarrow>xs. f i)"
proof (induction xs)
  case (Cons y ys)
  have "0 \<le> (\<Sum>i\<leftarrow>ys. f i)" using Cons.prems(2) by (induction ys) (simp_all add: add_nonneg_nonneg)
  then show ?case using Cons by (auto intro: add_increasing)
qed simp

definition line :: "int \<Rightarrow> int \<Rightarrow> nat \<Rightarrow> sample list" where
  "line a b n = map (\<lambda>i. \<lparr>smp_x = of_nat i, smp_y = of_int (a + b * int i)\<rparr>) [0..<n]"

lemma length_line [simp]: "length (line a b n) = n"
  by (simp add: line_def)

text \<open>The distance of the \<open>i\<close>-th position from the mean position.\<close>

definition off :: "nat \<Rightarrow> nat \<Rightarrow> rat" where
  "off n i = of_nat i - (of_nat n - 1) / 2"

lemma off_int: "2 * off n i \<in> \<int>"
proof -
  have "2 * off n i = of_int (2 * int i - int n + 1)" by (simp add: off_def field_simps)
  then show ?thesis by (metis Ints_of_int)
qed

lemma off_le: "i < n \<Longrightarrow> n \<le> 20 \<Longrightarrow> \<bar>off n i\<bar> \<le> 10"
proof -
  assume "i < n" "n \<le> 20"
  then have "(0 :: rat) \<le> of_nat i" "(of_nat i :: rat) \<le> of_nat n - 1" "(of_nat n :: rat) \<le> 20"
    by (simp_all flip: of_nat_Suc add: le_diff_eq)
  then show ?thesis by (simp add: off_def abs_le_iff field_simps del: of_nat_le_iff of_nat_0_le_iff)
qed

lemma off_quarters:
  fixes b :: int
  assumes i: "i < n" "n \<le> 20"
  defines "c \<equiv> of_int b :: rat"
  shows "quarters 10 (off n i)" and "quarters 100 (off n i * off n i)"
    and "quarters (\<bar>c\<bar> * 10) (c * off n i)" and "quarters (\<bar>c\<bar> * 100) (off n i * (c * off n i))"
proof -
  have c: "c \<in> \<int>" "0 \<le> \<bar>c\<bar>" by (simp_all add: c_def)
  have "4 * (off n i * off n i) = (2 * off n i) * (2 * off n i)" by simp
  then have i1: "4 * (off n i * off n i) \<in> \<int>" using off_int [of n i] by (simp only: Ints_mult)
  have b1: "\<bar>off n i\<bar> * \<bar>off n i\<bar> \<le> 10 * 10" using off_le [OF i] by (intro mult_mono) simp_all
  show "quarters 100 (off n i * off n i)" using i1 b1 by (simp add: quarters_def abs_mult)
  have "4 * (c * off n i) = 2 * c * (2 * off n i)" by simp
  then have "4 * (c * off n i) \<in> \<int>" using off_int [of n i] c by (simp only: Ints_mult Ints_numeral)
  then show "quarters (\<bar>c\<bar> * 10) (c * off n i)"
    using off_le [OF i] by (simp add: quarters_def abs_mult mult_left_mono)
  have "4 * (off n i * (c * off n i)) = c * (4 * (off n i * off n i))" by simp
  then have "4 * (off n i * (c * off n i)) \<in> \<int>" using i1 c by (simp only: Ints_mult)
  moreover have "\<bar>off n i * (c * off n i)\<bar> = \<bar>c\<bar> * (\<bar>off n i\<bar> * \<bar>off n i\<bar>)" by (simp add: abs_mult)
  ultimately show "quarters (\<bar>c\<bar> * 100) (off n i * (c * off n i))"
    using mult_left_mono [OF b1 c(2)] by (simp add: quarters_def)
  have "4 * off n i = 2 * (2 * off n i)" by simp
  then have "4 * off n i \<in> \<int>" using off_int [of n i] by (simp only: Ints_mult Ints_numeral)
  then show "quarters 10 (off n i)" using off_le [OF i] by (simp add: quarters_def)
qed

text \<open>The two loops of the regression over a line.\<close>

lemma line_sums:
  assumes "n \<le> 20" and a: "\<bar>a\<bar> \<le> 2 ^ 40" and b: "\<bar>b\<bar> \<le> 2 ^ 40"
  shows "foldl (\<lambda>s z. rnd64 (s + smp_x z)) 0 (line a b n) = of_nat n * (of_nat n - 1) / 2"
    and "foldl (\<lambda>s z. rnd64 (s + smp_y z)) 0 (line a b n) =
      of_nat n * of_int a + of_int b * (of_nat n * (of_nat n - 1) / 2)"
proof -
  have "quarters 20 (of_nat i)" if "i < n" for i
    using that assms(1) by (simp add: quarters_def)
  then have "foldl (\<lambda>s z. rnd64 (s + smp_x z)) 0 (line a b n) = 0 + sum_list (map smp_x (line a b n))"
    using assms(1) by (intro b64.sum_exact [where b = 20 and s = 0]) (auto simp: line_def quarters_0)
  then show "foldl (\<lambda>s z. rnd64 (s + smp_x z)) 0 (line a b n) = of_nat n * (of_nat n - 1) / 2"
    by (simp add: line_def comp_def sum_upt)
  have q: "quarters (2 ^ 45) (of_int (a + b * int i))" if "i < n" for i
  proof -
    have "\<bar>b * int i\<bar> \<le> 2 ^ 40 * 20" unfolding abs_mult using b that assms(1) by (intro mult_mono) simp_all
    then have "\<bar>a + b * int i\<bar> \<le> 2 ^ 45" using a abs_triangle_ineq [of a "b * int i"] by simp
    then have "of_int \<bar>a + b * int i\<bar> \<le> (of_int (2 ^ 45) :: rat)" by (simp only: of_int_le_iff)
    then show ?thesis by (simp add: quarters_def)
  qed
  then have "foldl (\<lambda>s z. rnd64 (s + smp_y z)) 0 (line a b n) = 0 + sum_list (map smp_y (line a b n))"
    using assms(1)
    by (intro b64.sum_exact [where b = "2 ^ 45" and s = 0]) (auto simp: line_def quarters_0)
  also have "\<dots> = of_nat n * of_int a + of_int b * (\<Sum>i\<leftarrow>[0..<n]. of_nat i)"
    by (simp add: line_def comp_def sum_list_addf sum_list_triv sum_list_const_mult)
  finally show "foldl (\<lambda>s z. rnd64 (s + smp_y z)) 0 (line a b n) =
      of_nat n * of_int a + of_int b * (of_nat n * (of_nat n - 1) / 2)" by (simp add: sum_upt)
qed

lemma line_products:
  assumes "n \<le> 20" and b: "\<bar>b\<bar> \<le> 2 ^ 40"
    and mx: "mx = (of_nat n - 1) / 2" and my: "my = of_int a + of_int b * ((of_nat n - 1) / 2)"
  shows "foldl (\<lambda>s z. rnd64 (s + rnd64 (rnd64 (smp_x z - mx) * rnd64 (smp_x z - mx)))) 0 (line a b n) =
      (\<Sum>i\<leftarrow>[0..<n]. off n i * off n i)" (is ?den)
    and "foldl (\<lambda>s z. rnd64 (s + rnd64 (rnd64 (smp_x z - mx) * rnd64 (smp_y z - my)))) 0 (line a b n) =
      of_int b * (\<Sum>i\<leftarrow>[0..<n]. off n i * off n i)" (is ?num)
proof -
  have B: "\<bar>of_int b\<bar> \<le> (2 ^ 40 :: rat)" using b by (simp flip: of_int_abs)
  have x: "rnd64 (of_nat i - mx) = off n i" if "i < n" for i
    using off_quarters(1) [OF that assms(1)] b64.quarters_exact by (simp add: mx off_def)
  have y: "rnd64 (of_int (a + b * int i) - my) = of_int b * off n i" if "i < n" for i
  proof -
    have "of_int (a + b * int i) - my = of_int b * off n i" by (simp add: my off_def algebra_simps)
    moreover have "\<bar>of_int b\<bar> * 10 \<le> (2 ^ 51 :: rat)" using B by simp
    ultimately show ?thesis
      using off_quarters(3) [OF that assms(1)] b64.quarters_exact by metis
  qed
  have xx: "rnd64 (off n i * off n i) = off n i * off n i" if "i < n" for i
    using off_quarters(2) [OF that assms(1)] b64.quarters_exact by simp
  have xy: "rnd64 (off n i * (of_int b * off n i)) = off n i * (of_int b * off n i)" if "i < n" for i
  proof -
    have "\<bar>of_int b\<bar> * 100 \<le> (2 ^ 51 :: rat)" using B by simp
    then show ?thesis using off_quarters(4) [OF that assms(1)] b64.quarters_exact by metis
  qed
  have "foldl (\<lambda>s i. rnd64 (s + off n i * off n i)) 0 [0..<n] = 0 + (\<Sum>i\<leftarrow>[0..<n]. off n i * off n i)"
    using assms(1) off_quarters(2)
    by (intro b64.sum_exact [where b = 100 and s = 0]) (auto simp: quarters_0)
  moreover have "foldl (\<lambda>s i. rnd64 (s + off n i * off n i)) 0 [0..<n] =
      foldl (\<lambda>s i. rnd64 (s + rnd64 (rnd64 (of_nat i - mx) * rnd64 (of_nat i - mx)))) 0 [0..<n]"
    by (intro foldl_cong) (simp_all add: x xx)
  ultimately show ?den by (simp add: line_def foldl_map)
  have "foldl (\<lambda>s i. rnd64 (s + off n i * (of_int b * off n i))) 0 [0..<n] =
      0 + (\<Sum>i\<leftarrow>[0..<n]. off n i * (of_int b * off n i))"
  proof (intro b64.sum_exact [where b = "\<bar>of_int b\<bar> * 100" and s = 0])
    have "of_nat (length [0..<n]) * (\<bar>of_int b\<bar> * 100) \<le> (20 :: rat) * (2 ^ 40 * 100)"
      using assms(1) B by (intro mult_mono) simp_all
    then show "0 + of_nat (length [0..<n]) * (\<bar>of_int b\<bar> * 100) \<le> (2 ^ 51 :: rat)" by simp
  qed (use assms(1) off_quarters(4) in \<open>auto simp: quarters_0\<close>)
  also have "\<dots> = of_int b * (\<Sum>i\<leftarrow>[0..<n]. off n i * off n i)"
    by (simp add: mult.left_commute flip: sum_list_const_mult)
  finally have "foldl (\<lambda>s i. rnd64 (s + off n i * (of_int b * off n i))) 0 [0..<n] =
    of_int b * (\<Sum>i\<leftarrow>[0..<n]. off n i * off n i)" .
  moreover have "foldl (\<lambda>s i. rnd64 (s + off n i * (of_int b * off n i))) 0 [0..<n] =
      foldl (\<lambda>s i. rnd64 (s + rnd64 (rnd64 (of_nat i - mx) * rnd64 (of_int (a + b * int i) - my)))) 0 [0..<n]"
    by (intro foldl_cong) (simp_all only: x y xy set_upt atLeastLessThan_iff)
  ultimately show ?num by (simp add: line_def foldl_map)
qed

lemma compute_trendline_line:
  assumes n: "2 \<le> n" "n \<le> 20" and a: "\<bar>a\<bar> \<le> 2 ^ 40" and b: "\<bar>b\<bar> \<le> 2 ^ 40"
  shows "compute_trendline (line a b n) = of_int b"
proof -
  define D where "D = (\<Sum>i\<leftarrow>[0..<n]. off n i * off n i)"
  let ?mx = "(of_nat n - 1) / 2 :: rat" and ?my = "of_int a + of_int b * ((of_nat n - 1) / 2) :: rat"
  have "off n 0 * off n 0 \<le> D"
    unfolding D_def using n by (intro sum_list_nonneg_ge) simp_all
  moreover have "1 / 2 * (1 / 2) \<le> off n 0 * off n 0"
    using n mult_mono [of "1 / 2" "- off n 0" "1 / 2" "- off n 0"] by (simp add: off_def)
  ultimately have D: "1 / 4 \<le> D" by simp
  have "rnd64 (1 / 10 ^ 9) \<le> rnd64 (1 / 4)" by (intro b64.mono) simp
  also have "\<dots> = 1 / 4" by (rule b64.quarters_exact [where bound = 1]) (simp_all add: quarters_def)
  finally have tiny: "\<not> \<bar>D\<bar> < rnd64 (1 / 10 ^ 9)" using D by simp
  have half: "quarters 10 ?mx"
  proof -
    have "4 * ?mx = of_int (2 * int n - 2)" by (simp add: field_simps)
    then have "4 * ?mx \<in> \<int>" by (metis Ints_of_int)
    moreover have "(of_nat n :: rat) \<le> 20" "(2 :: rat) \<le> of_nat n" using n by simp_all
    ultimately show ?thesis by (simp add: quarters_def)
  qed
  have mx: "rnd64 (of_nat n * (of_nat n - 1) / 2 / of_nat n) = ?mx"
  proof -
    have "of_nat n * (of_nat n - 1) / 2 / of_nat n = ?mx" using n by simp
    moreover have "rnd64 ?mx = ?mx" using half by (rule b64.quarters_exact) simp
    ultimately show ?thesis by (simp only:)
  qed
  have my: "rnd64 ((of_nat n * of_int a + of_int b * (of_nat n * (of_nat n - 1) / 2)) / of_nat n) = ?my"
  proof -
    have "(of_nat n * of_int a + of_int b * (of_nat n * (of_nat n - 1) / 2)) / of_nat n = ?my"
      using n by (simp add: add_divide_distrib)
    moreover have "quarters (2 ^ 44) ?my"
    proof -
      have "4 * ?my = 4 * of_int a + of_int b * (4 * ?mx)" by simp
      moreover have "4 * ?mx \<in> \<int>" using half by (simp only: quarters_def)
      ultimately have "4 * ?my \<in> \<int>" by (simp only: Ints_add Ints_mult Ints_numeral Ints_of_int)
      moreover have "\<bar>of_int b * ?mx\<bar> \<le> 2 ^ 40 * 10" unfolding abs_mult
        using half b by (intro mult_mono) (simp_all add: quarters_def flip: of_int_abs)
      moreover have "\<bar>of_int a\<bar> \<le> (2 ^ 40 :: rat)" using a by (simp flip: of_int_abs)
      ultimately show ?thesis
        using abs_triangle_ineq [of "of_int a :: rat" "of_int b * ?mx"] by (simp add: quarters_def)
    qed
    then have "rnd64 ?my = ?my" by (rule b64.quarters_exact) simp
    ultimately show ?thesis by (simp only:)
  qed
  note sums = line_sums [OF n(2) a b] and products = line_products [OF n(2) b refl refl]
  have "\<not> n < 2" using n(1) by simp
  then have "compute_trendline (line a b n) =
      (if \<bar>D\<bar> < rnd64 (1 / 10 ^ 9) then 0 else rnd64 (of_int b * D / D))"
    by (simp only: compute_trendline_def Let_def length_line foldl_pair prod.case sums mx my products
      D_def if_False)
  also have "\<dots> = rnd64 (of_int b)" using tiny D by simp
  also have "\<dots> = of_int b" using b by (intro b64.int_exact) simp
  finally show ?thesis .
qed

section \<open>The estimate\<close>

lemma numbered_nth:
  "numbered ys = map (\<lambda>i. \<lparr>smp_x = rnd64 (of_nat i), smp_y = ys ! i\<rparr>) [0..<length ys]"
  by (rule nth_equalityI) (simp_all add: numbered_def nth_enumerate_eq)

lemma length_window: "length (trendline_buf (gcc_run ps)) = min 20 (length ps)"
  by (simp add: gcc_window delays_def)

lemma step_few:
  "length ps < 3 \<Longrightarrow> gcc_state (on_packet_arrival (gcc_run ps) s r) = gcc_state (gcc_run ps) \<and>
    estimated_bps (on_packet_arrival (gcc_run ps) s r) = estimated_bps (gcc_run ps)"
  using length_window [of "ps @ [(s, r)]"]
  by (simp add: trendline_on_packet) (simp add: on_packet_arrival_def Let_def)

lemma gcc_few: "length ps < 4 \<Longrightarrow> gcc_state (gcc_run ps) = Normal \<and> estimated_bps (gcc_run ps) = 1000000"
proof (induction ps rule: rev_induct)
  case (snoc p ps)
  then show ?case using step_few [of ps] by (cases p) simp
qed (simp add: gcc_init_def)

text \<open>Once there are four samples, the slope decides.\<close>

lemma step_slope:
  assumes "3 \<le> length ps" and "compute_trendline (trendline_buf (gcc_run (ps @ [(s, r)]))) = slope"
  shows "gcc_state (gcc_run (ps @ [(s, r)])) =
      (if slope > 1 / 2 then Overuse else if slope < - (1 / 2) then Underuse else Normal)"
    and "estimated_bps (gcc_run (ps @ [(s, r)])) =
      (if slope > 1 / 2 then
         if gcc_state (gcc_run ps) = Overuse then estimated_bps (gcc_run ps)
         else max 50000 (trunc (rnd64 (rnd64 (of_int (estimated_bps (gcc_run ps))) * rnd64 (85 / 100))))
       else estimated_bps (gcc_run ps) + 100000)"
proof -
  have "4 \<le> length (trendline_buf (gcc_run (ps @ [(s, r)])))"
    using assms(1) unfolding length_window by simp
  moreover have "trendline_buf (gcc_run (ps @ [(s, r)])) = push_sample (trendline_buf (gcc_run ps)) (r - s)"
    by (simp add: trendline_on_packet)
  ultimately show "gcc_state (gcc_run (ps @ [(s, r)])) =
      (if slope > 1 / 2 then Overuse else if slope < - (1 / 2) then Underuse else Normal)"
    and "estimated_bps (gcc_run (ps @ [(s, r)])) =
      (if slope > 1 / 2 then
         if gcc_state (gcc_run ps) = Overuse then estimated_bps (gcc_run ps)
         else max 50000 (trunc (rnd64 (rnd64 (of_int (estimated_bps (gcc_run ps))) * rnd64 (85 / 100))))
       else estimated_bps (gcc_run ps) + 100000)"
    using assms(2) by (simp_all add: on_packet_arrival_def Let_def)
qed

lemma decrease_bounds:
  assumes "0 \<le> e" and "e \<le> 2 ^ 53"
  shows "trunc (rnd64 (rnd64 (of_int e) * rnd64 (85 / 100))) \<le> e"
proof -
  have e: "rnd64 (of_int e) = of_int e" using assms by (intro b64.int_exact) simp
  have r: "0 \<le> rnd64 (85 / 100)" by (rule b64.nonneg) simp
  have "rnd64 (85 / 100) \<le> of_int 1" by (rule b64.le_double [OF _ is_double_int]) simp_all
  then have "of_int e * rnd64 (85 / 100) \<le> of_int e" using assms(1) by (simp add: mult_left_le)
  then have "rnd64 (of_int e * rnd64 (85 / 100)) \<le> of_int e"
    using assms by (intro b64.le_double is_double_int) simp_all
  then show ?thesis using assms(1) r by (simp add: e trunc_le b64.nonneg)
qed

lemma bounded:
  assumes "length ps \<le> 90000000000"
  shows "50000 \<le> estimated_bps (gcc_run ps)" and
    "estimated_bps (gcc_run ps) \<le> 1000000 + 100000 * int (length ps)"
proof -
  have "50000 \<le> estimated_bps (gcc_run ps) \<and> estimated_bps (gcc_run ps) \<le> 1000000 + 100000 * int (length ps)"
    using assms
  proof (induction ps rule: rev_induct)
    case (snoc p ps)
    obtain s r where p: "p = (s, r)" by force
    from snoc have IH: "50000 \<le> estimated_bps (gcc_run ps)"
      "estimated_bps (gcc_run ps) \<le> 1000000 + 100000 * int (length ps)" by auto
    show ?case
    proof (cases "length ps < 3")
      case True
      then show ?thesis using IH step_few [of ps s r] by (simp add: p)
    next
      case False
      have "estimated_bps (gcc_run ps) \<le> 2 ^ 53" using IH(2) snoc.prems by simp
      with IH(1) decrease_bounds
      have "trunc (rnd64 (rnd64 (of_int (estimated_bps (gcc_run ps))) * rnd64 (85 / 100))) \<le> estimated_bps (gcc_run ps)"
        by simp
      with False IH step_slope(2) [of ps s r, OF _ refl] show ?thesis unfolding p by simp
    qed
  qed (simp add: gcc_init_def)
  then show "50000 \<le> estimated_bps (gcc_run ps)"
    "estimated_bps (gcc_run ps) \<le> 1000000 + 100000 * int (length ps)" by auto
qed

text \<open>Delays that grow by \<open>b\<close> from packet to packet give a line in every window.\<close>

definition trend :: "int \<Rightarrow> int \<Rightarrow> (int \<times> int) list \<Rightarrow> bool" where
  "trend a b ps \<longleftrightarrow>
     (\<forall>i < length ps. snd (ps ! i) - fst (ps ! i) = a + b * int i \<and> \<bar>a + b * int i\<bar> \<le> 2 ^ 39)"

lemma trend_snoc:
  assumes "trend a b (ps @ [p])"
  shows "trend a b ps"
  unfolding trend_def
proof (intro allI impI)
  fix i assume i: "i < length ps"
  then have "snd ((ps @ [p]) ! i) - fst ((ps @ [p]) ! i) = a + b * int i \<and> \<bar>a + b * int i\<bar> \<le> 2 ^ 39"
    using assms unfolding trend_def by (metis length_append_singleton less_SucI)
  then show "snd (ps ! i) - fst (ps ! i) = a + b * int i \<and> \<bar>a + b * int i\<bar> \<le> 2 ^ 39"
    using i by (simp add: nth_append)
qed

lemma trend_slope:
  assumes tr: "trend a b ps" and "4 \<le> length ps"
  shows "compute_trendline (trendline_buf (gcc_run ps)) = of_int b"
proof -
  let ?k = "length ps - 20" and ?m = "min 20 (length ps)"
  have d: "delays ps ! i = of_int (a + b * int i)" if "i < length ps" for i
  proof -
    have "rnd64 (of_int (a + b * int i)) = of_int (a + b * int i)"
      using tr that by (intro b64.int_exact) (auto simp: trend_def)
    moreover have "delays ps ! i = rnd64 (of_int (snd (ps ! i) - fst (ps ! i)))"
      using that by (simp add: delays_def case_prod_beta)
    ultimately show ?thesis using tr that by (simp only: trend_def)
  qed
  have "trendline_buf (gcc_run ps) = line (a + b * int ?k) b ?m"
  proof -
    have e: "\<lparr>smp_x = rnd64 (of_nat i), smp_y = drop ?k (delays ps) ! i\<rparr> =
        \<lparr>smp_x = of_nat i, smp_y = of_int (a + b * int ?k + b * int i)\<rparr>" if "i < ?m" for i
    proof -
      have "?k + i < length ps" using that by arith
      then show ?thesis using that d [of "?k + i"] by (simp add: b64.nat_exact distrib_left add.assoc)
    qed
    have len: "length (drop ?k (delays ps)) = ?m" by simp
    show ?thesis
      unfolding gcc_window numbered_nth line_def len
      by (rule map_cong [OF refl], rule e) simp
  qed
  moreover have "\<bar>a + b * int ?k\<bar> \<le> 2 ^ 40"
    using tr assms(2) by (auto simp: trend_def dest: spec [of _ ?k])
  moreover have "\<bar>b\<bar> \<le> 2 ^ 40"
  proof -
    have "0 < length ps" "1 < length ps" using assms(2) by linarith+
    with tr have "\<bar>a + b * int 0\<bar> \<le> 2 ^ 39" "\<bar>a + b * int 1\<bar> \<le> 2 ^ 39"
      unfolding trend_def by blast+
    then show ?thesis by simp
  qed
  moreover have "2 \<le> ?m" "?m \<le> 20" using assms(2) by simp_all
  ultimately show ?thesis by (simp only: compute_trendline_line)
qed

lemma first_decrease: "trunc (rnd64 (rnd64 (of_int 1000000) * rnd64 (85 / 100))) = 850000"
  by code_simp

lemma trend_run:
  assumes "trend a b ps" and "4 \<le> length ps"
  shows "(gcc_state (gcc_run ps), estimated_bps (gcc_run ps)) =
    (if b \<ge> 1 then (Overuse, 850000)
     else (if b = 0 then Normal else Underuse, 1000000 + 100000 * (int (length ps) - 3)))"
  using assms
proof (induction ps rule: rev_induct)
  case (snoc p ps)
  obtain s r where p: "p = (s, r)" by force
  have slope: "compute_trendline (trendline_buf (gcc_run (ps @ [(s, r)]))) = of_int b"
    using trend_slope [OF snoc.prems] by (simp add: p)
  have l: "3 \<le> length ps" using snoc.prems(2) by simp
  note step = step_slope [OF l slope]
  have half: "(of_int b > (1 / 2 :: rat)) = (b \<ge> 1)" "(of_int b < (- (1 / 2) :: rat)) = (b \<le> - 1)"
    by (linarith, linarith)
  show ?case
  proof (cases "length ps = 3")
    case True
    then have "gcc_state (gcc_run ps) = Normal" "estimated_bps (gcc_run ps) = 1000000"
      using gcc_few by simp_all
    then show ?thesis using True step first_decrease by (simp only: p half) auto
  next
    case False
    then have "(gcc_state (gcc_run ps), estimated_bps (gcc_run ps)) =
      (if b \<ge> 1 then (Overuse, 850000)
       else (if b = 0 then Normal else Underuse, 1000000 + 100000 * (int (length ps) - 3)))"
      using l snoc.IH [OF trend_snoc [OF snoc.prems(1)]] by simp
    then show ?thesis using step by (simp only: p half) (auto split: if_splits)
  qed
qed simp

text \<open>C22. A queue that fills steadily.  When the delay grows by \<open>b\<close> milliseconds with every packet, the regression
  finds exactly the slope \<open>b\<close>; a growing delay lowers the estimate once, at the fourth packet, to 850 kbit/s,
  and never again however long it grows, while a constant or falling one raises it by 100 kbit/s with every
  packet from the fourth on.\<close>

theorem gcc_trend:
  assumes "\<forall>i < length ps. snd (ps ! i) - fst (ps ! i) = a + b * int i \<and> \<bar>a + b * int i\<bar> \<le> 2 ^ 39"
    and "4 \<le> length ps"
  shows "compute_trendline (trendline_buf (gcc_run ps)) = of_int b \<and>
    (gcc_state (gcc_run ps), estimated_bps (gcc_run ps)) =
      (if b \<ge> 1 then (Overuse, 850000)
       else (if b = 0 then Normal else Underuse, 1000000 + 100000 * (int (length ps) - 3)))"
  using trend_slope [of a b ps] trend_run [of a b ps] assms by (simp only: trend_def simp_thms)

lemma gcc_trend_witness:
  "estimated_bps (gcc_run (map (\<lambda>i. (20 * int i, 20 * int i + 5 + 3 * int i)) [0..<1000])) = 850000"
  using gcc_trend [of "map (\<lambda>i. (20 * int i, 20 * int i + 5 + 3 * int i)) [0..<1000]" 5 3] by simp

text \<open>The window holds the last twenty delays, numbered from zero, and for any sequence of up to ninety
  billion packets the estimate stays between 50 kbit/s and 1 Mbit/s plus 100 kbit/s for each packet.\<close>

theorem gcc_bounds:
  assumes "length ps \<le> 90000000000"
  shows "trendline_buf (gcc_run ps) = numbered (drop (length ps - 20) (delays ps)) \<and>
    50000 \<le> estimated_bps (gcc_run ps) \<and> estimated_bps (gcc_run ps) \<le> 1000000 + 100000 * int (length ps)"
  using bounded [OF assms] gcc_window by simp

lemma gcc_bounds_witness:
  "50000 \<le> estimated_bps (gcc_run [(0, 5), (20, 30), (40, 55), (60, 80)]) \<and>
   estimated_bps (gcc_run [(0, 5), (20, 30), (40, 55), (60, 80)]) \<le> 1400000"
  using gcc_bounds [of "[(0, 5), (20, 30), (40, 55), (60, 80)]"] by simp

end
