(* ===== verification/WeakJitter.thy ===== *)
theory WeakJitter
  imports StdMap RtpPacket Binary64 "HOL-Library.Multiset"
begin

text \<open>
  \<open>JitterBuffer\<close> of \<open>module08_weak_network\<close> (\<open>jitter_buffer.h\<close>, \<open>jitter_buffer.cpp\<close>): packets in a \<open>std::map\<close>
  under their sequence number, handed out when nothing has arrived for the target delay plus twice the smoothed
  jitter, or when more than ten are held.  The readings of the clock, in nanoseconds, are arguments; doubles are
  those of \<open>Binary64\<close>.
\<close>

section \<open>The buffer\<close>

record weak_jitter =
  target_delay_ms :: int
  wbuf :: "(u16, rtp_packet) smap"
  smoothed_jitter_ms :: rat
  last_arrival :: int
  wstarted :: bool

definition weak_init :: "int \<Rightarrow> weak_jitter" where
  "weak_init target =
     \<lparr>target_delay_ms = target, wbuf = [], smoothed_jitter_ms = 0, last_arrival = 0, wstarted = False\<rparr>"

text \<open>\<open>duration<double, std::milli>\<close> of a difference of two times.\<close>

definition millis :: "int \<Rightarrow> rat" where
  "millis ns = rnd64 (rnd64 (of_int ns) / 1000000)"

definition smooth :: "rat \<Rightarrow> rat \<Rightarrow> rat" where
  "smooth jitter delta =
     (let diff = \<bar>rnd64 (delta - 20)\<bar> in rnd64 (jitter + rnd64 (rnd64 (diff - jitter) / 16)))"

definition weak_push :: "weak_jitter \<Rightarrow> rtp_packet \<Rightarrow> int \<Rightarrow> weak_jitter" where
  "weak_push j pkt now =
     (let j' = (if wstarted j
                then j\<lparr>smoothed_jitter_ms := smooth (smoothed_jitter_ms j) (millis (now - last_arrival j))\<rparr>
                else j)
      in j'\<lparr>last_arrival := now, wstarted := True,
            wbuf := smap_emplace (RtpPacket_sequence pkt) pkt (wbuf j')\<rparr>)"

definition effective_delay :: "weak_jitter \<Rightarrow> int" where
  "effective_delay j = target_delay_ms j + trunc (rnd64 (smoothed_jitter_ms j * 2))"

definition weak_pop :: "weak_jitter \<Rightarrow> int \<Rightarrow> rtp_packet option \<times> weak_jitter" where
  "weak_pop j now =
     (case wbuf j of
        [] \<Rightarrow> (None, j)
      | (seq, pkt) # rest \<Rightarrow>
          if \<not> wstarted j then (None, j)
          else if millis (now - last_arrival j) \<ge> rnd64 (of_int (effective_delay j)) \<or> length (wbuf j) > 10 then
            (Some pkt, j\<lparr>wbuf := smap_erase seq (wbuf j)\<rparr>)
          else (None, j))"

text \<open>A program of pushes and pops with their times; the packets delivered and the buffer in the end.\<close>

datatype weak_op = WPush rtp_packet int | WPop int

fun weak_run :: "weak_jitter \<Rightarrow> weak_op list \<Rightarrow> rtp_packet list \<times> weak_jitter" where
  "weak_run j [] = ([], j)"
| "weak_run j (WPush p t # ops) = weak_run (weak_push j p t) ops"
| "weak_run j (WPop t # ops) =
     (let (r, j') = weak_pop j t; (del, j'') = weak_run j' ops in
      (case r of Some p \<Rightarrow> p # del | None \<Rightarrow> del, j''))"

section \<open>The invariant\<close>

text \<open>The map is ordered and every packet is stored under its own number; the smoothed jitter is a nonnegative
  double.\<close>

definition weak_ok :: "weak_jitter \<Rightarrow> bool" where
  "weak_ok j \<longleftrightarrow> smap_ok (wbuf j) \<and> (\<forall>(k, p) \<in> set (wbuf j). RtpPacket_sequence p = k) \<and>
     0 \<le> smoothed_jitter_ms j \<and> is_double (smoothed_jitter_ms j) \<and> (wstarted j \<or> wbuf j = [])"

lemma weak_ok_init: "weak_ok (weak_init target)"
  using is_double_int [of 0] by (simp add: weak_ok_def weak_init_def)

lemma smooth_ok: "0 \<le> jitter \<Longrightarrow> is_double jitter \<Longrightarrow> 0 \<le> smooth jitter delta \<and> is_double (smooth jitter delta)"
  unfolding smooth_def Let_def by (simp add: b64.average_nonneg b64.double)

lemma smap_emplace_set: "set (smap_emplace k v m) \<subseteq> insert (k, v) (set m)"
proof -
  have "set (smap_store k v m) \<subseteq> insert (k, v) (set m)" by (induction k v m rule: smap_store.induct) auto
  then show ?thesis by (auto simp: smap_emplace_def split: option.splits)
qed

lemma weak_push_fields [simp]:
  "wstarted (weak_push j p t)" "last_arrival (weak_push j p t) = t"
  "target_delay_ms (weak_push j p t) = target_delay_ms j"
  "wbuf (weak_push j p t) = smap_emplace (RtpPacket_sequence p) p (wbuf j)"
  "smoothed_jitter_ms (weak_push j p t) =
     (if wstarted j then smooth (smoothed_jitter_ms j) (millis (t - last_arrival j)) else smoothed_jitter_ms j)"
  by (simp_all add: weak_push_def Let_def)

lemma weak_ok_push:
  assumes "weak_ok j"
  shows "weak_ok (weak_push j p t)"
proof -
  have "RtpPacket_sequence q = k" if "(k, q) \<in> set (smap_emplace (RtpPacket_sequence p) p (wbuf j))" for k q
    using that assms smap_emplace_set [of "RtpPacket_sequence p" p "wbuf j"] by (auto simp: weak_ok_def)
  then have "\<forall>(k, q) \<in> set (wbuf (weak_push j p t)). RtpPacket_sequence q = k" by auto
  moreover have "0 \<le> smoothed_jitter_ms (weak_push j p t) \<and> is_double (smoothed_jitter_ms (weak_push j p t))"
    using assms by (simp add: weak_ok_def smooth_ok)
  ultimately show ?thesis using assms by (simp add: weak_ok_def smap_ok_emplace)
qed

lemma erase_first: "smap_ok ((k, v) # m) \<Longrightarrow> smap_erase k ((k, v) # m) = m"
  by (rule sm.entries_erase_first [OF _ refl])

text \<open>What a pop can do.\<close>

lemma weak_pop_cases:
  assumes "weak_ok j"
  obtains (none) "weak_pop j t = (None, j)" "length (wbuf j) \<le> 10"
  | (some) seq p rest where "wbuf j = (seq, p) # rest" "weak_pop j t = (Some p, j\<lparr>wbuf := rest\<rparr>)"
proof (cases "wbuf j")
  case Nil
  then show ?thesis by (intro none) (simp_all add: weak_pop_def)
next
  case (Cons e rest)
  obtain seq p where e: "e = (seq, p)" by force
  show ?thesis
  proof (cases "fst (weak_pop j t)")
    case None
    then show ?thesis using assms
      by (intro none) (auto simp: weak_pop_def weak_ok_def Cons e split: if_splits)
  next
    case (Some q)
    then show ?thesis using assms
      by (intro some) (auto simp: weak_pop_def weak_ok_def Cons e erase_first split: if_splits)
  qed
qed

lemma weak_ok_rest: "weak_ok j \<Longrightarrow> wbuf j = e # rest \<Longrightarrow> weak_ok (j\<lparr>wbuf := rest\<rparr>)"
  by (auto simp: weak_ok_def smap_ok_def)

section \<open>No packet is lost or made up\<close>

fun pushed :: "weak_op list \<Rightarrow> rtp_packet list" where
  "pushed [] = []"
| "pushed (WPush p t # ops) = p # pushed ops"
| "pushed (WPop t # ops) = pushed ops"

lemma mset_store:
  "k \<notin> fst ` set m \<Longrightarrow> image_mset snd (mset (smap_store k v m)) = add_mset v (image_mset snd (mset m))"
  by (induction k v m rule: smap_store.induct) auto

lemma emplace_new:
  assumes "smap_ok m" and "k \<notin> fst ` set m"
  shows "smap_emplace k v m = smap_store k v m"
  using assms by (auto simp: smap_emplace_def sm.key_iff_find split: option.splits)

lemma held_numbers: "weak_ok j \<Longrightarrow> fst ` set (wbuf j) = RtpPacket_sequence ` snd ` set (wbuf j)"
  by (force simp: weak_ok_def image_image)

lemma weak_run_mset:
  assumes "weak_ok j" and "distinct (map RtpPacket_sequence (pushed ops))"
    and "fst ` set (wbuf j) \<inter> RtpPacket_sequence ` set (pushed ops) = {}"
  shows "mset (fst (weak_run j ops)) + mset (map snd (wbuf (snd (weak_run j ops)))) =
    mset (map snd (wbuf j)) + mset (pushed ops)"
  using assms
proof (induction j ops rule: weak_run.induct)
  case (2 j p t ops)
  have new: "RtpPacket_sequence p \<notin> fst ` set (wbuf j)" using 2 by auto
  have ok: "smap_ok (wbuf j)" using 2 by (simp add: weak_ok_def)
  note store = emplace_new [OF ok new, of p]
  have "fst ` set (wbuf (weak_push j p t)) \<inter> RtpPacket_sequence ` set (pushed ops) = {}"
    using 2 by (auto simp: store keys_store)
  with 2 have "mset (fst (weak_run (weak_push j p t) ops)) +
      mset (map snd (wbuf (snd (weak_run (weak_push j p t) ops)))) =
      mset (map snd (wbuf (weak_push j p t))) + mset (pushed ops)"
    by (simp add: weak_ok_push)
  then show ?case by (simp add: store mset_store [OF new])
next
  case (3 j t ops)
  show ?case
    using 3(2)
  proof (cases rule: weak_pop_cases [of j t])
    case none
    then show ?thesis using 3 by (simp add: case_prod_beta)
  next
    case (some seq p rest)
    then show ?thesis using 3 weak_ok_rest [of j "(seq, p)" rest]
      by (simp add: case_prod_beta)
  qed
qed simp

section \<open>Rounds of one push and one pop\<close>

fun weak_rounds :: "weak_jitter \<Rightarrow> (rtp_packet \<times> int \<times> int) list \<Rightarrow> rtp_packet option list \<times> weak_jitter" where
  "weak_rounds j [] = ([], j)"
| "weak_rounds j ((p, t, t') # rounds) =
     (let (r, j') = weak_pop (weak_push j p t) t'; (rs, j'') = weak_rounds j' rounds in (r # rs, j''))"

text \<open>Every pop comes at least a millisecond before the target delay after the push is over.\<close>

definition prompt :: "int \<Rightarrow> (rtp_packet \<times> int \<times> int) list \<Rightarrow> bool" where
  "prompt target rounds \<longleftrightarrow> 1 \<le> target \<and> target \<le> 2 ^ 31 \<and>
     (\<forall>(p, t, t') \<in> set rounds. t' - t \<le> (target - 1) * 1000000)"

lemma millis_early:
  assumes "ns \<le> (target - 1) * 1000000" and "1 \<le> target" "target \<le> 2 ^ 31"
  shows "millis ns < of_int target"
proof -
  have "millis ns \<le> millis ((target - 1) * 1000000)"
    unfolding millis_def using assms(1) by (intro b64.mono divide_right_mono) (simp only: of_int_le_iff, simp)
  also have "rnd64 (of_int ((target - 1) * 1000000)) = of_int ((target - 1) * 1000000)"
    using assms by (intro b64.int_exact) simp
  then have "millis ((target - 1) * 1000000) = rnd64 (of_int (target - 1))"
    by (simp add: millis_def diff_divide_distrib)
  also have "\<dots> = of_int (target - 1)" using assms by (intro b64.int_exact) simp
  finally show ?thesis by simp
qed

lemma effective_ge:
  assumes "weak_ok j" and "1 \<le> target_delay_ms j" "target_delay_ms j \<le> 2 ^ 31"
  shows "of_int (target_delay_ms j) \<le> rnd64 (of_int (effective_delay j))"
proof -
  have "0 \<le> trunc (rnd64 (smoothed_jitter_ms j * 2))"
    using assms(1) by (intro trunc_nonneg b64.nonneg) (simp add: weak_ok_def)
  then show ?thesis using assms by (intro b64.ge_double is_double_int) (simp_all add: effective_delay_def)
qed

lemma round_buffer:
  assumes "weak_ok j" and "t' - t \<le> (target_delay_ms j - 1) * 1000000"
    and "1 \<le> target_delay_ms j" "target_delay_ms j \<le> 2 ^ 31"
    and m: "smap_emplace (RtpPacket_sequence p) p (wbuf j) = m"
  shows "fst (weak_pop (weak_push j p t) t') = (if length m > 10 then Some (snd (hd m)) else None)"
    and "wbuf (snd (weak_pop (weak_push j p t) t')) = (if length m > 10 then tl m else m)"
proof -
  let ?j = "weak_push j p t"
  have ok: "weak_ok ?j" using assms(1) by (rule weak_ok_push)
  have "millis (t' - t) < rnd64 (of_int (effective_delay ?j))"
    using millis_early [OF assms(2-4)] effective_ge [OF ok] assms(3,4) by simp
  then show "fst (weak_pop ?j t') = (if length m > 10 then Some (snd (hd m)) else None)"
    and "wbuf (snd (weak_pop ?j t')) = (if length m > 10 then tl m else m)"
    using ok by (auto simp: weak_pop_def m weak_ok_def erase_first split: list.splits)
qed

text \<open>What the buffer holds: the packets in the given order, each under its number.\<close>

definition entries_of :: "rtp_packet list \<Rightarrow> (u16, rtp_packet) smap" where
  "entries_of ps = map (\<lambda>p. (RtpPacket_sequence p, p)) ps"

definition ascending :: "rtp_packet list \<Rightarrow> bool" where
  "ascending ps \<longleftrightarrow> sorted_wrt (<) (map RtpPacket_sequence ps)"

lemma store_last: "(\<And>k'. k' \<in> fst ` set m \<Longrightarrow> k' < k) \<Longrightarrow> smap_store k v m = m @ [(k, v)]"
proof (induction k v m rule: smap_store.induct)
  case (2 k v k' v' m)
  from 2(2) [of k'] have "\<not> k < k'" "k \<noteq> k'" by auto
  moreover from this have "smap_store k v m = m @ [(k, v)]" using 2(2) by (intro 2(1)) auto
  ultimately show ?case by simp
qed simp

lemma store_first: "(\<And>k'. k' \<in> fst ` set m \<Longrightarrow> k < k') \<Longrightarrow> smap_store k v m = (k, v) # m"
  by (cases m) auto

lemma smap_ok_entries: "ascending ps \<Longrightarrow> smap_ok (entries_of ps)"
  by (simp add: ascending_def smap_ok_def entries_of_def comp_def)

lemma emplace_last:
  assumes "ascending (ps @ [p])"
  shows "smap_emplace (RtpPacket_sequence p) p (entries_of ps) = entries_of (ps @ [p])"
proof -
  have lt: "k' < RtpPacket_sequence p" if "k' \<in> fst ` set (entries_of ps)" for k'
    using that assms by (auto simp: entries_of_def ascending_def sorted_wrt_append)
  have "smap_ok (entries_of ps)" using assms by (intro smap_ok_entries) (simp add: ascending_def sorted_wrt_append)
  then have "smap_emplace (RtpPacket_sequence p) p (entries_of ps) =
      smap_store (RtpPacket_sequence p) p (entries_of ps)"
    using lt by (intro emplace_new) auto
  also have "\<dots> = entries_of (ps @ [p])" by (subst store_last [OF lt]) (simp_all add: entries_of_def)
  finally show ?thesis .
qed

lemma emplace_first:
  assumes "ascending ps" and "\<forall>q \<in> set ps. RtpPacket_sequence p < RtpPacket_sequence q"
  shows "smap_emplace (RtpPacket_sequence p) p (entries_of ps) = entries_of (p # ps)"
proof -
  have lt: "RtpPacket_sequence p < k'" if "k' \<in> fst ` set (entries_of ps)" for k'
    using that assms by (auto simp: entries_of_def)
  then have "smap_emplace (RtpPacket_sequence p) p (entries_of ps) =
      smap_store (RtpPacket_sequence p) p (entries_of ps)"
    using smap_ok_entries [OF assms(1)] by (intro emplace_new) auto
  also have "\<dots> = entries_of (p # ps)" by (subst store_first [OF lt]) (simp_all add: entries_of_def)
  finally show ?thesis .
qed

lemma weak_ok_round: "weak_ok j \<Longrightarrow> weak_ok (snd (weak_pop (weak_push j p t) t'))"
  by (rule weak_pop_cases [OF weak_ok_push [of j p t], of t']) (auto simp: weak_ok_push intro: weak_ok_rest)

lemma target_round [simp]: "target_delay_ms (snd (weak_pop j t)) = target_delay_ms j"
  by (auto simp: weak_pop_def split: list.splits)

text \<open>A steady stream in ascending order: nothing for ten packets, then each packet ten packets late.\<close>

lemma rounds_ascending:
  assumes "weak_ok j" "wbuf j = entries_of held" "length held \<le> 10"
    and "ascending (held @ map fst rounds)" and "prompt (target_delay_ms j) rounds"
  shows "fst (weak_rounds j rounds) = replicate (min (length rounds) (10 - length held)) None @
      map Some (take (length held + length rounds - 10) (held @ map fst rounds)) \<and>
    wbuf (snd (weak_rounds j rounds)) =
      entries_of (drop (length held + length rounds - 10) (held @ map fst rounds)) \<and>
    weak_ok (snd (weak_rounds j rounds)) \<and> target_delay_ms (snd (weak_rounds j rounds)) = target_delay_ms j"
  using assms
proof (induction j rounds arbitrary: held rule: weak_rounds.induct)
  case (1 j)
  then show ?case by simp
next
  case (2 j p t t' rounds)
  let ?j = "snd (weak_pop (weak_push j p t) t')"
  have m: "smap_emplace (RtpPacket_sequence p) p (wbuf j) = entries_of (held @ [p])"
    using 2(3,5) by (simp add: emplace_last ascending_def sorted_wrt_append)
  have "t' - t \<le> (target_delay_ms j - 1) * 1000000" "1 \<le> target_delay_ms j" "target_delay_ms j \<le> 2 ^ 31"
    using 2(6) by (auto simp: prompt_def)
  note round = round_buffer [OF 2(2) this m]
  have ok: "weak_ok ?j" using 2(2) by (rule weak_ok_round)
  have pr: "prompt (target_delay_ms ?j) rounds" using 2(6) by (simp add: prompt_def)
  have IH: "ascending (held' @ map fst rounds) \<Longrightarrow> length held' \<le> 10 \<Longrightarrow> wbuf ?j = entries_of held' \<Longrightarrow>
      fst (weak_rounds ?j rounds) = replicate (min (length rounds) (10 - length held')) None @
        map Some (take (length held' + length rounds - 10) (held' @ map fst rounds)) \<and>
      wbuf (snd (weak_rounds ?j rounds)) =
        entries_of (drop (length held' + length rounds - 10) (held' @ map fst rounds)) \<and>
      weak_ok (snd (weak_rounds ?j rounds)) \<and> target_delay_ms (snd (weak_rounds ?j rounds)) = target_delay_ms ?j" for held'
    using 2(1) [OF refl prod.collapse ok _ _ _ pr] by blast
  show ?case
  proof (cases "length held = 10")
    case True
    then obtain q held' where held: "held = q # held'" by (cases held) auto
    have "wbuf ?j = entries_of (held' @ [p])" using round(2) True by (simp add: held entries_of_def)
    with IH [of "held' @ [p]"] 2(5) True round(1) show ?thesis
      by (simp add: held case_prod_beta entries_of_def ascending_def)
  next
    case False
    have "wbuf ?j = entries_of (held @ [p])" using round(2) False 2(4) by (simp add: entries_of_def)
    moreover have "10 - length held = Suc (10 - length (held @ [p]))" using 2(4) False by simp
    then have "min (length ((p, t, t') # rounds)) (10 - length held) =
        Suc (min (length rounds) (10 - length (held @ [p])))" by simp
    moreover have "length held + length ((p, t, t') # rounds) = length (held @ [p]) + length rounds"
      "held @ map fst ((p, t, t') # rounds) = (held @ [p]) @ map fst rounds"
      "length (held @ [p]) \<le> 10" "\<not> 10 < length (entries_of (held @ [p]))"
      using 2(4) False by (simp_all add: entries_of_def)
    ultimately show ?thesis using IH [of "held @ [p]"] 2(5) round(1)
      by (simp only: weak_rounds.simps Let_def case_prod_beta fst_conv snd_conv replicate_Suc append_Cons
        if_False target_round) simp
  qed
qed

text \<open>Packets with numbers below everything that is held pass straight through.\<close>

lemma rounds_low:
  assumes "weak_ok j" "wbuf j = entries_of held" "length held = 10" "ascending held"
    and "\<forall>p \<in> set (map fst rounds). \<forall>q \<in> set held. RtpPacket_sequence p < RtpPacket_sequence q"
    and "prompt (target_delay_ms j) rounds"
  shows "fst (weak_rounds j rounds) = map Some (map fst rounds) \<and>
    wbuf (snd (weak_rounds j rounds)) = entries_of held"
  using assms
proof (induction j rounds rule: weak_rounds.induct)
  case (2 j p t t' rounds)
  let ?j = "snd (weak_pop (weak_push j p t) t')"
  have m: "smap_emplace (RtpPacket_sequence p) p (wbuf j) = entries_of (p # held)"
    using 2(3,5,6) by (simp add: emplace_first)
  have "t' - t \<le> (target_delay_ms j - 1) * 1000000" "1 \<le> target_delay_ms j" "target_delay_ms j \<le> 2 ^ 31"
    using 2(7) by (auto simp: prompt_def)
  note round = round_buffer [OF 2(2) this m]
  have "prompt (target_delay_ms ?j) rounds" using 2(7) by (simp add: prompt_def)
  moreover have "wbuf ?j = entries_of held" using round(2) 2(4) by (simp add: entries_of_def)
  ultimately have "fst (weak_rounds ?j rounds) = map Some (map fst rounds) \<and>
      wbuf (snd (weak_rounds ?j rounds)) = entries_of held"
    using 2(4-6) by (intro 2(1) [OF refl prod.collapse weak_ok_round [OF 2(2)]]) auto
  then show ?case using round(1) 2(4) by (simp add: case_prod_beta entries_of_def)
qed simp

lemma weak_rounds_append:
  "fst (weak_rounds j (xs @ ys)) = fst (weak_rounds j xs) @ fst (weak_rounds (snd (weak_rounds j xs)) ys)"
  "snd (weak_rounds j (xs @ ys)) = snd (weak_rounds (snd (weak_rounds j xs)) ys)"
  by (induction xs arbitrary: j) (auto simp: case_prod_beta)

lemma weak_init_fields [simp]:
  "wbuf (weak_init target) = entries_of []" "target_delay_ms (weak_init target) = target"
  by (simp_all add: weak_init_def entries_of_def)

section \<open>The properties\<close>

text \<open>C32. In any program of pushes and pops, at any times, of packets with different numbers each packet is
  handed out once or still held, and nothing else is handed out.\<close>

theorem weak_conserves:
  assumes "distinct (map RtpPacket_sequence (pushed ops))"
  shows "mset (fst (weak_run (weak_init target) ops)) +
    mset (map snd (wbuf (snd (weak_run (weak_init target) ops)))) = mset (pushed ops)"
  using weak_run_mset [OF weak_ok_init assms] by (simp add: entries_of_def)

text \<open>The delay is not the target delay.  While packets arrive in ascending order and every pop comes less
  than the target delay after the arrival before it, the buffer hands out nothing for ten packets and then each
  packet exactly ten packets late, whatever the target and the jitter are.\<close>

theorem weak_steady_stream:
  assumes "ascending (map fst rounds)" and "1 \<le> target" "target \<le> 2 ^ 31"
    and "\<forall>(p, t, t') \<in> set rounds. t' - t \<le> (target - 1) * 1000000"
  shows "fst (weak_rounds (weak_init target) rounds) =
    replicate (min (length rounds) 10) None @ map Some (take (length rounds - 10) (map fst rounds))"
  using rounds_ascending [OF weak_ok_init, of target "[]" rounds] assms by (simp add: prompt_def)

text \<open>The order of the numbers is not taken around the wrap.  When ten packets with high numbers are held
  and the following ones have low numbers, as they do after \<open>65535\<close>, every new packet is handed out at once,
  before the ten older ones, which stay in the buffer.\<close>

theorem weak_wrap_starves:
  assumes "ascending (map fst high)" "length high = 10" and "1 \<le> target" "target \<le> 2 ^ 31"
    and "\<forall>(p, t, t') \<in> set (high @ low). t' - t \<le> (target - 1) * 1000000"
    and "\<forall>p \<in> set (map fst low). \<forall>q \<in> set (map fst high). RtpPacket_sequence p < RtpPacket_sequence q"
  shows "fst (weak_rounds (weak_init target) (high @ low)) = replicate 10 None @ map Some (map fst low) \<and>
    map snd (wbuf (snd (weak_rounds (weak_init target) (high @ low)))) = map fst high"
proof -
  let ?j = "snd (weak_rounds (weak_init target) high)"
  have "prompt target high" "prompt target low" using assms(3-5) by (auto simp: prompt_def)
  moreover from this have "fst (weak_rounds (weak_init target) high) = replicate 10 None \<and>
      wbuf ?j = entries_of (map fst high) \<and> weak_ok ?j \<and> target_delay_ms ?j = target"
    using rounds_ascending [OF weak_ok_init, of target "[]" high] assms(1,2) by simp
  ultimately show ?thesis
    using rounds_low [of ?j "map fst high" low] assms
    by (simp add: weak_rounds_append entries_of_def comp_def)
qed

text \<open>A packet with the given number, and rounds of 20 ms over such packets.\<close>

definition numbered_packet :: "u16 \<Rightarrow> rtp_packet" where
  "numbered_packet q = RtpPacket_build 96 q 0 1 (Some []) 0 False RtpPacket_default"

definition example_rounds :: "u16 list \<Rightarrow> (rtp_packet \<times> int \<times> int) list" where
  "example_rounds qs = map (\<lambda>(i, q). (numbered_packet q, 20000000 * int i, 20000000 * int i + 5000000)) (enumerate 0 qs)"

lemma sequence_numbered [simp]: "RtpPacket_sequence (numbered_packet q) = q"
  by (simp add: numbered_packet_def build_buf built_accessors [where d = "[]", simplified])

lemma weak_conserves_witness:
  "mset (fst (weak_run (weak_init 100) [WPush (numbered_packet 7) 0, WPush (numbered_packet 6) 20000000, WPop 300000000])) +
   mset (map snd (wbuf (snd (weak_run (weak_init 100)
     [WPush (numbered_packet 7) 0, WPush (numbered_packet 6) 20000000, WPop 300000000])))) =
   {#numbered_packet 7, numbered_packet 6#}"
  using weak_conserves [of "[WPush (numbered_packet 7) 0, WPush (numbered_packet 6) 20000000, WPop 300000000]" 100]
  by simp

lemma weak_steady_stream_witness:
  "fst (weak_rounds (weak_init 100) (example_rounds [1, 2, 3, 4, 5, 6, 7, 8, 9, 10, 11, 12])) =
   [None, None, None, None, None, None, None, None, None, None, Some (numbered_packet 1), Some (numbered_packet 2)]"
  using weak_steady_stream [of "example_rounds [1, 2, 3, 4, 5, 6, 7, 8, 9, 10, 11, 12]" 100]
  by (simp add: example_rounds_def ascending_def del: weak_rounds.simps)

lemma weak_wrap_starves_witness:
  "fst (weak_rounds (weak_init 100) (example_rounds
     ([65526, 65527, 65528, 65529, 65530, 65531, 65532, 65533, 65534, 65535] @ [0, 1]))) =
   replicate 10 None @ [Some (numbered_packet 0), Some (numbered_packet 1)]"
  using weak_wrap_starves [of "example_rounds [65526, 65527, 65528, 65529, 65530, 65531, 65532, 65533, 65534, 65535]"
      100 "[(numbered_packet 0, 200000000, 205000000), (numbered_packet 1, 220000000, 225000000)]"]
  by (simp add: example_rounds_def ascending_def del: weak_rounds.simps)

end
