(* ===== verification/AudioCapture.thy ===== *)
theory AudioCapture
  imports Prelude
begin

text \<open>
  \<open>AudioCapturerFile\<close> (\<open>module06_audio/src/audio_capturer.cpp\<close>): a thread that reads a file of raw 16-bit samples in
  frames of 20 ms, from the beginning again at its end, and hands each frame to the callback.  Section one is the
  reading of the file with what \<open>std::ifstream\<close> does at its end, section two the loop of the thread, section three
  its start and stop.  The bytes of a sample lie in memory in the order of the x86 targets, low byte first.
\<close>

section \<open>The file\<close>

record ifstream =
  content :: bytes
  fpos :: nat
  fgood :: bool

text \<open>\<open>read\<close> and \<open>gcount\<close>: a stream that is not good delivers nothing; a short read takes what is left and leaves
  the stream not good.\<close>

definition ifs_read :: "nat \<Rightarrow> ifstream \<Rightarrow> bytes \<times> ifstream" where
  "ifs_read n f =
     (if \<not> fgood f then ([], f)
      else let got = take n (drop (fpos f) (content f))
           in (got, f\<lparr>fpos := fpos f + length got, fgood := length got = n\<rparr>))"

text \<open>\<open>clear\<close> and \<open>seekg(0)\<close>.\<close>

definition ifs_rewind :: "ifstream \<Rightarrow> ifstream" where
  "ifs_rewind f = f\<lparr>fgood := True, fpos := 0\<rparr>"

definition ifs_open :: "bytes \<Rightarrow> ifstream" where
  "ifs_open bs = \<lparr>content = bs, fpos = 0, fgood = True\<rparr>"

section \<open>The loop of the thread\<close>

record pcm_frame =
  samples :: "16 word list"
  timestamp_ms :: u32

definition FRAME_SAMPLES :: nat where
  "FRAME_SAMPLES = 960"

text \<open>The bytes of a vector of samples as \<open>file.read\<close> fills them; a byte that does not complete a sample is
  not looked at.\<close>

fun samples_of :: "bytes \<Rightarrow> 16 word list" where
  "samples_of (lo # hi # bs) = (push_bit 8 (ucast hi) OR ucast lo) # samples_of bs"
| "samples_of bs = []"

text \<open>One round: read, rewind and read again at the end of the file, cut to the whole samples and fill up with
  zeros.  Without a file the frame is silent.\<close>

definition capture_frame :: "u32 \<Rightarrow> ifstream option \<Rightarrow> pcm_frame \<times> ifstream option" where
  "capture_frame ts_ms file =
     (case file of
        None \<Rightarrow> (\<lparr>samples = replicate FRAME_SAMPLES 0, timestamp_ms = ts_ms\<rparr>, None)
      | Some f \<Rightarrow>
          let (got, f) = ifs_read (FRAME_SAMPLES * 2) f;
              (got, f) = (if length got = 0 then ifs_read (FRAME_SAMPLES * 2) (ifs_rewind f) else (got, f))
          in (\<lparr>samples = resize FRAME_SAMPLES 0 (resize (length got div 2) 0 (samples_of got)), timestamp_ms = ts_ms\<rparr>,
              Some f))"

text \<open>The frames of the first \<open>n\<close> rounds.\<close>

fun capture_loop :: "nat \<Rightarrow> u32 \<Rightarrow> ifstream option \<Rightarrow> pcm_frame list" where
  "capture_loop 0 ts_ms file = []"
| "capture_loop (Suc n) ts_ms file =
     (let (frame, file) = capture_frame ts_ms file in frame # capture_loop n (ts_ms + 20) file)"

section \<open>Start and stop\<close>

text \<open>\<open>std::thread\<close> terminates the program when a thread is assigned to an object whose thread was not joined, and
  when such an object is destroyed.\<close>

datatype outcome = Fine | Terminated

record capturer =
  running :: bool
  joinable :: bool

definition capturer_new :: capturer where
  "capturer_new = \<lparr>running = False, joinable = False\<rparr>"

definition capturer_start :: "capturer \<Rightarrow> outcome \<times> capturer" where
  "capturer_start c =
     (let c = c\<lparr>running := True\<rparr> in if joinable c then (Terminated, c) else (Fine, c\<lparr>joinable := True\<rparr>))"

definition capturer_stop :: "capturer \<Rightarrow> capturer" where
  "capturer_stop c = (let c = c\<lparr>running := False\<rparr> in if joinable c then c\<lparr>joinable := False\<rparr> else c)"

datatype capturer_op = Start | Stop

fun capturer_run :: "capturer_op list \<Rightarrow> capturer \<Rightarrow> outcome \<times> capturer" where
  "capturer_run [] c = (Fine, c)"
| "capturer_run (Start # ops) c =
     (case capturer_start c of (Terminated, c) \<Rightarrow> (Terminated, c) | (Fine, c) \<Rightarrow> capturer_run ops c)"
| "capturer_run (Stop # ops) c = capturer_run ops (capturer_stop c)"

section \<open>Reading in blocks\<close>

text \<open>The \<open>j\<close>-th block of the file and the frame made of it.\<close>

definition block :: "bytes \<Rightarrow> nat \<Rightarrow> bytes" where
  "block bs j = take 1920 (drop (1920 * j) bs)"

definition block_count :: "bytes \<Rightarrow> nat" where
  "block_count bs = (length bs + 1919) div 1920"

definition block_samples :: "bytes \<Rightarrow> 16 word list" where
  "block_samples bs = samples_of bs @ replicate (960 - length bs div 2) 0"

lemma length_samples_of: "length (samples_of bs) = length bs div 2"
  by (induction bs rule: samples_of.induct) auto

lemma length_block_samples: "length bs \<le> 1920 \<Longrightarrow> length (block_samples bs) = 960"
  by (simp add: block_samples_def length_samples_of)

lemma frame_samples:
  assumes "length got \<le> 1920"
  shows "resize 960 0 (resize (length got div 2) 0 (samples_of got)) = block_samples got"
  using assms by (simp add: resize_def block_samples_def length_samples_of)

text \<open>The stream after \<open>j\<close> blocks since the last rewind.\<close>

definition after_blocks :: "bytes \<Rightarrow> nat \<Rightarrow> ifstream" where
  "after_blocks bs j = \<lparr>content = bs, fpos = min (length bs) (1920 * j), fgood = (1920 * j \<le> length bs)\<rparr>"

lemma read_block:
  assumes "1920 * j < length bs"
  shows "ifs_read 1920 (after_blocks bs j) = (block bs j, after_blocks bs (Suc j))" and "block bs j \<noteq> []"
  using assms by (auto simp: ifs_read_def after_blocks_def block_def Let_def min_def)

lemma read_end:
  assumes "length bs \<le> 1920 * j"
  shows "fst (ifs_read 1920 (after_blocks bs j)) = []"
    and "ifs_rewind (snd (ifs_read 1920 (after_blocks bs j))) = after_blocks bs 0"
  using assms by (auto simp: ifs_read_def after_blocks_def ifs_rewind_def Let_def)

lemma block_count_less: "bs \<noteq> [] \<Longrightarrow> j < block_count bs \<longleftrightarrow> 1920 * j < length bs"
  unfolding block_count_def by (cases bs) (auto simp: less_eq_div_iff_mult_less_eq)

text \<open>Whatever block the stream stands at, the frame is made of that block, the first one behind the last.\<close>

lemma capture_block:
  assumes "bs \<noteq> []" and "j \<le> block_count bs"
  shows "\<exists>j' \<le> block_count bs. j' mod block_count bs = Suc j mod block_count bs \<and>
    capture_frame ts (Some (after_blocks bs j)) =
      (\<lparr>samples = block_samples (block bs (j mod block_count bs)), timestamp_ms = ts\<rparr>,
       Some (after_blocks bs j'))"
proof -
  have len: "length (block bs i) \<le> 1920" for i by (simp add: block_def)
  have pos: "0 < block_count bs" using block_count_less [OF assms(1), of 0] assms(1) by simp
  show ?thesis
  proof (cases "j < block_count bs")
    case True
    then have "1920 * j < length bs" by (simp add: block_count_less assms(1))
    from read_block [OF this] True frame_samples [OF len [of j]] show ?thesis
      by (intro exI [of _ "Suc j"]) (simp add: capture_frame_def FRAME_SAMPLES_def)
  next
    case False
    then have j: "j = block_count bs" and "length bs \<le> 1920 * j"
      using assms block_count_less [OF assms(1), of j] by auto
    have "1920 * 0 < length bs" using assms(1) by simp
    moreover have "Suc (block_count bs) mod block_count bs = 1 mod block_count bs"
      using mod_add_self2 [of 1 "block_count bs"] by simp
    ultimately show ?thesis using read_block [of 0 bs] read_end [OF \<open>length bs \<le> 1920 * j\<close>] frame_samples [OF len [of 0]] pos
      by (intro exI [of _ 1]) (simp add: capture_frame_def FRAME_SAMPLES_def j case_prod_beta Suc_le_eq)
  qed
qed

lemma capture_blocks:
  assumes "bs \<noteq> []" and "j \<le> block_count bs"
  shows "capture_loop n ts (Some (after_blocks bs j)) =
    map (\<lambda>i. \<lparr>samples = block_samples (block bs ((j + i) mod block_count bs)),
             timestamp_ms = ts + 20 * of_nat i\<rparr>) [0..<n]"
  using assms(2)
proof (induction n arbitrary: j ts)
  case (Suc n)
  from capture_block [OF assms(1) Suc.prems, of ts] obtain j' where j': "j' \<le> block_count bs"
    "j' mod block_count bs = Suc j mod block_count bs"
    and frame: "capture_frame ts (Some (after_blocks bs j)) =
      (\<lparr>samples = block_samples (block bs (j mod block_count bs)), timestamp_ms = ts\<rparr>, Some (after_blocks bs j'))"
    by auto
  have "(j' + i) mod block_count bs = (j + Suc i) mod block_count bs" for i
    using j'(2) by (metis add_Suc_shift mod_add_left_eq)
  with Suc.IH [OF j'(1), of "ts + 20"] frame show ?case
    by (simp add: upt_conv_Cons map_Suc_upt [symmetric] comp_def algebra_simps del: upt_Suc)
qed simp

lemma capture_silence:
  "capture_loop n ts None = map (\<lambda>i. \<lparr>samples = replicate 960 0, timestamp_ms = ts + 20 * of_nat i\<rparr>) [0..<n]"
  by (induction n arbitrary: ts)
     (simp_all add: capture_frame_def FRAME_SAMPLES_def upt_conv_Cons map_Suc_upt [symmetric] comp_def
       algebra_simps del: upt_Suc)

lemma capture_empty:
  "capture_loop n ts (Some (ifs_open [])) =
    map (\<lambda>i. \<lparr>samples = replicate 960 0, timestamp_ms = ts + 20 * of_nat i\<rparr>) [0..<n]"
proof -
  have "capture_loop n ts (Some \<lparr>content = [], fpos = 0, fgood = g\<rparr>) = capture_loop n ts None" for g
    by (induction n arbitrary: ts g)
       (simp_all add: capture_frame_def ifs_read_def ifs_rewind_def FRAME_SAMPLES_def resize_def Let_def)
  then show ?thesis by (simp add: ifs_open_def capture_silence)
qed

section \<open>The properties\<close>

text \<open>C38. The file is played in a loop.  The \<open>i\<close>-th frame has 960 samples and the time \<open>20 * i\<close> modulo \<open>2 ^ 32\<close>; its
  samples are those of the block \<open>i\<close> of the file, counted around, the last block filled up with zeros, and
  silence when there is no file or it is empty.\<close>

theorem audio_frames:
  "capture_loop n 0 (map_option ifs_open f) =
    map (\<lambda>i. \<lparr>samples =
               (case f of
                  None \<Rightarrow> replicate 960 0
                | Some bs \<Rightarrow> if bs = [] then replicate 960 0
                             else block_samples (block bs (i mod ((length bs + 1919) div 1920)))),
             timestamp_ms = of_nat (20 * i)\<rparr>) [0..<n] \<and>
   (\<forall>frame \<in> set (capture_loop n 0 (map_option ifs_open f)). length (samples frame) = 960)"
proof -
  have eq: "capture_loop n 0 (map_option ifs_open f) =
    map (\<lambda>i. \<lparr>samples =
               (case f of
                  None \<Rightarrow> replicate 960 0
                | Some bs \<Rightarrow> if bs = [] then replicate 960 0
                             else block_samples (block bs (i mod ((length bs + 1919) div 1920)))),
             timestamp_ms = of_nat (20 * i)\<rparr>) [0..<n]"
  proof (cases f)
    case (Some bs)
    show ?thesis
    proof (cases "bs = []")
      case True
      then show ?thesis using capture_empty by (simp add: Some)
    next
      case False
      have "ifs_open bs = after_blocks bs 0" by (simp add: ifs_open_def after_blocks_def)
      then show ?thesis using False capture_blocks [of bs 0 n 0] by (simp add: Some block_count_def)
    qed
  qed (simp add: capture_silence)
  have "length (block_samples (block bs i)) = 960" for bs i
    by (rule length_block_samples) (simp add: block_def)
  then show ?thesis unfolding eq by (auto split: option.splits)
qed

lemma audio_frames_witness:
  "capture_loop 2 0 (Some (ifs_open [0x34, 0x12, 0x56])) =
     [\<lparr>samples = 0x1234 # replicate 959 0, timestamp_ms = 0\<rparr>, \<lparr>samples = 0x1234 # replicate 959 0, timestamp_ms = 20\<rparr>]"
proof -
  have "[0..<2] = [0, 1 :: nat]" by (simp add: upt_rec)
  moreover have "block_samples (block [0x34, 0x12, 0x56] 0) = 0x1234 # replicate 959 0"
    by (simp add: block_def block_samples_def)
  ultimately show ?thesis using audio_frames [of 2 "Some [0x34, 0x12, 0x56]"] by simp
qed

text \<open>Start is not guarded: starting twice without a stop between terminates the program, as
  \<open>std::thread\<close> does when it is assigned over a running thread; any other sequence of starts and stops is
  fine.\<close>

theorem capturer_double_start:
  "fst (capturer_run ops capturer_new) = Terminated \<longleftrightarrow> (\<exists>pre post. ops = pre @ [Start, Start] @ post)"
proof -
  have "fst (capturer_run ops \<lparr>running = j, joinable = j\<rparr>) = Terminated \<longleftrightarrow>
    (\<exists>pre post. (if j then Start # ops else ops) = pre @ [Start, Start] @ post)" for j
  proof (induction ops arbitrary: j)
    case Nil
    show ?case by (auto simp: Cons_eq_append_conv)
  next
    case (Cons x ops)
    show ?case
    proof (cases x)
      case Start
      show ?thesis
      proof (cases j)
        case True
        then show ?thesis unfolding Start
          by (auto simp: capturer_start_def Let_def intro: exI [of _ "[]"])
      next
        case False
        with Cons.IH [of True] show ?thesis unfolding Start
          by (simp add: capturer_start_def Let_def)
      qed
    next
      case Stop
      have "(\<exists>pre post. (if j then Start # Stop # ops else Stop # ops) = pre @ [Start, Start] @ post) \<longleftrightarrow>
        (\<exists>pre post. ops = pre @ [Start, Start] @ post)"
        by (auto simp: Cons_eq_append_conv intro: exI [of _ "Stop # _"])
      with Cons.IH [of False] show ?thesis unfolding Stop
        by (cases j) (simp_all add: capturer_stop_def)
    qed
  qed
  from this [of False] show ?thesis by (simp add: capturer_new_def)
qed

end
