(* ===== verification/MediaCodecs.thy ===== *)
theory MediaCodecs
  imports Prelude "HOL-Library.Multiset"
begin

text \<open>
  The wrappers of the codec libraries: \<open>OpusEncoder\<close> and \<open>OpusDecoder\<close> (\<open>module06_audio/src/opus_codec.cpp\<close>) and
  \<open>H264Encoder\<close> (\<open>module07_video/src/h264_encoder.cpp\<close>).  The libraries are arguments: what a call answers, the
  bytes an encoder writes.  What the wrappers themselves decide is modelled: which handles and pictures they open,
  keep, overwrite and close (the list of events an operation returns), what they copy and how much, and what they
  return.
\<close>

section \<open>Opus\<close>

datatype 'h handle_event = Opened 'h | Closed 'h

type_synonym 'h opus_codec = "'h option"

text \<open>The answers of the library to one \<open>init\<close>: the handle and whether the error code is \<open>OPUS_OK\<close>, and whether
  setting the bit rate succeeded.\<close>

record 'h opus_answer =
  created :: "'h option"
  err_ok :: bool
  ctl_ok :: bool

definition opus_encoder_init :: "'h opus_answer \<Rightarrow> 'h opus_codec \<Rightarrow> bool \<times> 'h opus_codec \<times> 'h handle_event list" where
  "opus_encoder_init a enc =
     (let opened = (case created a of None \<Rightarrow> [] | Some h \<Rightarrow> [Opened h]) in
      case created a of
        None \<Rightarrow> (False, None, opened)
      | Some h \<Rightarrow>
          if \<not> err_ok a then (False, Some h, opened)
          else if \<not> ctl_ok a then (False, None, opened @ [Closed h])
          else (True, Some h, opened))"

definition opus_destroy :: "'h opus_codec \<Rightarrow> 'h handle_event list" where
  "opus_destroy enc = (case enc of None \<Rightarrow> [] | Some h \<Rightarrow> [Closed h])"

definition MAX_PKT_SIZE :: nat where
  "MAX_PKT_SIZE = 4000"

definition FRAME_SIZE :: nat where
  "FRAME_SIZE = 960"

text \<open>\<open>lib h pcm frame_size n\<close> is the number \<open>opus_encode\<close> returns and the content it leaves in a buffer of \<open>n\<close>
  bytes.\<close>

definition opus_encode ::
  "('h \<Rightarrow> 16 word list \<Rightarrow> int \<Rightarrow> nat \<Rightarrow> int \<times> bytes) \<Rightarrow> 'h opus_codec \<Rightarrow> 16 word list \<Rightarrow> int \<Rightarrow> bytes" where
  "opus_encode lib enc pcm frame_size =
     (case enc of
        None \<Rightarrow> []
      | Some h \<Rightarrow>
          let (n, out) = lib h pcm frame_size MAX_PKT_SIZE
          in if n < 0 then [] else resize (nat n) 0 out)"

definition opus_decoder_init :: "'h opus_answer \<Rightarrow> 'h opus_codec \<Rightarrow> bool \<times> 'h opus_codec \<times> 'h handle_event list" where
  "opus_decoder_init a dec =
     (err_ok a \<and> created a \<noteq> None, created a, case created a of None \<Rightarrow> [] | Some h \<Rightarrow> [Opened h])"

text \<open>The length is handed over as a 32-bit integer.\<close>

definition opus_decode ::
  "('h \<Rightarrow> bytes \<Rightarrow> int \<Rightarrow> nat \<Rightarrow> int \<times> 16 word list) \<Rightarrow> 'h opus_codec \<Rightarrow> bytes \<Rightarrow> u64 \<Rightarrow> 16 word list" where
  "opus_decode lib dec data len =
     (case dec of
        None \<Rightarrow> []
      | Some h \<Rightarrow>
          let (n, out) = lib h data (sint (ucast len :: u32)) FRAME_SIZE
          in if n < 0 then [] else resize (nat n) 0 out)"

text \<open>The life of an encoder: a number of calls of \<open>init\<close>, then the destructor; all events.\<close>

fun opus_inits :: "'h opus_answer list \<Rightarrow> 'h opus_codec \<Rightarrow> 'h opus_codec \<times> 'h handle_event list" where
  "opus_inits [] enc = (enc, [])"
| "opus_inits (a # as) enc =
     (let (_, enc, ev) = opus_encoder_init a enc; (enc, evs) = opus_inits as enc in (enc, ev @ evs))"

definition opus_life :: "'h opus_answer list \<Rightarrow> 'h handle_event list" where
  "opus_life as = (let (enc, evs) = opus_inits as None in evs @ opus_destroy enc)"

section \<open>H.264\<close>

datatype 'h x264_event = PictureAlloc | PictureClean | EncoderOpen 'h | EncoderClose 'h

record planes =
  plane_y :: bytes
  plane_u :: bytes
  plane_v :: bytes
  i_pts :: int

text \<open>\<open>pic_dims\<close> is the size the picture was last allocated for.\<close>

record 'h h264_encoder =
  x264_enc :: "'h option"
  pic_dims :: "(int \<times> int) option"
  enc_width :: int
  enc_height :: int

definition h264_new :: "'h h264_encoder" where
  "h264_new = \<lparr>x264_enc = None, pic_dims = None, enc_width = 0, enc_height = 0\<rparr>"

record 'h x264_answer =
  preset_ok :: bool
  profile_ok :: bool
  alloc_ok :: bool
  opened_h :: "'h option"

definition h264_init ::
  "'h x264_answer \<Rightarrow> int \<Rightarrow> int \<Rightarrow> 'h h264_encoder \<Rightarrow> bool \<times> 'h h264_encoder \<times> 'h x264_event list" where
  "h264_init a width height e =
     (let e = e\<lparr>enc_width := width, enc_height := height\<rparr> in
      if \<not> preset_ok a then (False, e, [])
      else if \<not> profile_ok a then (False, e, [])
      else if \<not> alloc_ok a then (False, e\<lparr>pic_dims := None\<rparr>, [])
      else
        let e = e\<lparr>pic_dims := Some (width, height), x264_enc := opened_h a\<rparr>
        in (opened_h a \<noteq> None, e, PictureAlloc # (case opened_h a of None \<Rightarrow> [] | Some h \<Rightarrow> [EncoderOpen h])))"

definition h264_destroy :: "'h h264_encoder \<Rightarrow> 'h x264_event list" where
  "h264_destroy e = (case x264_enc e of None \<Rightarrow> [] | Some h \<Rightarrow> [PictureClean, EncoderClose h])"

record yuv_frame =
  yuv_width :: int
  yuv_height :: int
  yuv_data :: bytes
  yuv_ts :: u32

record nal_unit =
  nal_data :: bytes
  is_keyframe :: bool

text \<open>The sizes are those of a picture, so not negative, and the bytes of a frame are fewer than \<open>2 ^ 31\<close>; then the
  division and the conversion to \<open>int\<close> of the code are those of the integers.  \<open>lib h pic\<close> is what \<open>x264_encoder_encode\<close> returns: the frame size, the payloads of the units, and whether the
  picture is a key frame.  The result of the wrapper is the picture it filled, when it got that far, and the
  units.\<close>

definition h264_encode ::
  "('h \<Rightarrow> planes \<Rightarrow> int \<times> bytes list \<times> bool) \<Rightarrow> 'h h264_encoder \<Rightarrow> yuv_frame \<Rightarrow> planes option \<times> nal_unit list" where
  "h264_encode lib e frame =
     (case x264_enc e of
        None \<Rightarrow> (None, [])
      | Some h \<Rightarrow>
          let y_size = enc_width e * enc_height e;
              uv_size = y_size div 4
          in if int (length (yuv_data frame)) < y_size + 2 * uv_size then (None, [])
             else
               let pic = \<lparr>plane_y = take (nat y_size) (yuv_data frame),
                          plane_u = take (nat uv_size) (drop (nat y_size) (yuv_data frame)),
                          plane_v = take (nat uv_size) (drop (nat (y_size + uv_size)) (yuv_data frame)),
                          i_pts = int (unat (yuv_ts frame))\<rparr>;
                   (frame_size, nals, key) = lib h pic
               in (Some pic,
                   if frame_size < 0 then []
                   else map (\<lambda>p. \<lparr>nal_data = p, is_keyframe = key\<rparr>) nals))"

text \<open>A number of calls of \<open>init\<close> with their sizes.\<close>

fun h264_inits :: "('h x264_answer \<times> int \<times> int) list \<Rightarrow> 'h h264_encoder \<Rightarrow> 'h h264_encoder \<times> 'h x264_event list" where
  "h264_inits [] e = (e, [])"
| "h264_inits ((a, w, h) # as) e =
     (let (_, e, ev) = h264_init a w h e; (e, evs) = h264_inits as e in (e, ev @ evs))"

section \<open>Handles\<close>

fun opened_of :: "'h handle_event list \<Rightarrow> 'h multiset" where
  "opened_of [] = {#}"
| "opened_of (Opened h # es) = add_mset h (opened_of es)"
| "opened_of (Closed h # es) = opened_of es"

fun closed_of :: "'h handle_event list \<Rightarrow> 'h multiset" where
  "closed_of [] = {#}"
| "closed_of (Opened h # es) = closed_of es"
| "closed_of (Closed h # es) = add_mset h (closed_of es)"

lemma events_append [simp]:
  "opened_of (xs @ ys) = opened_of xs + opened_of ys" "closed_of (xs @ ys) = closed_of xs + closed_of ys"
  by (induction xs rule: opened_of.induct) auto

text \<open>The handles an \<open>init\<close> leaves in the object.\<close>

definition kept :: "'h opus_answer \<Rightarrow> 'h multiset" where
  "kept a = (case fst (snd (opus_encoder_init a None)) of None \<Rightarrow> {#} | Some h \<Rightarrow> {#h#})"

lemma init_events:
  "opened_of (snd (snd (opus_encoder_init a enc))) = closed_of (snd (snd (opus_encoder_init a enc))) + kept a"
  "fst (snd (opus_encoder_init a enc)) = fst (snd (opus_encoder_init a None))"
  by (auto simp: opus_encoder_init_def kept_def Let_def split: option.splits)

lemma inits_events:
  "as \<noteq> [] \<Longrightarrow> opened_of (snd (opus_inits as enc) @ opus_destroy (fst (opus_inits as enc))) =
     closed_of (snd (opus_inits as enc) @ opus_destroy (fst (opus_inits as enc))) + \<Sum>\<^sub># (mset (map kept (butlast as)))"
proof (induction as arbitrary: enc)
  case (Cons a as)
  show ?case
  proof (cases "as = []")
    case True
    then show ?thesis using init_events(1) [of a enc] init_events(2) [of a enc]
      by (auto simp: case_prod_beta opus_destroy_def kept_def split: option.splits)
  next
    case False
    with Cons.IH [of "fst (snd (opus_encoder_init a enc))"] init_events(1) [of a enc] show ?thesis
      by (simp add: case_prod_beta ac_simps)
  qed
qed simp

text \<open>Over the life of an encoder the handles opened are the handles closed and those kept by every \<open>init\<close> but
  the last: an encoder that is initialised once closes what it opened, and each further \<open>init\<close> loses the handle
  before it for good.\<close>

theorem opus_handles:
  "opened_of (opus_life as) = closed_of (opus_life as) + \<Sum>\<^sub># (mset (map kept (butlast as)))"
  using inits_events [of as None] by (cases "as = []") (simp_all add: opus_life_def case_prod_beta opus_destroy_def)

section \<open>Pictures\<close>

lemma inits_last:
  assumes "as \<noteq> []" and "last as = (a, w, h)" and "preset_ok a" "profile_ok a" "alloc_ok a"
  shows "pic_dims (fst (h264_inits as e)) = Some (w, h) \<and> enc_width (fst (h264_inits as e)) = w \<and>
    enc_height (fst (h264_inits as e)) = h \<and> x264_enc (fst (h264_inits as e)) = opened_h a"
  using assms(1,2)
proof (induction as arbitrary: e)
  case (Cons x as)
  then show ?case using assms(3-)
    by (cases x; cases "as = []") (auto simp: case_prod_beta h264_init_def Let_def)
qed simp

lemma encode_copies:
  assumes "x264_enc e = Some h" and "0 \<le> enc_width e" "0 \<le> enc_height e"
    and n: "n = nat (enc_width e * enc_height e)" and "n + 2 * (n div 4) \<le> length (yuv_data frame)"
  shows "\<exists>pic. fst (h264_encode lib e frame) = Some pic \<and> length (plane_y pic) = n \<and>
    length (plane_u pic) = n div 4 \<and> length (plane_v pic) = n div 4 \<and>
    plane_y pic @ plane_u pic @ plane_v pic = take (n + 2 * (n div 4)) (yuv_data frame) \<and>
    i_pts pic = int (unat (yuv_ts frame)) \<and>
    snd (h264_encode lib e frame) =
      (case lib h pic of (frame_size, nals, key) \<Rightarrow>
        if frame_size < 0 then [] else map (\<lambda>p. \<lparr>nal_data = p, is_keyframe = key\<rparr>) nals)"
proof -
  define m where "m = n div 4"
  have y: "enc_width e * enc_height e = int n" using assms(2,3) n by simp
  have uv: "int n div 4 = int m" by (simp add: m_def zdiv_int)
  have nat: "nat (int n + int m) = n + m" by simp
  have joined: "take n xs @ take m (drop n xs) @ take m (drop (n + m) xs) = take (n + 2 * m) xs" for xs :: bytes
    by (metis append.assoc mult_2 take_add group_cancel.add1)
  show ?thesis
    using assms(5) joined unfolding m_def [symmetric]
    by (simp add: h264_encode_def assms(1) y uv nat Let_def case_prod_beta)
qed

text \<open>After any calls of \<open>init\<close> of which the last went through, x264 is handed exactly the three planes of the
  frame, each of the size the picture was allocated for, with the frame's time; every unit it answers with is
  passed on with the key frame mark.  A frame that is too short is refused before anything is copied.\<close>

theorem h264_encode_exact:
  assumes "as \<noteq> []" and "last as = (a, w, h)" and "preset_ok a" "profile_ok a" "alloc_ok a"
    and "opened_h a = Some enc" and "0 \<le> w" "0 \<le> h" and "n = nat (w * h)"
  shows "let e = fst (h264_inits as h264_new) in
    pic_dims e = Some (w, h) \<and>
    (if length (yuv_data frame) < n + 2 * (n div 4) then h264_encode lib e frame = (None, [])
     else \<exists>pic. fst (h264_encode lib e frame) = Some pic \<and>
       length (plane_y pic) = n \<and> length (plane_u pic) = n div 4 \<and> length (plane_v pic) = n div 4 \<and>
       plane_y pic @ plane_u pic @ plane_v pic = take (n + 2 * (n div 4)) (yuv_data frame) \<and>
       i_pts pic = int (unat (yuv_ts frame)) \<and>
       snd (h264_encode lib e frame) =
         (case lib enc pic of (frame_size, nals, key) \<Rightarrow>
           if frame_size < 0 then [] else map (\<lambda>p. \<lparr>nal_data = p, is_keyframe = key\<rparr>) nals))"
proof -
  define e where "e = fst (h264_inits as h264_new)"
  note e = inits_last [OF assms(1-5), of h264_new, folded e_def]
  have y: "w * h = int n" "w * h div 4 = int (n div 4)" using assms(7-9) by (simp_all add: zdiv_int)
  have "h264_encode lib e frame = (None, [])" if "length (yuv_data frame) < n + 2 * (n div 4)"
    using that e assms(6) y by (simp add: h264_encode_def Let_def)
  then show ?thesis
    using encode_copies [of e enc n frame lib] e assms(6-9) unfolding e_def [symmetric] Let_def by simp
qed

lemma h264_encode_exact_witness:
  "let a = \<lparr>preset_ok = True, profile_ok = True, alloc_ok = True, opened_h = Some ()\<rparr>;
       e = fst (h264_inits [(a, 4, 2)] h264_new);
       frame = \<lparr>yuv_width = 4, yuv_height = 2, yuv_data = map of_nat [0..<12], yuv_ts = 33\<rparr>
   in \<exists>pic. fst (h264_encode (\<lambda>h pic. (1, [plane_v pic], True)) e frame) = Some pic \<and>
     plane_y pic @ plane_u pic @ plane_v pic = map of_nat [0..<12] \<and>
     snd (h264_encode (\<lambda>h pic. (1, [plane_v pic], True)) e frame) = [\<lparr>nal_data = plane_v pic, is_keyframe = True\<rparr>]"
  using h264_encode_exact [of "[(\<lparr>preset_ok = True, profile_ok = True, alloc_ok = True, opened_h = Some ()\<rparr>, 4, 2)]"
      "\<lparr>preset_ok = True, profile_ok = True, alloc_ok = True, opened_h = Some ()\<rparr>" 4 2 "()" 8
      "\<lparr>yuv_width = 4, yuv_height = 2, yuv_data = map of_nat [0..<12], yuv_ts = 33\<rparr>"
      "\<lambda>h pic. (1, [plane_v pic], True)"]
  by (auto simp: Let_def)

text \<open>An \<open>init\<close> that fails before the picture is allocated, after one that went through, leaves the old encoder
  and the old picture in place with the new size: the next frame is copied with the new size into planes of the
  old one.\<close>

theorem h264_failed_reinit:
  assumes "preset_ok a" "profile_ok a" "alloc_ok a" "opened_h a = Some enc"
    and "\<not> profile_ok b" and "0 \<le> w'" "0 \<le> h'"
    and "nat (w' * h') + 2 * (nat (w' * h') div 4) \<le> length (yuv_data frame)"
  shows "let e = fst (h264_inits [(a, w, h), (b, w', h')] h264_new) in
    pic_dims e = Some (w, h) \<and>
    (\<exists>pic. fst (h264_encode lib e frame) = Some pic \<and> length (plane_y pic) = nat (w' * h'))"
proof -
  define e where "e = fst (h264_inits [(a, w, h), (b, w', h')] h264_new)"
  have "x264_enc e = Some enc" "pic_dims e = Some (w, h)" "enc_width e = w'" "enc_height e = h'"
    using assms by (auto simp: e_def h264_init_def Let_def)
  with encode_copies [of e enc "nat (w' * h')" frame lib] assms(6-8) show ?thesis
    unfolding e_def [symmetric] Let_def by auto
qed

lemma h264_failed_reinit_witness:
  "let a = \<lparr>preset_ok = True, profile_ok = True, alloc_ok = True, opened_h = Some ()\<rparr>;
       e = fst (h264_inits [(a, 2, 2), (a\<lparr>profile_ok := False\<rparr>, 4, 2)] h264_new);
       frame = \<lparr>yuv_width = 4, yuv_height = 2, yuv_data = replicate 12 0, yuv_ts = 0\<rparr>
   in pic_dims e = Some (2, 2) \<and>
     (\<exists>pic. fst (h264_encode (\<lambda>h pic. (0, [], False)) e frame) = Some pic \<and> length (plane_y pic) = 8)"
  using h264_failed_reinit [of "\<lparr>preset_ok = True, profile_ok = True, alloc_ok = True, opened_h = Some ()\<rparr>" "()"
      "\<lparr>preset_ok = True, profile_ok = False, alloc_ok = True, opened_h = Some ()\<rparr>" 4 2
      "\<lparr>yuv_width = 4, yuv_height = 2, yuv_data = replicate 12 0, yuv_ts = 0\<rparr>" 2 2 "\<lambda>h pic. (0, [], False)"]
  by (auto simp: Let_def)

end
