(* ===== verification/QtClient.thy ===== *)
theory QtClient
  imports Prelude
begin

text \<open>
  The client's picture path: \<open>MediaPipeline\<close> (\<open>module10_qt_client/src/pipeline.cpp\<close>), the thread that makes test
  frames; \<open>YuvRenderer\<close> (\<open>yuv_renderer.cpp\<close>), which takes the frames through the event queue of the main thread and
  paints the last one; and \<open>SyntheticVideoSource\<close> of the integration tests.  A call into OpenGL is a value of
  \<^typ>\<open>nat\<close>-indexed commands in the list a paint returns; what OpenGL reads of a buffer is an argument of the
  theorems that need it.
\<close>

section \<open>The test frames\<close>

record frame_signal =
  fr_width :: int
  fr_height :: int
  fr_y :: bytes
  fr_u :: bytes
  fr_v :: bytes

text \<open>The frame of \<open>run\<close> with number \<open>frame_idx\<close>; the low eight bits of \<open>frame_idx * 4 + i\<close>.\<close>

definition pipeline_frame :: "nat \<Rightarrow> frame_signal" where
  "pipeline_frame frame_idx =
     (let W = 320; H = 240 in
      \<lparr>fr_width = int W, fr_height = int H,
       fr_y = map (\<lambda>i. of_nat (frame_idx * 4 + i) AND 0xFF) [0..<W * H],
       fr_u = replicate (W div 2 * H div 2) 128,
       fr_v = replicate (W div 2 * H div 2) 128\<rparr>)"

text \<open>The frames emitted while the thread runs \<open>n\<close> rounds.\<close>

fun pipeline_loop :: "nat \<Rightarrow> nat \<Rightarrow> frame_signal list" where
  "pipeline_loop 0 frame_idx = []"
| "pipeline_loop (Suc n) frame_idx = pipeline_frame frame_idx # pipeline_loop n (frame_idx + 1)"

text \<open>\<open>start\<close> and \<open>stop\<close>.  Assigning a thread over one that was not joined terminates the program; here \<open>running_\<close>
  guards the start.\<close>

record pipeline =
  p_running :: bool
  p_joinable :: bool
  p_terminated :: bool

definition pipeline_new :: pipeline where
  "pipeline_new = \<lparr>p_running = False, p_joinable = False, p_terminated = False\<rparr>"

definition pipeline_start :: "pipeline \<Rightarrow> pipeline" where
  "pipeline_start p =
     (if p_running p then p
      else if p_joinable p then p\<lparr>p_running := True, p_terminated := True\<rparr>
      else p\<lparr>p_running := True, p_joinable := True\<rparr>)"

definition pipeline_stop :: "pipeline \<Rightarrow> pipeline" where
  "pipeline_stop p =
     (let p = p\<lparr>p_running := False\<rparr> in if p_joinable p then p\<lparr>p_joinable := False\<rparr> else p)"

section \<open>The renderer\<close>

datatype gl_param = MIN_FILTER | MAG_FILTER | WRAP_S | WRAP_T

datatype gl_value = LINEAR | CLAMP_TO_EDGE

datatype gl_call =
    InitializeFunctions
  | NewProgram
  | AddShader string
  | LinkProgram
  | GenTextures nat
  | TexParameteri gl_param gl_value
  | Viewport int int int int
  | MakeCurrent
  | DeleteTextures "nat list"
  | DeleteProgram
  | DoneCurrent
  | ClearColor
  | ClearBuffer
  | ActiveTexture nat
  | BindTexture nat
  | TexImage2D int int bytes
  | BindProgram
  | SetUniform string int
  | EnableAttributeArray nat
  | SetAttributeArray nat "int list" nat
  | DrawArrays nat
  | DisableAttributeArray nat
  | ReleaseProgram

record renderer =
  frame_width :: int
  frame_height :: int
  y_plane :: bytes
  u_plane :: bytes
  v_plane :: bytes
  has_frame :: bool
  queued :: "frame_signal list"
  updates :: nat

definition renderer_new :: renderer where
  "renderer_new = \<lparr>frame_width = 0, frame_height = 0, y_plane = [], u_plane = [], v_plane = [],
     has_frame = False, queued = [], updates = 0\<rparr>"

text \<open>\<open>updateFrame\<close> posts the frame to the queue of the main thread; the event loop runs the posted functions in
  their order.\<close>

definition update_frame :: "frame_signal \<Rightarrow> renderer \<Rightarrow> renderer" where
  "update_frame f r = r\<lparr>queued := queued r @ [f]\<rparr>"

definition run_queued :: "renderer \<Rightarrow> renderer" where
  "run_queued r =
     (case queued r of
        [] \<Rightarrow> r
      | f # fs \<Rightarrow>
          r\<lparr>frame_width := fr_width f, frame_height := fr_height f, y_plane := fr_y f, u_plane := fr_u f,
            v_plane := fr_v f, has_frame := True, queued := fs, updates := updates r + 1\<rparr>)"

definition vertices :: "int list" where
  "vertices = [-1, 1, 0, 0,   -1, -1, 0, 1,   1, 1, 1, 0,   1, -1, 1, 1]"

text \<open>\<open>t y u v\<close> are the names of the three textures; the halves are taken as the division of the code, which cuts
  off.\<close>

definition paint_gl :: "nat \<times> nat \<times> nat \<Rightarrow> renderer \<Rightarrow> gl_call list" where
  "paint_gl textures r =
     (let (tex_y, tex_u, tex_v) = textures in
      [ClearColor, ClearBuffer] @
      (if \<not> has_frame r \<or> frame_width r \<le> 0 \<or> frame_height r \<le> 0 then []
       else
         [BindTexture tex_y, TexImage2D (frame_width r) (frame_height r) (y_plane r),
          BindTexture tex_u, TexImage2D (frame_width r div 2) (frame_height r div 2) (u_plane r),
          BindTexture tex_v, TexImage2D (frame_width r div 2) (frame_height r div 2) (v_plane r),
          BindProgram,
          ActiveTexture 0, BindTexture tex_y, SetUniform ''texY'' 0,
          ActiveTexture 1, BindTexture tex_u, SetUniform ''texU'' 1,
          ActiveTexture 2, BindTexture tex_v, SetUniform ''texV'' 2,
          EnableAttributeArray 0, SetAttributeArray 0 vertices 2,
          EnableAttributeArray 1, SetAttributeArray 1 (drop 2 vertices) 2,
          DrawArrays 4,
          DisableAttributeArray 0, DisableAttributeArray 1, ReleaseProgram]))"

text \<open>What can happen to the renderer: a frame arrives, the main thread runs a posted function, or paints.\<close>

datatype renderer_op = Arrive frame_signal | Process | Paint

fun render_run :: "nat \<times> nat \<times> nat \<Rightarrow> renderer_op list \<Rightarrow> renderer \<Rightarrow> gl_call list list \<times> renderer" where
  "render_run ts [] r = ([], r)"
| "render_run ts (Arrive f # ops) r = render_run ts ops (update_frame f r)"
| "render_run ts (Process # ops) r = render_run ts ops (run_queued r)"
| "render_run ts (Paint # ops) r = (let (ps, r') = render_run ts ops r in (paint_gl ts r # ps, r'))"

section \<open>The source of the integration tests\<close>

record synthetic_frame =
  sf_width :: int
  sf_height :: int
  sf_data :: bytes
  sf_timestamp_ms :: int

definition next_frame :: "int \<Rightarrow> synthetic_frame" where
  "next_frame frame_idx =
     (let data = replicate (320 * 240 * 3 div 2) 0 in
      \<lparr>sf_width = 320, sf_height = 240,
       sf_data = foldl (\<lambda>d i. d[i := word_of_int (frame_idx * 4 + int i) AND 0xFF]) data [0..<320 * 240],
       sf_timestamp_ms = frame_idx * 33\<rparr>)"

section \<open>What a paint shows\<close>

fun arrived_frames :: "renderer_op list \<Rightarrow> frame_signal list" where
  "arrived_frames [] = []"
| "arrived_frames (Arrive f # ops) = f # arrived_frames ops"
| "arrived_frames (Process # ops) = arrived_frames ops"
| "arrived_frames (Paint # ops) = arrived_frames ops"

definition shows_frame :: "frame_signal \<Rightarrow> renderer \<Rightarrow> bool" where
  "shows_frame f r \<longleftrightarrow> has_frame r \<and> frame_width r = fr_width f \<and> frame_height r = fr_height f \<and>
     y_plane r = fr_y f \<and> u_plane r = fr_u f \<and> v_plane r = fr_v f"

text \<open>With the frames \<open>fs\<close> that have arrived: the first \<open>updates\<close> of them have been taken out of the queue, and the
  renderer holds the last of these.\<close>

definition renderer_ok :: "frame_signal list \<Rightarrow> renderer \<Rightarrow> bool" where
  "renderer_ok fs r \<longleftrightarrow> updates r \<le> length fs \<and> queued r = drop (updates r) fs \<and>
     (if updates r = 0 then \<not> has_frame r else shows_frame (fs ! (updates r - 1)) r)"

lemma renderer_ok_new: "renderer_ok [] renderer_new"
  by (simp add: renderer_ok_def renderer_new_def)

lemma renderer_ok_arrive: "renderer_ok fs r \<Longrightarrow> renderer_ok (fs @ [f]) (update_frame f r)"
  by (auto simp: renderer_ok_def update_frame_def shows_frame_def nth_append)

lemma renderer_ok_process:
  assumes "renderer_ok fs r"
  shows "renderer_ok fs (run_queued r)"
proof (cases "queued r")
  case Nil
  then show ?thesis using assms by (simp add: run_queued_def)
next
  case (Cons f rest)
  with assms have q: "drop (updates r) fs = f # rest" by (simp add: renderer_ok_def)
  then have "updates r < length fs" by (metis drop_all list.distinct(1) not_less)
  with q have "fs ! updates r = f" "drop (Suc (updates r)) fs = rest"
    by (simp_all flip: Cons_nth_drop_Suc)
  moreover have "run_queued r = r\<lparr>frame_width := fr_width f, frame_height := fr_height f, y_plane := fr_y f,
      u_plane := fr_u f, v_plane := fr_v f, has_frame := True, queued := rest, updates := updates r + 1\<rparr>"
    by (simp add: run_queued_def Cons)
  ultimately show ?thesis using \<open>updates r < length fs\<close>
    by (simp add: renderer_ok_def shows_frame_def Suc_le_eq)
qed

text \<open>The frame on the screen while painting: none, or the last one processed.\<close>

lemma renderer_ok_cases:
  assumes "renderer_ok fs r"
  obtains (none) "\<not> has_frame r" | (frame) f where "f \<in> set fs" "shows_frame f r"
proof (cases "updates r = 0")
  case True
  then show ?thesis using assms none by (simp add: renderer_ok_def)
next
  case False
  with assms have "fs ! (updates r - 1) \<in> set fs" "shows_frame (fs ! (updates r - 1)) r"
    by (auto simp: renderer_ok_def)
  then show ?thesis by (rule frame)
qed

definition blank :: "gl_call list" where
  "blank = [ClearColor, ClearBuffer]"

text \<open>The images a paint uploads.\<close>

fun uploads :: "gl_call list \<Rightarrow> (int \<times> int \<times> bytes) list" where
  "uploads [] = []"
| "uploads (TexImage2D w h d # cs) = (w, h, d) # uploads cs"
| "uploads (_ # cs) = uploads cs"

definition planes_of :: "frame_signal \<Rightarrow> (int \<times> int \<times> bytes) list" where
  "planes_of f =
     [(fr_width f, fr_height f, fr_y f), (fr_width f div 2, fr_height f div 2, fr_u f),
      (fr_width f div 2, fr_height f div 2, fr_v f)]"

lemma uploads_paint:
  "uploads (paint_gl ts r) =
     (if \<not> has_frame r \<or> frame_width r \<le> 0 \<or> frame_height r \<le> 0 then []
      else [(frame_width r, frame_height r, y_plane r), (frame_width r div 2, frame_height r div 2, u_plane r),
            (frame_width r div 2, frame_height r div 2, v_plane r)])"
  by (cases ts) (simp add: paint_gl_def)

lemma paint_shows:
  assumes "renderer_ok fs r"
  shows "uploads (paint_gl ts r) = [] \<or> (\<exists>f \<in> set fs. uploads (paint_gl ts r) = planes_of f)"
  using assms by (cases rule: renderer_ok_cases) (auto simp: uploads_paint planes_of_def shows_frame_def)

lemma run_shows:
  assumes "renderer_ok fs r" and "calls \<in> set (fst (render_run ts ops r))"
  shows "uploads calls = [] \<or> (\<exists>f \<in> set (fs @ arrived_frames ops). uploads calls = planes_of f)"
  using assms
proof (induction ts ops r arbitrary: fs rule: render_run.induct)
  case (2 ts f ops r)
  from 2(1) [OF renderer_ok_arrive [OF 2(2), of f]] 2(3) show ?case by simp
next
  case (3 ts ops r)
  from 3(1) [OF renderer_ok_process [OF 3(2)]] 3(3) show ?case by simp
next
  case (4 ts ops r)
  then show ?case using paint_shows [OF 4(2), of ts] by (auto simp: case_prod_beta)
qed simp

section \<open>The properties\<close>

lemma length_pipeline_frame:
  "length (fr_y (pipeline_frame k)) = 320 * 240" "length (fr_u (pipeline_frame k)) = 160 * 120"
  "length (fr_v (pipeline_frame k)) = 160 * 120" "fr_width (pipeline_frame k) = 320" "fr_height (pipeline_frame k) = 240"
  by (simp_all add: pipeline_frame_def Let_def)

text \<open>Every paint uploads nothing, or the three planes of one frame that has arrived, never planes of different
  frames; and when the frames come from the pipeline, OpenGL, which by default reads rows padded to four bytes,
  reads no byte outside a plane.\<close>

theorem qt_paint_in_bounds:
  assumes reads: "\<forall>w h. reads w h = (if w \<le> 0 \<or> h \<le> 0 then 0 else nat ((w + 3) div 4 * 4 * (h - 1) + w))"
    and frames: "\<forall>f \<in> set (arrived_frames ops). \<exists>k. f = pipeline_frame k"
    and calls: "calls \<in> set (fst (render_run textures ops renderer_new))"
  shows "(uploads calls = [] \<or> (\<exists>f \<in> set (arrived_frames ops). uploads calls = planes_of f)) \<and>
    (\<forall>(w, h, d) \<in> set (uploads calls). reads w h \<le> length d)"
proof -
  have "uploads calls = [] \<or> (\<exists>f \<in> set (arrived_frames ops). uploads calls = planes_of f)"
    using run_shows [OF renderer_ok_new calls] by simp
  moreover have "reads w h \<le> length d" if "f \<in> set (arrived_frames ops)" "(w, h, d) \<in> set (planes_of f)" for f w h d
  proof -
    from frames that(1) obtain k where "f = pipeline_frame k" by blast
    with that(2) show ?thesis
      using spec [OF spec [OF reads, of 320], of 240] spec [OF spec [OF reads, of 160], of 120]
      by (auto simp: planes_of_def length_pipeline_frame)
  qed
  ultimately show ?thesis by auto
qed

lemma qt_paint_in_bounds_witness:
  "\<exists>calls. fst (render_run (1, 2, 3) [Arrive (pipeline_frame 0), Paint, Process, Paint] renderer_new) =
      [paint_gl (1, 2, 3) (update_frame (pipeline_frame 0) renderer_new), calls] \<and>
    uploads calls = planes_of (pipeline_frame 0) \<and>
    (\<forall>(w, h, d) \<in> set (uploads calls).
       (if w \<le> 0 \<or> h \<le> 0 then 0 else nat ((w + 3) div 4 * 4 * (h - 1) + w)) \<le> length d)"
proof -
  let ?ops = "[Arrive (pipeline_frame 0), Paint, Process, Paint]"
  let ?calls = "paint_gl (1, 2, 3) (run_queued (update_frame (pipeline_frame 0) renderer_new))"
  have "uploads ?calls = planes_of (pipeline_frame 0)"
    by (simp add: uploads_paint run_queued_def update_frame_def renderer_new_def planes_of_def length_pipeline_frame)
  moreover have "?calls \<in> set (fst (render_run (1, 2, 3) ?ops renderer_new))" by simp
  moreover have "\<forall>f \<in> set (arrived_frames ?ops). \<exists>k. f = pipeline_frame k" by auto
  ultimately show ?thesis
    using qt_paint_in_bounds [of "\<lambda>w h. if w \<le> 0 \<or> h \<le> 0 then 0 else nat ((w + 3) div 4 * 4 * (h - 1) + w)" ?ops
      ?calls "(1, 2, 3)", OF _ \<open>\<forall>f \<in> set (arrived_frames ?ops). \<exists>k. f = pipeline_frame k\<close>]
    by (intro exI [of _ ?calls] conjI) simp_all
qed

text \<open>The alignment is never set.  For any other source whose width is not a multiple of four, a frame of two rows
  or more whose luma plane has exactly its size makes OpenGL read past the end of the plane.\<close>

theorem qt_unaligned_overread:
  assumes reads: "\<forall>w h. reads w h = (if w \<le> 0 \<or> h \<le> 0 then 0 else nat ((w + 3) div 4 * 4 * (h - 1) + w))"
    and "0 < fr_width f" "fr_width f mod 4 \<noteq> 0" "2 \<le> fr_height f"
    and "length (fr_y f) = nat (fr_width f * fr_height f)"
  shows "\<exists>calls. fst (render_run textures [Arrive f, Process, Paint] renderer_new) = [calls] \<and>
    (\<exists>(w, h, d) \<in> set (uploads calls). length d < reads w h)"
proof -
  let ?calls = "paint_gl textures (run_queued (update_frame f renderer_new))"
  have shown: "uploads ?calls = planes_of f" using assms(2,4)
    by (simp add: uploads_paint run_queued_def update_frame_def renderer_new_def planes_of_def)
  have "fr_width f < (fr_width f + 3) div 4 * 4" using assms(3) by presburger
  then have "fr_width f * (fr_height f - 1) < (fr_width f + 3) div 4 * 4 * (fr_height f - 1)"
    using assms(4) by (intro mult_strict_right_mono) simp_all
  then have "fr_width f * fr_height f < (fr_width f + 3) div 4 * 4 * (fr_height f - 1) + fr_width f"
    by (simp add: algebra_simps)
  moreover have "0 < fr_width f * fr_height f" using assms(2,4) by simp
  ultimately have "0 < (fr_width f + 3) div 4 * 4 * (fr_height f - 1) + fr_width f"
    "fr_width f * fr_height f < (fr_width f + 3) div 4 * 4 * (fr_height f - 1) + fr_width f" by linarith+
  then have big: "length (fr_y f) < reads (fr_width f) (fr_height f)"
    using assms(2,4,5) spec [OF spec [OF reads, of "fr_width f"], of "fr_height f"]
    by (simp add: zless_nat_conj)
  from shown big show ?thesis by (intro exI [of _ ?calls]) (auto simp: planes_of_def)
qed

lemma qt_unaligned_overread_witness:
  "\<exists>calls. fst (render_run (1, 2, 3) [Arrive \<lparr>fr_width = 6, fr_height = 2, fr_y = replicate 12 0,
       fr_u = replicate 3 0, fr_v = replicate 3 0\<rparr>, Process, Paint] renderer_new) = [calls] \<and>
    (\<exists>(w, h, d) \<in> set (uploads calls).
       length d < (if w \<le> 0 \<or> h \<le> 0 then 0 else nat ((w + 3) div 4 * 4 * (h - 1) + w)))"
  using qt_unaligned_overread [of "\<lambda>w h. if w \<le> 0 \<or> h \<le> 0 then 0 else nat ((w + 3) div 4 * 4 * (h - 1) + w)"
    "\<lparr>fr_width = 6, fr_height = 2, fr_y = replicate 12 0, fr_u = replicate 3 0, fr_v = replicate 3 0\<rparr>" "(1, 2, 3)"]
  by simp

datatype pipeline_op = PStart | PStop

fun pipeline_run :: "pipeline_op list \<Rightarrow> pipeline \<Rightarrow> pipeline" where
  "pipeline_run [] p = p"
| "pipeline_run (PStart # ops) p = pipeline_run ops (pipeline_start p)"
| "pipeline_run (PStop # ops) p = pipeline_run ops (pipeline_stop p)"

lemma pipeline_run_ok:
  "p_running p = p_joinable p \<Longrightarrow> \<not> p_terminated p \<Longrightarrow>
    p_running (pipeline_run ops p) = p_joinable (pipeline_run ops p) \<and> \<not> p_terminated (pipeline_run ops p)"
  by (induction ops p rule: pipeline_run.induct) (auto simp: pipeline_start_def pipeline_stop_def Let_def)

lemma pipeline_loop_map: "pipeline_loop n k = map (\<lambda>i. pipeline_frame (k + i)) [0..<n]"
  by (induction n arbitrary: k)
     (simp_all add: upt_conv_Cons map_Suc_upt [symmetric] comp_def del: upt_Suc)

lemma fill_list:
  "n \<le> length d \<Longrightarrow> foldl (\<lambda>d i. d[i := f i]) d [0..<n] = map f [0..<n] @ drop n d"
proof (induction n)
  case (Suc n)
  then have "foldl (\<lambda>d i. d[i := f i]) d [0..<Suc n] = (map f [0..<n] @ drop n d)[n := f n]" by simp
  also have "\<dots> = map f [0..<Suc n] @ drop (Suc n) d"
    using Suc.prems by (simp add: list_update_append flip: Cons_nth_drop_Suc)
  finally show ?case .
qed simp

text \<open>The pipeline may be started and stopped in any order and any number of times without the program
  being terminated, and its thread runs exactly while it is started.  Its \<open>k\<close>-th frame is a gradient that moves by
  four pixels with each frame, over neutral chroma planes, all of the size of a 320 by 240 picture; the source of
  the integration tests has the same luma plane, but its chroma planes are zero and not neutral.\<close>

theorem test_frames:
  "\<not> p_terminated (pipeline_run ops pipeline_new) \<and>
   p_running (pipeline_run ops pipeline_new) = p_joinable (pipeline_run ops pipeline_new) \<and>
   pipeline_loop n 0 = map pipeline_frame [0..<n] \<and>
   fr_y (pipeline_frame k) = map (\<lambda>i. of_nat (4 * k + i)) [0..<76800] \<and>
   fr_u (pipeline_frame k) = replicate 19200 128 \<and> fr_v (pipeline_frame k) = replicate 19200 128 \<and>
   sf_data (next_frame (int k)) = fr_y (pipeline_frame k) @ replicate 38400 0"
proof -
  have mask: "w AND 0xFF = w" for w :: u8
    by (rule bit_word_eqI) (simp add: bit_simps bit_0xFF_int)
  have "foldl (\<lambda>d i. d[i := word_of_int (int k * 4 + int i) AND 0xFF :: u8]) (replicate 115200 0) [0..<76800] =
      map (\<lambda>i. word_of_int (int k * 4 + int i) AND 0xFF) [0..<76800] @ drop 76800 (replicate 115200 0)"
    by (rule fill_list) simp
  also have "\<dots> = map (\<lambda>i. of_nat (k * 4 + i)) [0..<76800] @ replicate 38400 0"
    by (simp add: mask del: upt_Suc)
  finally have sf: "sf_data (next_frame (int k)) = map (\<lambda>i. of_nat (k * 4 + i)) [0..<76800] @ replicate 38400 0"
    by (simp add: next_frame_def Let_def)
  have y: "fr_y (pipeline_frame k) = map (\<lambda>i. of_nat (k * 4 + i)) [0..<76800]"
    by (simp add: pipeline_frame_def Let_def mask)
  have uv: "fr_u (pipeline_frame k) = replicate 19200 128" "fr_v (pipeline_frame k) = replicate 19200 128"
    by (simp_all add: pipeline_frame_def Let_def)
  show ?thesis
    using pipeline_run_ok [of pipeline_new ops] pipeline_loop_map [of n 0]
    by (simp only: sf y uv mult.commute [of k]) (simp add: pipeline_new_def)
qed

end
