(* ===== verification/SfuHost.thy ===== *)
theory SfuHost
  imports Sfu IoContext UdpSocket
begin

text \<open>
  \<open>SfuServer\<close> as a running program (\<open>module09_sfu/src/sfu_server.cpp\<close>): its UDP socket, its event loop on a thread of
  its own, and the handler of the packets that arrive, put together from \<open>Sfu\<close>, \<open>IoContext\<close> and \<open>UdpSocket\<close>.
\<close>

section \<open>The handler\<close>

text \<open>The world of the loop: the rooms, what \<open>recvfrom\<close> will answer, and what has been sent.\<close>

record sfu_world =
  server :: sfu_server
  inbox :: "bytes option list"
  outbox :: "(int \<times> bytes) list"

text \<open>\<open>on_udp_packet\<close> looks at the length and does nothing with the packet.\<close>

definition on_udp_packet :: "sfu_server \<Rightarrow> bytes \<Rightarrow> sfu_server \<times> (int \<times> bytes) list" where
  "on_udp_packet s data = (if length data < 4 then (s, []) else (s, []))"

definition sfu_callback :: "(unit, sfu_world) handler" where
  "sfu_callback cb fd events w =
     (let (answer, rest) = (case inbox w of [] \<Rightarrow> (None, []) | a # rest \<Rightarrow> (a, rest));
          (n, buf) = udp_recv_from 65536 answer
      in ([], if n > 0
              then let (s, sent) = on_udp_packet (server w) buf
                   in w\<lparr>server := s, inbox := rest, outbox := outbox w @ sent\<rparr>
              else w\<lparr>inbox := rest\<rparr>))"

section \<open>Start and stop\<close>

record sfu_host =
  host_server :: sfu_server
  host_udp :: int
  host_io :: "unit io_context"
  host_thread :: bool

text \<open>\<open>start\<close> may fail to bind, which it only reports; \<open>register_fd\<close> may throw; a thread assigned over a joinable
  one terminates the program.  \<open>opt\<close>, \<open>bound\<close> and \<open>add_ok\<close> are the answers of the system.\<close>

datatype start_result = Started sfu_host | Bind_failed sfu_host | Thrown_out | Terminated_program

definition sfu_start :: "int \<Rightarrow> (udp_address \<Rightarrow> int) \<Rightarrow> (int \<Rightarrow> bool) \<Rightarrow> sfu_host \<Rightarrow> start_result" where
  "sfu_start opt bound add_ok h =
     (if \<not> snd (udp_bind opt bound (udp_port (host_server h))) then Bind_failed h
      else case register_fd add_ok (host_udp h) 1 () (host_io h) of
             None \<Rightarrow> Thrown_out
           | Some io \<Rightarrow>
               if host_thread h then Terminated_program else Started (h\<lparr>host_io := io, host_thread := True\<rparr>))"

text \<open>\<open>stop\<close>; joining the thread waits for its loop to return.\<close>

definition sfu_stop :: "sfu_host \<Rightarrow> sfu_host" where
  "sfu_stop h = h\<lparr>host_io := io_stop (host_io h), host_thread := False\<rparr>"

text \<open>The thread of the server, when it gets to its first step, with the datagrams that will come in.\<close>

definition sfu_thread :: "sfu_host \<Rightarrow> bytes option list \<Rightarrow> (unit, sfu_world) io_sys" where
  "sfu_thread h datagrams = io_begin (host_io h) \<lparr>server = host_server h, inbox = datagrams, outbox = []\<rparr>"

lemma callback_keeps:
  "fst (sfu_callback cb fd ev w) = []"
  "server (snd (sfu_callback cb fd ev w)) = server w" "outbox (snd (sfu_callback cb fd ev w)) = outbox w"
  by (auto simp: sfu_callback_def on_udp_packet_def case_prod_beta Let_def)

section \<open>Properties\<close>

text \<open>The server forwards nothing.  Whatever rooms it has, whatever datagrams come in and whatever happens in its
  event loop, its thread throws nothing, sends nothing and leaves the rooms as they are.\<close>

theorem sfu_server_forwards_nothing:
  assumes "io_runs add_ok sfu_callback chs (sfu_thread h datagrams) = Some s"
  shows "pc s \<noteq> Thrown \<and> outbox (world s) = [] \<and> server (world s) = host_server h"
  using runs_quiet [of sfu_callback "\<lambda>w. outbox w = [] \<and> server w = host_server h",
      OF _ _ assms [unfolded sfu_thread_def]]
  by (simp add: callback_keeps)

lemma sfu_server_forwards_nothing_witness:
  "\<exists>s. io_runs (\<lambda>_. True) sfu_callback [Advance, Advance, Report [(7, 1)], Advance]
      (sfu_thread \<lparr>host_server = SfuServer 5000, host_udp = 7,
        host_io = \<lparr>interest = [5 \<mapsto> 1, 7 \<mapsto> 1], callbacks = [5 \<mapsto> (), 7 \<mapsto> ()], running = False, event_fd = 5, wakeups = 0\<rparr>,
        host_thread = True\<rparr> [Some [128, 96, 0, 1]]) = Some s \<and>
    inbox (world s) = [] \<and> outbox (world s) = []"
proof -
  let ?h = "\<lparr>host_server = SfuServer 5000, host_udp = 7,
        host_io = \<lparr>interest = [5 \<mapsto> 1, 7 \<mapsto> 1], callbacks = [5 \<mapsto> (), 7 \<mapsto> ()], running = False, event_fd = 5, wakeups = 0\<rparr>,
        host_thread = True\<rparr>"
  obtain s where s: "io_runs (\<lambda>_. True) sfu_callback [Advance, Advance, Report [(7, 1)], Advance]
      (sfu_thread ?h [Some [128, 96, 0, 1]]) = Some s" and "inbox (world s) = []"
    by (simp add: io_take_def io_advance_def io_begin_def sfu_thread_def reportable_def kMaxEvents_def handle_event_def
        sfu_callback_def udp_recv_from_def on_udp_packet_def)
  with sfu_server_forwards_nothing [OF s] show ?thesis by blast
qed

text \<open>A server that was started once cannot be started again.  While it runs a second start throws, and after a
  stop, which leaves its socket registered, every start either reports that it cannot bind and runs nothing, or
  throws.\<close>

theorem sfu_starts_once:
  assumes "sfu_start opt bound add_ok h = Started h1"
  shows "sfu_start opt2 bound2 add_ok2 h1 =
      (if snd (udp_bind opt2 bound2 (udp_port (host_server h))) then Thrown_out else Bind_failed h1) \<and>
    sfu_start opt2 bound2 add_ok2 (sfu_stop h1) =
      (if snd (udp_bind opt2 bound2 (udp_port (host_server h))) then Thrown_out else Bind_failed (sfu_stop h1))"
proof -
  have "interest (host_io h1) (host_udp h1) \<noteq> None" "host_server h1 = host_server h"
    using assms by (auto simp: sfu_start_def register_fd_def split: if_splits option.splits)
  then show ?thesis by (simp add: sfu_start_def sfu_stop_def io_stop_def io_stop_store_def io_stop_write_def register_fd_def)
qed

lemma sfu_starts_once_witness:
  "\<exists>h1. sfu_start 0 (\<lambda>_. 0) (\<lambda>_. True) \<lparr>host_server = SfuServer 5000, host_udp = 7,
      host_io = \<lparr>interest = [5 \<mapsto> 1], callbacks = [5 \<mapsto> ()], running = False, event_fd = 5, wakeups = 0\<rparr>,
      host_thread = False\<rparr> = Started h1 \<and>
    sfu_start 0 (\<lambda>_. -1) (\<lambda>_. True) (sfu_stop h1) = Bind_failed (sfu_stop h1)"
proof -
  let ?h = "\<lparr>host_server = SfuServer 5000, host_udp = 7,
      host_io = \<lparr>interest = [5 \<mapsto> 1], callbacks = [5 \<mapsto> ()], running = False, event_fd = 5, wakeups = 0\<rparr>,
      host_thread = False\<rparr>"
  obtain h1 where h1: "sfu_start 0 (\<lambda>_. 0) (\<lambda>_. True) ?h = Started h1"
    by (simp add: sfu_start_def udp_bind_def register_fd_def)
  have "\<not> snd (udp_bind 0 (\<lambda>_. -1) (udp_port (host_server ?h)))" by (simp add: udp_bind_def)
  with sfu_starts_once [OF h1, of 0 "\<lambda>_. -1" "\<lambda>_. True"] h1 show ?thesis by auto
qed

end
