(* ===== verification/WsServer.thy ===== *)
theory WsServer
  imports WebSocket
begin

text \<open>
  \<open>WebSocketServer\<close> as a running program (\<open>module05_signaling/src/websocket_server.cpp\<close>): \<open>start\<close>, the loop of its
  thread over what \<open>epoll_wait\<close> reports, and \<open>stop\<close>, around the handling of clients of \<open>WebSocket\<close>.  What the
  system calls answer is an argument.
\<close>

section \<open>The loop\<close>

text \<open>A reported descriptor: the listening one, with the descriptors \<open>accept\<close> then returns, or a client's, with
  what \<open>read\<close> then returns.\<close>

datatype ws_event = Listen "int list" | Client int "read_result list"

text \<open>An exception leaves the batch.\<close>

fun ws_batch ::
    "(bytes \<Rightarrow> bytes) \<Rightarrow> (bytes \<Rightarrow> int) \<Rightarrow> ws_conns \<Rightarrow> ws_event list \<Rightarrow> ws_effect list \<times> ws_conns \<times> ws_status" where
  "ws_batch sha wr conns [] = ([], conns, Ws_done)"
| "ws_batch sha wr conns (Listen cfds # evs) =
     (let (effs, conns) = accept_client conns cfds; (effs', conns, st) = ws_batch sha wr conns evs
      in (effs @ effs', conns, st))"
| "ws_batch sha wr conns (Client fd rs # evs) =
     (let (effs, conns, st) = handle_client sha wr fd conns rs
      in if st \<noteq> Ws_done then (effs, conns, st)
         else let (effs', conns, st) = ws_batch sha wr conns evs in (effs @ effs', conns, st))"

text \<open>What happens to the thread: \<open>epoll_wait\<close> returns, with nothing after 100 ms at the latest, or another thread
  clears \<open>running_\<close>.  At the end the remaining clients are closed in the order of the table, \<open>order\<close>.  An
  exception out of the thread terminates the process.\<close>

datatype ws_input = Wake "ws_event list" | Clear_running

datatype ws_outcome = Ws_waiting ws_conns | Ws_ended | Ws_terminated

definition ws_close_all :: "(ws_conns \<Rightarrow> int list) \<Rightarrow> ws_conns \<Rightarrow> ws_effect list \<times> ws_outcome" where
  "ws_close_all order conns = (Lock # map CloseFd (order conns) @ [Unlock], Ws_ended)"

fun ws_loop ::
    "(bytes \<Rightarrow> bytes) \<Rightarrow> (bytes \<Rightarrow> int) \<Rightarrow> (ws_conns \<Rightarrow> int list) \<Rightarrow> bool \<Rightarrow> ws_conns \<Rightarrow> ws_input list \<Rightarrow>
     ws_effect list \<times> ws_outcome" where
  "ws_loop sha wr order running conns [] =
     (if running then ([], Ws_waiting conns) else ws_close_all order conns)"
| "ws_loop sha wr order running conns (Clear_running # is) = ws_loop sha wr order False conns is"
| "ws_loop sha wr order running conns (Wake evs # is) =
     (if \<not> running then ws_close_all order conns
      else let (effs, conns, st) = ws_batch sha wr conns evs
           in if st \<noteq> Ws_done then (effs, Ws_terminated)
              else let (effs', r) = ws_loop sha wr order running conns is in (effs @ effs', r))"

section \<open>Start and stop\<close>

record ws_server =
  server_fd :: int
  epoll_fd :: int
  ws_running :: bool
  ws_joinable :: bool

definition WebSocketServer :: ws_server where
  "WebSocketServer = \<lparr>server_fd = -1, epoll_fd = -1, ws_running = False, ws_joinable = False\<rparr>"

datatype ws_start_result = Ws_started | Ws_throws string | Ws_aborts

text \<open>\<open>sock\<close>, \<open>bound\<close>, \<open>listening\<close> and \<open>ep\<close> are what \<open>socket\<close>, \<open>bind\<close>, \<open>listen\<close> and \<open>epoll_create1\<close> answer.  A thread
  assigned over a joinable one aborts the program.\<close>

definition ws_start :: "int \<Rightarrow> int \<Rightarrow> int \<Rightarrow> int \<Rightarrow> ws_server \<Rightarrow> ws_start_result \<times> ws_server" where
  "ws_start sock bound listening ep s =
     (let s = s\<lparr>server_fd := sock\<rparr> in
      if sock < 0 then (Ws_throws ''socket() failed'', s)
      else if bound < 0 then (Ws_throws ''bind() failed'', s)
      else if listening < 0 then (Ws_throws ''listen() failed'', s)
      else
        let s = s\<lparr>epoll_fd := ep\<rparr> in
        if ep < 0 then (Ws_throws ''epoll_create1() failed'', s)
        else
          let s = s\<lparr>ws_running := True\<rparr> in
          if ws_joinable s then (Ws_aborts, s) else (Ws_started, s\<lparr>ws_joinable := True\<rparr>))"

text \<open>The descriptors closed; joining the thread waits for its loop to end.\<close>

definition ws_stop :: "ws_server \<Rightarrow> int list \<times> ws_server" where
  "ws_stop s =
     ((if server_fd s \<ge> 0 then [server_fd s] else []) @ (if epoll_fd s \<ge> 0 then [epoll_fd s] else []),
      s\<lparr>ws_running := False, ws_joinable := False,
        server_fd := if server_fd s \<ge> 0 then -1 else server_fd s,
        epoll_fd := if epoll_fd s \<ge> 0 then -1 else epoll_fd s\<rparr>)"

section \<open>Descriptors\<close>

definition accepted :: "ws_effect list \<Rightarrow> int set" where
  "accepted es = {fd. EpollAdd fd \<in> set es}"

definition closed :: "ws_effect list \<Rightarrow> int set" where
  "closed es = {fd. CloseFd fd \<in> set es}"

lemma accepted_simps [simp]:
  "accepted [] = {}" "accepted (xs @ ys) = accepted xs \<union> accepted ys"
  "accepted (e # es) = (case e of EpollAdd fd \<Rightarrow> insert fd (accepted es) | _ \<Rightarrow> accepted es)"
  by (auto simp: accepted_def split: ws_effect.split)

lemma closed_simps [simp]:
  "closed [] = {}" "closed (xs @ ys) = closed xs \<union> closed ys"
  "closed (e # es) = (case e of CloseFd fd \<Rightarrow> insert fd (closed es) | _ \<Rightarrow> closed es)"
  by (auto simp: closed_def split: ws_effect.split)

lemma accepted_handshake [simp]: "accepted (fst (do_ws_handshake sha wr c)) = {}"
  by (auto simp: do_ws_handshake_def Let_def split: option.split)

lemma accept_adds:
  "accepted (fst (accept_client conns cfds)) \<union> dom conns = dom (snd (accept_client conns cfds))"
proof (induction cfds arbitrary: conns)
  case (Cons a cfds)
  have "accepted (fst (accept_client (conns(a \<mapsto> WsConnection a)) cfds)) \<union> insert a (dom conns) =
      dom (snd (accept_client (conns(a \<mapsto> WsConnection a)) cfds))"
    using Cons.IH [of "conns(a \<mapsto> WsConnection a)"] by (simp only: dom_fun_upd option.distinct if_False)
  then show ?case by (auto simp: case_prod_beta)
qed simp

lemma accepted_parse: "accepted (fst (parse_ws_frames fd b)) = {}"
proof -
  have "EpollAdd x \<notin> set (fst (parse_ws_frames fd b))" for x
  proof (induction fd b rule: parse_ws_frames.induct)
    case (1 fd b)
    show ?case
      by (subst parse_ws_frames.simps)
         (use 1 in \<open>auto simp: Let_def case_prod_beta pong_writes_def split: option.split\<close>)
  qed
  then show ?thesis by (simp add: accepted_def)
qed

text \<open>No descriptor in \<open>D\<close> leaves the table unless it is closed, and none is added.\<close>

definition conserves :: "int set \<Rightarrow> ws_effect list \<times> ws_conns \<times> ws_status \<Rightarrow> bool" where
  "conserves D r \<longleftrightarrow> accepted (fst r) = {} \<and> dom (fst (snd r)) \<subseteq> D \<and> D \<subseteq> dom (fst (snd r)) \<union> closed (fst r)"

lemma conserves_prefix:
  assumes "conserves D (es, conns, st)" "accepted pre = {}"
  shows "conserves D (pre @ es, conns, st)"
  using assms by (auto simp: conserves_def)

lemma conserves_disconnect: "dom conns = D \<Longrightarrow> conserves D (disconnect fd conns)"
  by (auto simp: conserves_def disconnect_def)

lemma conserves_refl: "dom conns = D \<Longrightarrow> accepted es = {} \<Longrightarrow> conserves D (es, conns, st)"
  by (simp add: conserves_def)

lemma handle_table:
  "conserves (dom conns) (handle_client sha wr fd conns rs)"
proof (induction rs arbitrary: conns)
  case (Cons x rs)
  consider d c where "x = RData d" "conns fd = Some c" | d where "x = RData d" "conns fd = None"
    | "x \<in> {REof, RAgain, RError}" by (cases x; cases "conns fd") auto
  then show ?case
  proof cases
    case (1 d c)
    let ?c = "c\<lparr>recv_buf := recv_buf c @ d\<rparr>"
    have dom: "dom (conns(fd \<mapsto> c')) = dom conns" for c' using 1 by auto
    have step: "conserves (dom conns)
        (let (es, conns', st) = handle_client sha wr fd (conns(fd \<mapsto> c')) rs in (pre @ es, conns', st))"
      if "accepted pre = {}" for pre c'
    proof -
      obtain es conns' st where h: "handle_client sha wr fd (conns(fd \<mapsto> c')) rs = (es, conns', st)"
        by (metis prod.collapse)
      have "conserves (dom conns) (es, conns', st)"
        using Cons.IH [of "conns(fd \<mapsto> c')"] unfolding dom h .
      from conserves_prefix [OF this that] show ?thesis by (simp add: h)
    qed
    obtain e ok where hd: "do_ws_handshake sha wr ?c = (e, ok)" by force
    then have e: "accepted e = {}" using accepted_handshake [of sha wr ?c] by simp
    obtain e' r st where pd: "parse_ws_frames (conn_fd c) (ws_buf c @ d) = (e', r, st)"
      by (metis prod.collapse)
    then have e': "accepted e' = {}" using accepted_parse [of "conn_fd c" "ws_buf c @ d"] by simp
    have quit: "conserves (dom conns)
        (let (es, conns', st) = disconnect fd (conns(fd \<mapsto> ?c)) in (Lock # e @ Unlock # es, conns', st))"
      using conserves_prefix [OF conserves_disconnect [OF dom [of ?c], of fd, unfolded disconnect_def],
          of "Lock # e @ [Unlock]"] e
      by (simp add: disconnect_def)
    show ?thesis
    proof (cases "handshake_done c")
      case True
      then show ?thesis
        using 1 pd e' step [of "Lock # e' @ [Unlock]" "c\<lparr>ws_buf := r\<rparr>"]
          conserves_refl [OF dom, of "Lock # e' @ [Unlock]" "c\<lparr>ws_buf := r\<rparr>" st]
        by (cases st) (simp_all add: Let_def)
    next
      case False
      then show ?thesis
        using 1 hd e quit step [of "Lock # e @ [OnConnect fd, Unlock]" "?c\<lparr>handshake_done := True\<rparr>"]
          step [of "[Lock, Unlock]" ?c]
        by (simp add: Let_def)
    qed
  qed (auto simp: conserves_def disconnect_def split: if_splits)
qed (simp add: conserves_def)

text \<open>Whatever the loop is told, a descriptor that was accepted stays in the table or is closed.\<close>

lemma batch_table:
  assumes "ws_batch sha wr conns evs = (es, conns', st)"
  shows "dom conns' \<subseteq> dom conns \<union> accepted es \<and> dom conns \<union> accepted es \<subseteq> dom conns' \<union> closed es"
  using assms
proof (induction evs arbitrary: conns es)
  case (Cons ev evs)
  show ?case
  proof (cases ev)
    case (Listen cfds)
    obtain e1 c1 e2 where a: "accept_client conns cfds = (e1, c1)"
        and b: "ws_batch sha wr c1 evs = (e2, conns', st)" "es = e1 @ e2"
      using Cons.prems Listen by (auto split: prod.splits)
    have "accepted e1 \<union> dom conns = dom c1" using accept_adds [of conns cfds] by (simp add: a)
    with Cons.IH [OF b(1)] show ?thesis unfolding b(2) accepted_simps closed_simps by blast
  next
    case (Client fd rs)
    obtain e1 c1 s1 where h: "handle_client sha wr fd conns rs = (e1, c1, s1)" by (metis prod.collapse)
    have t: "accepted e1 = {}" "dom c1 \<subseteq> dom conns" "dom conns \<subseteq> dom c1 \<union> closed e1"
      using handle_table [of conns sha wr fd rs] by (simp_all add: h conserves_def)
    show ?thesis
    proof (cases "s1 = Ws_done")
      case True
      then obtain e2 where b: "ws_batch sha wr c1 evs = (e2, conns', st)" "es = e1 @ e2"
        using Cons.prems Client h by (auto split: prod.splits)
      from Cons.IH [OF b(1)] t show ?thesis unfolding b(2) accepted_simps closed_simps by blast
    next
      case False
      then have "es = e1" "conns' = c1" using Cons.prems Client h by auto
      then show ?thesis using t by blast
    qed
  qed
qed simp

lemma finite_accepted: "finite (accepted es)"
proof -
  have "accepted es \<subseteq> (\<Union>e\<in>set es. case e of EpollAdd fd \<Rightarrow> {fd} | _ \<Rightarrow> {})"
    by (force simp: accepted_def)
  then show ?thesis by (rule finite_subset) (auto split: ws_effect.split)
qed

definition lists_table :: "(ws_conns \<Rightarrow> int list) \<Rightarrow> bool" where
  "lists_table order \<longleftrightarrow> (\<forall>conns. finite (dom conns) \<longrightarrow> set (order conns) = dom conns)"

lemma close_all_closes:
  assumes "lists_table order" "finite (dom conns)" "ws_close_all order conns = (es, r)"
  shows "dom conns \<union> accepted es \<subseteq> closed es"
proof -
  have "set (order conns) = dom conns" using assms by (simp add: lists_table_def)
  moreover have "es = Lock # map CloseFd (order conns) @ [Unlock]" using assms(3) by (simp add: ws_close_all_def)
  ultimately have "closed es = dom conns" "accepted es = {}"
    unfolding accepted_def closed_def by auto
  then show ?thesis by simp
qed

lemma loop_closes:
  assumes "lists_table order" "finite (dom conns)" "ws_loop sha wr order running conns is = (es, Ws_ended)"
  shows "dom conns \<union> accepted es \<subseteq> closed es"
  using assms(2-3)
proof (induction "is" arbitrary: running conns es)
  case Nil
  then show ?case using close_all_closes [OF assms(1)] by (auto split: if_splits)
next
  case (Cons i "is")
  show ?case
  proof (cases "i = Clear_running \<or> \<not> running")
    case True
    then show ?thesis using Cons close_all_closes [OF assms(1)] by (cases i) auto
  next
    case False
    then obtain evs where i: "i = Wake evs" and running: running by (cases i) auto
    obtain e1 c1 st where b: "ws_batch sha wr conns evs = (e1, c1, st)" by (metis prod.collapse)
    with Cons.prems(2) i running obtain e2
      where l: "ws_loop sha wr order running c1 is = (e2, Ws_ended)" and es: "es = e1 @ e2"
      by (auto split: prod.splits if_splits)
    have t: "dom c1 \<subseteq> dom conns \<union> accepted e1" "dom conns \<union> accepted e1 \<subseteq> dom c1 \<union> closed e1"
      using batch_table [OF b] by auto
    then have "finite (dom c1)" using Cons.prems(1) finite_accepted [of e1] by (auto intro: finite_subset)
    from Cons.IH [OF this l] t show ?thesis unfolding es accepted_simps closed_simps by blast
  qed
qed

lemma loop_ends:
  "snd (ws_loop sha wr order running conns (is @ [Clear_running])) \<in> {Ws_ended, Ws_terminated}"
proof (induction "is" arbitrary: running conns)
  case Nil
  show ?case by (simp add: ws_close_all_def)
next
  case (Cons i "is")
  then show ?case by (cases i) (auto simp: ws_close_all_def case_prod_beta Let_def)
qed

section \<open>Properties\<close>

text \<open>C33. Once \<open>running_\<close> has been cleared the thread ends, and then every descriptor it ever accepted has been
  closed, whatever the clients sent, in whatever batches; the one other way out is an exception of the frame
  parser.\<close>

theorem ws_stop_closes_all:
  assumes "lists_table order" "ws_loop sha wr order True Map.empty (is @ [Clear_running]) = (es, r)"
  shows "r = Ws_terminated \<or> r = Ws_ended \<and> accepted es \<subseteq> closed es"
proof -
  have "r \<in> {Ws_ended, Ws_terminated}"
    using loop_ends [of sha wr order True Map.empty "is"] by (simp add: assms(2))
  moreover have "accepted es \<subseteq> closed es" if "r = Ws_ended"
    using loop_closes [OF assms(1) _ assms(2) [unfolded that]] by simp
  ultimately show ?thesis by blast
qed

definition some_order :: "ws_conns \<Rightarrow> int list" where
  "some_order conns = sorted_list_of_set (dom conns)"

lemma lists_some_order: "lists_table some_order"
  by (simp add: lists_table_def some_order_def)

lemma ws_stop_closes_all_witness:
  "ws_loop id (\<lambda>_. 0) some_order True Map.empty ([Wake [Listen [7, 8], Client 8 [REof]]] @ [Clear_running]) =
     ([EpollAdd 7, Lock, Unlock, EpollAdd 8, Lock, Unlock, Lock, Unlock, EpollDel 8, CloseFd 8, OnDisconnect 8,
       Lock, CloseFd 7, Unlock], Ws_ended) \<and>
   (Ws_ended = Ws_terminated \<or> Ws_ended = Ws_ended \<and>
    accepted [EpollAdd 7, Lock, Unlock, EpollAdd 8, Lock, Unlock, Lock, Unlock, EpollDel 8, CloseFd 8, OnDisconnect 8,
       Lock, CloseFd 7, Unlock] \<subseteq>
    closed [EpollAdd 7, Lock, Unlock, EpollAdd 8, Lock, Unlock, Lock, Unlock, EpollDel 8, CloseFd 8, OnDisconnect 8,
       Lock, CloseFd 7, Unlock])"
proof -
  have "ws_loop id (\<lambda>_. 0) some_order True Map.empty ([Wake [Listen [7, 8], Client 8 [REof]]] @ [Clear_running]) =
     ([EpollAdd 7, Lock, Unlock, EpollAdd 8, Lock, Unlock, Lock, Unlock, EpollDel 8, CloseFd 8, OnDisconnect 8,
       Lock, CloseFd 7, Unlock], Ws_ended)"
    by (simp add: disconnect_def ws_close_all_def some_order_def)
  then show ?thesis using ws_stop_closes_all [OF lists_some_order] by blast
qed

text \<open>C36. A client ends the process.  Ten bytes of an open client, a frame header whose length wraps the
  \<open>size_t\<close> sum of the parser, end every connection of the server: the exception leaves the loop and the thread,
  whatever the other clients and the operating system do next.\<close>

theorem ws_ten_bytes_terminate:
  fixes n :: u64
  assumes "conns fd = Some c" "handshake_done c" "ws_buf c = []" "unat n > 2 ^ 64 - 10"
  shows "ws_loop sha wr order True conns
      (Wake (Client fd (RData ([b0, 127] @ map (\<lambda>i. byte_at (7 - i) n) [0..<8]) # rs) # evs) # is) =
    ([Lock, Unlock], Ws_terminated)"
  using assms(1-3) length_wraps [OF assms(4), of "conn_fd c" b0 "[]"]
  by (simp add: Let_def)

lemma ws_ten_bytes_terminate_witness:
  "ws_loop id (\<lambda>_. 0) some_order True [4 \<mapsto> WsConnection 4\<lparr>handshake_done := True\<rparr>]
      [Wake [Client 4 [RData ([0x81, 127] @ map (\<lambda>i. byte_at (7 - i) (-1 :: u64)) [0..<8])]], Clear_running] =
    ([Lock, Unlock], Ws_terminated)"
  by (rule ws_ten_bytes_terminate [where c = "WsConnection 4\<lparr>handshake_done := True\<rparr>"])
    (simp_all add: WsConnection_def unsigned_minus_1_eq_mask mask_eq_exp_minus_1)

text \<open>A descriptor closed twice.  On a Close frame the server closes the descriptor and goes on reading from it.  Unless
  another thread has opened the number again meanwhile, that \<open>read\<close> fails (\<open>EBADF\<close>), and the disconnection takes the entry
  out of the table, closes the number once more, whosever it is by then, and calls \<open>on_disconnect_\<close>.\<close>

theorem ws_close_frame_closes_twice:
  assumes "conns fd = Some c" "handshake_done c" "ws_buf c = []" "conn_fd c = fd"
  shows "handle_client sha wr fd conns [RData [0x88, 0x80, k0, k1, k2, k3], RError] =
    ([Lock, CloseFd fd, Unlock, Lock, Unlock, EpollDel fd, CloseFd fd, OnDisconnect fd], conns(fd := None), Ws_done)"
proof -
  have "parse_ws_frames fd [0x88, 0x80, k0, k1, k2, k3] = ([CloseFd fd], [], Ws_done)"
    by (subst parse_ws_frames.simps)
      (simp add: Let_def ws_length_def ws_total_def ws_masked_def ws_payload_def string_max_size_def)
  then show ?thesis using assms by (simp add: disconnect_def)
qed

lemma ws_close_frame_closes_twice_witness:
  "handle_client id (\<lambda>_. 0) 4 [4 \<mapsto> WsConnection 4\<lparr>handshake_done := True\<rparr>] [RData [0x88, 0x80, 1, 2, 3, 4], RError] =
    ([Lock, CloseFd 4, Unlock, Lock, Unlock, EpollDel 4, CloseFd 4, OnDisconnect 4], Map.empty, Ws_done)"
  using ws_close_frame_closes_twice [of "[4 \<mapsto> WsConnection 4\<lparr>handshake_done := True\<rparr>]" 4
      "WsConnection 4\<lparr>handshake_done := True\<rparr>"]
  by (simp add: WsConnection_def)

text \<open>\<open>stop\<close> gives back exactly the descriptors that \<open>start\<close> took, also when \<open>start\<close> threw half way, and a server
  that was started is as new after it; a second \<open>start\<close> without a \<open>stop\<close> loses the first listening socket and
  aborts.\<close>

theorem ws_lifecycle:
  "let (r, s) = ws_start sock bound listening ep WebSocketServer in
    fst (ws_stop s) = (if sock < 0 then [] else if bound < 0 \<or> listening < 0 \<or> ep < 0 then [sock] else [sock, ep]) \<and>
    (if sock < 0 \<or> bound < 0 \<or> listening < 0 \<or> ep < 0 then r \<noteq> Ws_started
     else r = Ws_started \<and> snd (ws_stop s) = WebSocketServer \<and>
       (let (r', s') = ws_start (sock + 1) 0 0 (ep + 1) s in r' = Ws_aborts \<and> server_fd s' = sock + 1))"
  by (simp add: ws_start_def ws_stop_def WebSocketServer_def Let_def)

end
