(* ===== verification/DtlsInit.thy ===== *)
theory DtlsInit
  imports Dtls
begin

text \<open>
  Setting up and tearing down \<open>DtlsTransport\<close> (\<open>module04_dtls_srtp/src/dtls_transport.cpp\<close>): the calls of OpenSSL that
  \<open>init\<close>, \<open>generate_self_signed_cert\<close> and the destructor make, in their order, on every path, and which objects
  the program has to release at each point.  Whether an allocation succeeds is an argument.
\<close>

section \<open>Calls\<close>

text \<open>The objects the code allocates, and the calls it makes, with the arguments that are not these objects;
  \<open>X509_gmtime_adj\<close> is told which of the two dates it sets.\<close>

datatype ossl = Ctx | Pkey | Rsa | Cert | Ssl | Rbio | Wbio

datatype date = NotBefore | NotAfter

datatype ossl_call =
    SSL_CTX_new bool
  | SSL_CTX_free
  | SSL_CTX_set_cipher_list string
  | SSL_CTX_set_verify_none
  | SSL_CTX_set_tlsext_use_srtp string
  | SSL_CTX_use_certificate
  | SSL_CTX_use_PrivateKey
  | EVP_PKEY_new
  | EVP_PKEY_assign_RSA
  | EVP_PKEY_free
  | RSA_generate_key int
  | X509_new
  | X509_set_serial int
  | X509_gmtime_adj date int
  | X509_set_pubkey
  | X509_NAME_add_entry string string
  | X509_set_issuer_from_subject
  | X509_sign string
  | X509_free
  | SSL_new
  | BIO_new ossl
  | BIO_set_mem_eof_return ossl int
  | SSL_set_bio
  | SSL_set_accept_state
  | SSL_set_connect_state
  | SSL_free

definition generate_self_signed_cert :: "(ossl \<Rightarrow> bool) \<Rightarrow> ossl_call list \<times> bool" where
  "generate_self_signed_cert alloc =
     (if \<not> alloc Pkey then ([EVP_PKEY_new], False)
      else if \<not> alloc Rsa then ([EVP_PKEY_new, RSA_generate_key 2048, EVP_PKEY_free], False)
      else if \<not> alloc Cert
      then ([EVP_PKEY_new, RSA_generate_key 2048, EVP_PKEY_assign_RSA, X509_new, EVP_PKEY_free], False)
      else
        ([EVP_PKEY_new, RSA_generate_key 2048, EVP_PKEY_assign_RSA, X509_new,
          X509_set_serial 1,
          X509_gmtime_adj NotBefore (- 365 * 24 * 3600),
          X509_gmtime_adj NotAfter (365 * 24 * 3600),
          X509_set_pubkey,
          X509_NAME_add_entry ''CN'' ''dtls_test'',
          X509_set_issuer_from_subject,
          X509_sign ''sha256'',
          SSL_CTX_use_certificate,
          SSL_CTX_use_PrivateKey,
          X509_free, EVP_PKEY_free], True))"

text \<open>The pointers of the object, which are set or null.\<close>

record dtls_handles =
  has_ctx :: bool
  has_ssl :: bool
  has_rbio :: bool
  has_wbio :: bool

definition DtlsTransport_new :: dtls_handles where
  "DtlsTransport_new = \<lparr>has_ctx = False, has_ssl = False, has_rbio = False, has_wbio = False\<rparr>"

definition dtls_init ::
    "bool \<Rightarrow> (ossl \<Rightarrow> bool) \<Rightarrow> dtls_handles \<Rightarrow> ossl_call list \<times> bool \<times> dtls_handles" where
  "dtls_init is_server alloc h =
     (let cs = [SSL_CTX_new is_server]; h = h\<lparr>has_ctx := alloc Ctx\<rparr> in
      if \<not> has_ctx h then (cs, False, h)
      else
        let (cert, ok) = generate_self_signed_cert alloc; cs = cs @ cert in
        if \<not> ok then (cs @ [SSL_CTX_free], False, h\<lparr>has_ctx := False\<rparr>)
        else
          let cs = cs @ [SSL_CTX_set_cipher_list ''DEFAULT:!NULL:!aNULL:!SHA256:!SHA384:!aECDH:!AESGCM+AES256:!aPSK'',
                SSL_CTX_set_verify_none, SSL_CTX_set_tlsext_use_srtp ''SRTP_AES128_CM_SHA1_80'', SSL_new];
              h = h\<lparr>has_ssl := alloc Ssl\<rparr> in
          if \<not> has_ssl h then (cs, False, h)
          else
            let cs = cs @ [BIO_new Rbio, BIO_new Wbio];
                h = h\<lparr>has_rbio := alloc Rbio, has_wbio := alloc Wbio\<rparr> in
            if \<not> has_rbio h \<or> \<not> has_wbio h then (cs, False, h)
            else
              (cs @ [BIO_set_mem_eof_return Rbio (-1), BIO_set_mem_eof_return Wbio (-1), SSL_set_bio,
                 if is_server then SSL_set_accept_state else SSL_set_connect_state], True, h))"

definition dtls_destroy :: "dtls_handles \<Rightarrow> ossl_call list \<times> dtls_handles" where
  "dtls_destroy h =
     ((if has_ssl h then [SSL_free] else []) @ (if has_ctx h then [SSL_CTX_free] else []),
      h\<lparr>has_ssl := False, has_ctx := False\<rparr>)"

section \<open>Ownership\<close>

text \<open>The objects a call works on, the one it allocates, and those the program need not release any more after
  it, because the call frees them or makes another object their owner.\<close>

fun uses :: "ossl_call \<Rightarrow> ossl set" where
  "uses (SSL_CTX_new _) = {}"
| "uses SSL_CTX_free = {Ctx}"
| "uses (SSL_CTX_set_cipher_list _) = {Ctx}"
| "uses SSL_CTX_set_verify_none = {Ctx}"
| "uses (SSL_CTX_set_tlsext_use_srtp _) = {Ctx}"
| "uses SSL_CTX_use_certificate = {Ctx, Cert}"
| "uses SSL_CTX_use_PrivateKey = {Ctx, Pkey}"
| "uses EVP_PKEY_new = {}"
| "uses EVP_PKEY_assign_RSA = {Pkey, Rsa}"
| "uses EVP_PKEY_free = {Pkey}"
| "uses (RSA_generate_key _) = {}"
| "uses X509_new = {}"
| "uses (X509_set_serial _) = {Cert}"
| "uses (X509_gmtime_adj _ _) = {Cert}"
| "uses X509_set_pubkey = {Cert, Pkey}"
| "uses (X509_NAME_add_entry _ _) = {Cert}"
| "uses X509_set_issuer_from_subject = {Cert}"
| "uses (X509_sign _) = {Cert, Pkey}"
| "uses X509_free = {Cert}"
| "uses SSL_new = {Ctx}"
| "uses (BIO_new _) = {}"
| "uses (BIO_set_mem_eof_return b _) = {b}"
| "uses SSL_set_bio = {Ssl, Rbio, Wbio}"
| "uses SSL_set_accept_state = {Ssl}"
| "uses SSL_set_connect_state = {Ssl}"
| "uses SSL_free = {Ssl}"

fun allocates :: "ossl_call \<Rightarrow> ossl set" where
  "allocates (SSL_CTX_new _) = {Ctx}"
| "allocates EVP_PKEY_new = {Pkey}"
| "allocates (RSA_generate_key _) = {Rsa}"
| "allocates X509_new = {Cert}"
| "allocates SSL_new = {Ssl}"
| "allocates (BIO_new b) = {b}"
| "allocates _ = {}"

fun disposes :: "ossl_call \<Rightarrow> ossl set" where
  "disposes SSL_CTX_free = {Ctx}"
| "disposes EVP_PKEY_assign_RSA = {Rsa}"
| "disposes EVP_PKEY_free = {Pkey}"
| "disposes X509_free = {Cert}"
| "disposes SSL_set_bio = {Rbio, Wbio}"
| "disposes SSL_free = {Ssl}"
| "disposes _ = {}"

text \<open>What the program has to release after a run of calls, unless one of them works on an object that is not
  there or overwrites the pointer to one that is.\<close>

fun track :: "(ossl \<Rightarrow> bool) \<Rightarrow> ossl set \<Rightarrow> ossl_call list \<Rightarrow> ossl set option" where
  "track alloc owned [] = Some owned"
| "track alloc owned (c # cs) =
     (if uses c \<subseteq> owned \<and> allocates c \<inter> owned = {}
      then track alloc ((owned \<union> {x \<in> allocates c. alloc x}) - disposes c) cs
      else None)"

lemma track_append:
  "track alloc owned (cs @ cs') = (case track alloc owned cs of None \<Rightarrow> None | Some o' \<Rightarrow> track alloc o' cs')"
  by (induction cs arbitrary: owned) auto

lemma filter_single: "{x. x = a \<and> P x} = (if P a then {a} else {})"
  by auto

lemma track_cert:
  "track alloc {Ctx} (fst (generate_self_signed_cert alloc)) = Some {Ctx}"
  "snd (generate_self_signed_cert alloc) \<longleftrightarrow> alloc Pkey \<and> alloc Rsa \<and> alloc Cert"
  by (auto simp: generate_self_signed_cert_def filter_single insert_Diff_if)

section \<open>Properties\<close>

text \<open>C37. Setting up and tearing down.  Whichever allocations fail, no call works on an object that was not
  allocated or is gone, \<open>init\<close> succeeds exactly if they all succeed, and after the destructor nothing is left to
  release, with one exception: when exactly one of the two BIOs could be allocated it is lost.\<close>

theorem dtls_memory:
  "let (cs, ok, h) = dtls_init is_server alloc DtlsTransport_new in
    ok = (alloc Ctx \<and> alloc Pkey \<and> alloc Rsa \<and> alloc Cert \<and> alloc Ssl \<and> alloc Rbio \<and> alloc Wbio) \<and>
    track alloc {} (cs @ fst (dtls_destroy h)) =
      Some (if alloc Ctx \<and> alloc Pkey \<and> alloc Rsa \<and> alloc Cert \<and> alloc Ssl \<and> alloc Rbio \<noteq> alloc Wbio
            then (if alloc Rbio then {Rbio} else {Wbio}) else {})"
proof -
  obtain cert ok where c: "generate_self_signed_cert alloc = (cert, ok)" by force
  then have t: "track alloc {Ctx} (cert @ cs) = track alloc {Ctx} cs" for cs
    using track_cert(1) [of alloc] by (simp add: track_append)
  have ok: "ok \<longleftrightarrow> alloc Pkey \<and> alloc Rsa \<and> alloc Cert" using track_cert(2) [of alloc] by (simp add: c)
  show ?thesis
  proof (cases "alloc Ctx \<and> ok")
    case False
    then show ?thesis
      using t by (cases "alloc Ctx") (auto simp: dtls_init_def dtls_destroy_def DtlsTransport_new_def c ok filter_single)
  next
    case True
    then show ?thesis
      using t ok
      by (cases "alloc Ssl"; cases "alloc Rbio"; cases "alloc Wbio"; cases is_server)
        (simp_all add: dtls_init_def dtls_destroy_def DtlsTransport_new_def c filter_single insert_Diff_if)
  qed
qed

end
