(* ===== verification/RingMemory.thy ===== *)
theory RingMemory
  imports RingBuffer
begin

text \<open>
  The two threads of \<open>net::RingBuffer<T, N>\<close> (\<open>module01_network_core/include/net/ring_buffer.h\<close>) on a machine with weak memory.
  A load of the other thread's index may return an old value, and an access to a slot is ordered after one of the
  other thread only through a store with release order that a load with acquire order has read.  The orders are
  those the code asks for.
\<close>

section \<open>The machine\<close>

datatype memory_order = Relaxed | Acquire | Release

text \<open>An atomic variable is the list of the values stored to it, each with the number of slot accesses of the storing
  thread that are visible with it.\<close>

type_synonym cell = "(u64 \<times> nat) list"

definition store_order :: "memory_order \<Rightarrow> nat \<Rightarrow> nat" where
  "store_order order done = (if order = Release then done else 0)"

definition load_order :: "memory_order \<Rightarrow> nat \<Rightarrow> nat \<Rightarrow> nat" where
  "load_order order visible known = (if order = Acquire then max known visible else known)"

text \<open>An access to a slot races with those in the other thread's log of accesses to the same slot that are not
  known to come before it.\<close>

definition races :: "nat \<Rightarrow> nat list \<Rightarrow> nat \<Rightarrow> bool" where
  "races known log slot \<longleftrightarrow> slot \<in> set (drop known log)"

text \<open>Each thread has the position of the value it has last read of the other's index, behind which it cannot go, and
  the number of slot accesses of the other that it knows to be over.  \<open>writes\<close> and \<open>reads\<close> are the logs.\<close>

record 'a ring_memory =
  head_cell :: cell
  tail_cell :: cell
  memory :: "'a list"
  writes :: "nat list"
  reads :: "nat list"
  tail_seen :: nat
  reads_known :: nat
  head_seen :: nat
  writes_known :: nat
  pushing :: "'a producer"
  popping :: "'a consumer"
  pushed :: "'a list"
  popped :: "'a list"
  raced :: bool

text \<open>A thread's load of its own index reads what it stored last.\<close>

inductive ra_step :: "u64 \<Rightarrow> 'a ring_memory \<Rightarrow> 'a ring_memory \<Rightarrow> bool" for N where
  push_load: "pushing s = PIdle \<Longrightarrow> ra_step N s (s\<lparr>pushing := PLoaded x (fst (last (head_cell s)))\<rparr>)"
| push_full: "pushing s = PLoaded x h \<Longrightarrow> tail_seen s \<le> i \<Longrightarrow> i < length (tail_cell s) \<Longrightarrow>
    tail_cell s ! i = (t, v) \<Longrightarrow> (h + 1) AND (N - 1) = t \<Longrightarrow>
    ra_step N s (s\<lparr>pushing := PIdle, tail_seen := i, reads_known := load_order Acquire v (reads_known s)\<rparr>)"
| push_check: "pushing s = PLoaded x h \<Longrightarrow> tail_seen s \<le> i \<Longrightarrow> i < length (tail_cell s) \<Longrightarrow>
    tail_cell s ! i = (t, v) \<Longrightarrow> (h + 1) AND (N - 1) \<noteq> t \<Longrightarrow>
    ra_step N s (s\<lparr>pushing := PChecked x h, tail_seen := i, reads_known := load_order Acquire v (reads_known s)\<rparr>)"
| push_write: "pushing s = PChecked x h \<Longrightarrow>
    ra_step N s (s\<lparr>memory := (memory s)[unat h := x], writes := writes s @ [unat h],
      raced := raced s \<or> races (reads_known s) (reads s) (unat h), pushing := PWritten x h\<rparr>)"
| push_publish: "pushing s = PWritten x h \<Longrightarrow>
    ra_step N s (s\<lparr>head_cell := head_cell s @ [((h + 1) AND (N - 1), store_order Release (length (writes s)))],
      pushing := PIdle, pushed := pushed s @ [x]\<rparr>)"
| pop_load: "popping s = CIdle \<Longrightarrow> ra_step N s (s\<lparr>popping := CLoaded (fst (last (tail_cell s)))\<rparr>)"
| pop_empty: "popping s = CLoaded t \<Longrightarrow> head_seen s \<le> i \<Longrightarrow> i < length (head_cell s) \<Longrightarrow>
    head_cell s ! i = (h, v) \<Longrightarrow> t = h \<Longrightarrow>
    ra_step N s (s\<lparr>popping := CIdle, head_seen := i, writes_known := load_order Acquire v (writes_known s)\<rparr>)"
| pop_check: "popping s = CLoaded t \<Longrightarrow> head_seen s \<le> i \<Longrightarrow> i < length (head_cell s) \<Longrightarrow>
    head_cell s ! i = (h, v) \<Longrightarrow> t \<noteq> h \<Longrightarrow>
    ra_step N s (s\<lparr>popping := CChecked t, head_seen := i, writes_known := load_order Acquire v (writes_known s)\<rparr>)"
| pop_read: "popping s = CChecked t \<Longrightarrow>
    ra_step N s (s\<lparr>reads := reads s @ [unat t], raced := raced s \<or> races (writes_known s) (writes s) (unat t),
      popping := CRead t (memory s ! unat t)\<rparr>)"
| pop_release: "popping s = CRead t x \<Longrightarrow>
    ra_step N s (s\<lparr>tail_cell := tail_cell s @ [((t + 1) AND (N - 1), store_order Release (length (reads s)))],
      popping := CIdle, popped := popped s @ [x]\<rparr>)"

definition ra_init :: "u64 \<Rightarrow> 'a \<Rightarrow> 'a ring_memory" where
  "ra_init N z = \<lparr>head_cell = [(0, 0)], tail_cell = [(0, 0)], memory = replicate (unat N) z, writes = [], reads = [],
     tail_seen = 0, reads_known = 0, head_seen = 0, writes_known = 0, pushing = PIdle, popping = CIdle,
     pushed = [], popped = [], raced = False\<rparr>"

inductive ra_reachable :: "u64 \<Rightarrow> 'a \<Rightarrow> 'a ring_memory \<Rightarrow> bool" for N z where
  start: "ra_reachable N z (ra_init N z)"
| step: "ra_reachable N z s \<Longrightarrow> ra_step N s s' \<Longrightarrow> ra_reachable N z s'"

section \<open>Positions\<close>

text \<open>The \<open>k\<close>-th value stored to an index.\<close>

definition pos :: "u64 \<Rightarrow> nat \<Rightarrow> u64" where
  "pos N k = of_nat (k mod unat N)"

lemma unat_pos: "pow2_size N \<Longrightarrow> unat (pos N k) = k mod unat N"
proof -
  assume "pow2_size N"
  then have "k mod unat N < unat N" by (simp add: pow2_size_pos)
  also have "\<dots> < 2 ^ 64" using unsigned_less [of N] by simp
  finally show ?thesis by (simp add: pos_def take_bit_eq_mod unsigned_of_nat)
qed

lemma pos_0 [simp]: "pos N 0 = 0"
  by (simp add: pos_def)

lemma pos_next:
  assumes "pow2_size N"
  shows "(pos N k + 1) AND (N - 1) = pos N (Suc k)"
proof -
  have "unat ((pos N k + 1) AND (N - 1)) = (k mod unat N + 1) mod unat N"
    using next_index [OF assms, of "pos N k"] by (simp add: unat_pos assms pow2_size_pos)
  also have "\<dots> = unat (pos N (Suc k))" by (simp add: unat_pos assms mod_Suc_eq)
  finally show ?thesis by (simp add: word_unat_eq_iff)
qed

lemma pos_eq: "pow2_size N \<Longrightarrow> pos N j = pos N k \<longleftrightarrow> j mod unat N = k mod unat N"
  by (simp add: word_unat_eq_iff unat_pos)

lemma mod_near: "j mod n = k mod n \<Longrightarrow> j \<le> k \<Longrightarrow> k < j + n \<Longrightarrow> j = (k :: nat)"
proof -
  assume "j mod n = k mod n" "j \<le> k" "k < j + n"
  then have "n dvd k - j" "k - j < n" using mod_eq_dvd_iff_nat [of j k n] by auto
  then have "k - j = 0" by (meson nat_dvd_not_less not_gr_zero)
  then show "j = k" using \<open>j \<le> k\<close> by simp
qed

section \<open>The invariant\<close>

definition counted :: "u64 \<Rightarrow> nat \<Rightarrow> cell" where
  "counted N n = map (\<lambda>k. (pos N k, k)) [0..<Suc n]"

definition slot_log :: "u64 \<Rightarrow> nat \<Rightarrow> nat list" where
  "slot_log N n = map (\<lambda>k. k mod unat N) [0..<n]"

lemma counted_simps [simp]:
  "length (counted N n) = Suc n" "i \<le> n \<Longrightarrow> counted N n ! i = (pos N i, i)" "last (counted N n) = (pos N n, n)"
  "counted N n @ [(pos N (Suc n), Suc n)] = counted N (Suc n)"
  by (simp_all add: counted_def del: upt_Suc) (simp_all add: nth_append)

lemma slot_log_simps [simp]:
  "length (slot_log N n) = n" "slot_log N n @ [n mod unat N] = slot_log N (Suc n)"
  by (simp_all add: slot_log_def)

lemma no_race:
  assumes "\<And>k. known \<le> k \<Longrightarrow> k < n \<Longrightarrow> k mod unat N \<noteq> slot"
  shows "\<not> races known (slot_log N n) slot"
proof -
  have "drop known (slot_log N n) = map (\<lambda>k. k mod unat N) [known..<n]"
    by (simp add: slot_log_def drop_map)
  then show ?thesis using assms by (fastforce simp: races_def)
qed

text \<open>\<open>h\<close> items have been published and \<open>t\<close> taken out; \<open>items\<close> are those written to a slot.\<close>

fun push_ok :: "u64 \<Rightarrow> nat \<Rightarrow> nat \<Rightarrow> 'a producer \<Rightarrow> bool" where
  "push_ok N seen h PIdle \<longleftrightarrow> True"
| "push_ok N seen h (PLoaded x p) \<longleftrightarrow> p = pos N h"
| "push_ok N seen h (PChecked x p) \<longleftrightarrow> p = pos N h \<and> Suc h < seen + unat N"
| "push_ok N seen h (PWritten x p) \<longleftrightarrow> p = pos N h \<and> Suc h < seen + unat N"

fun pop_ok :: "u64 \<Rightarrow> nat \<Rightarrow> nat \<Rightarrow> 'a list \<Rightarrow> 'a consumer \<Rightarrow> bool" where
  "pop_ok N seen t items CIdle \<longleftrightarrow> True"
| "pop_ok N seen t items (CLoaded p) \<longleftrightarrow> p = pos N t"
| "pop_ok N seen t items (CChecked p) \<longleftrightarrow> p = pos N t \<and> t < seen"
| "pop_ok N seen t items (CRead p x) \<longleftrightarrow> p = pos N t \<and> t < seen \<and> x = items ! t"

fun written :: "'a producer \<Rightarrow> 'a list" where
  "written (PWritten x p) = [x]"
| "written _ = []"

fun taking :: "'a consumer \<Rightarrow> nat" where
  "taking (CRead p x) = 1"
| "taking _ = 0"

definition ra_inv :: "u64 \<Rightarrow> 'a ring_memory \<Rightarrow> bool" where
  "ra_inv N s \<longleftrightarrow>
     (let h = length (pushed s); t = length (popped s); items = pushed s @ written (pushing s) in
      head_cell s = counted N h \<and> tail_cell s = counted N t \<and>
      writes s = slot_log N (length items) \<and> reads s = slot_log N (t + taking (popping s)) \<and>
      reads_known s = tail_seen s \<and> writes_known s = head_seen s \<and>
      tail_seen s \<le> t \<and> t \<le> head_seen s \<and> head_seen s \<le> h \<and> h < tail_seen s + unat N \<and>
      length (memory s) = unat N \<and>
      (\<forall>k. t \<le> k \<longrightarrow> k < length items \<longrightarrow> memory s ! (k mod unat N) = items ! k) \<and>
      popped s = take t (pushed s) \<and>
      push_ok N (tail_seen s) h (pushing s) \<and> pop_ok N (head_seen s) t items (popping s) \<and>
      \<not> raced s)"

lemma ra_inv_init: "pow2_size N \<Longrightarrow> ra_inv N (ra_init N z)"
  by (simp add: ra_inv_def ra_init_def counted_def slot_log_def pow2_size_pos)

text \<open>The slot that is written holds none of the items that are still to be read, and is not being read.\<close>

lemma write_apart:
  assumes "Suc h < seen + n" "seen \<le> k" "k < h"
  shows "k mod n \<noteq> h mod (n :: nat)"
  using mod_near [of k n h] assms by auto

lemma pop_ok_grows:
  "pop_ok N seen t items c \<Longrightarrow> seen \<le> length items \<Longrightarrow> pop_ok N seen t (items @ xs) c"
  by (cases c) (auto simp: nth_append)

lemma ra_step_inv:
  assumes N: "pow2_size N"
  shows "ra_step N s s' \<Longrightarrow> ra_inv N s \<Longrightarrow> ra_inv N s'"
proof (induction rule: ra_step.induct)
  case (push_check s x h i t v)
  let ?h = "length (pushed s)"
  from push_check have inv: "h = pos N ?h" "tail_cell s = counted N (length (popped s))"
      "?h < tail_seen s + unat N" by (auto simp: ra_inv_def Let_def)
  with push_check have "t = pos N i" "v = i" by auto
  moreover have "Suc ?h \<noteq> i + unat N"
  proof
    assume "Suc ?h = i + unat N"
    then have "pos N (Suc ?h) = pos N i" by (simp add: pos_eq N)
    then show False using push_check(5) inv(1) \<open>t = pos N i\<close> by (simp add: pos_next N)
  qed
  ultimately show ?case using push_check inv(3) by (simp add: ra_inv_def Let_def load_order_def)
next
  case (push_write s x h)
  let ?h = "length (pushed s)" and ?n = "unat N"
  from push_write have inv: "h = pos N ?h" "Suc ?h < tail_seen s + ?n" "tail_seen s \<le> length (popped s)"
      "reads s = slot_log N (length (popped s) + taking (popping s))" "reads_known s = tail_seen s"
      "length (popped s) \<le> ?h" "popping s = CRead p y \<Longrightarrow> length (popped s) < ?h" for p y
    by (auto simp: ra_inv_def Let_def)
  have "length (popped s) + taking (popping s) \<le> ?h" using inv(6,7) by (cases "popping s") auto
  then have "\<not> races (reads_known s) (reads s) (unat h)"
    unfolding inv(4,5) using write_apart [OF inv(2)] by (intro no_race) (simp add: inv(1) unat_pos N)
  moreover have "(memory s)[?h mod ?n := x] ! (k mod ?n) = (pushed s @ [x]) ! k"
    if "length (popped s) \<le> k" "k < Suc ?h" "\<And>k. length (popped s) \<le> k \<Longrightarrow> k < ?h \<Longrightarrow> memory s ! (k mod ?n) = pushed s ! k"
      "length (memory s) = ?n" for k
    using that write_apart [OF inv(2), of k] inv(3) pow2_size_pos [OF N] by (cases "k = ?h") (auto simp: nth_append)
  moreover have "pop_ok N (head_seen s) (length (popped s)) (pushed s @ [x]) (popping s)"
    using push_write by (intro pop_ok_grows) (simp_all add: ra_inv_def Let_def)
  ultimately show ?case
    using push_write inv(1-6) by (simp add: ra_inv_def Let_def unat_pos N)
next
  case (push_publish s x h)
  then show ?case
    by (simp add: ra_inv_def Let_def store_order_def pos_next N)
next
  case (pop_check s t i h v)
  then have "h = pos N i" "v = i" "t = pos N (length (popped s))" "i \<le> length (pushed s)"
    by (auto simp: ra_inv_def Let_def)
  with pop_check show ?case by (auto simp: ra_inv_def Let_def load_order_def le_less)
next
  case (pop_read s t)
  let ?t = "length (popped s)" and ?n = "unat N"
  from pop_read have inv: "t = pos N ?t" "?t < head_seen s" "head_seen s \<le> length (pushed s)"
      "writes s = slot_log N (length (pushed s @ written (pushing s)))" "writes_known s = head_seen s"
      "length (pushed s @ written (pushing s)) < ?t + ?n"
    by (cases "pushing s"; auto simp: ra_inv_def Let_def)+
  have "k mod ?n \<noteq> ?t mod ?n" if "head_seen s \<le> k" "k < length (pushed s @ written (pushing s))" for k
    using mod_near [of ?t ?n k] inv(2,6) that by auto
  moreover have "unat t = ?t mod ?n" by (subst inv(1)) (rule unat_pos [OF N])
  ultimately have "\<not> races (writes_known s) (writes s) (unat t)"
    unfolding inv(4,5) by (intro no_race) simp
  then show ?case using pop_read inv by (simp add: ra_inv_def Let_def unat_pos N)
next
  case (pop_release s t x)
  then show ?case
    by (auto simp: ra_inv_def Let_def store_order_def pos_next N take_Suc_conv_app_nth nth_append)
qed (auto simp: ra_inv_def Let_def load_order_def)

lemma ra_reachable_inv: "pow2_size N \<Longrightarrow> ra_reachable N z s \<Longrightarrow> ra_inv N s"
  by (rotate_tac, induction rule: ra_reachable.induct) (auto intro: ra_inv_init ra_step_inv)

section \<open>Properties\<close>

text \<open>C4. The queue is correct under weak memory.  With the orders the code asks for, whichever old values of the other
  thread's index the loads return, no two accesses to a slot race, what the consumer has taken out is a prefix of what
  the producer has put in, and the queue never holds more than \<open>N - 1\<close> items.\<close>

theorem ring_release_acquire:
  assumes "pow2_size N" and "ra_reachable N z s"
  shows "\<not> raced s \<and> popped s = take (length (popped s)) (pushed s) \<and>
    length (popped s) \<le> length (pushed s) \<and> length (pushed s) < length (popped s) + unat N"
  using ra_reachable_inv [OF assms] by (auto simp: ra_inv_def Let_def)

theorem ring_release_acquire_witness:
  "\<exists>s s'. ra_reachable 2 (0 :: nat) s \<and> pushed s = [7] \<and> popped s = [7] \<and> \<not> raced s \<and>
    pushing s = PLoaded 8 1 \<and> ra_step 2 s s' \<and> pushing s' = PIdle"
proof -
  let ?a = "ra_init 2 (0 :: nat)"
  let ?b = "?a\<lparr>memory := [7, 0], writes := [0], head_cell := [(0, 0), (1, 1)], pushed := [7]\<rparr>"
  let ?c = "?b\<lparr>reads := [0], tail_cell := [(0, 0), (1, 1)], head_seen := 1, writes_known := 1, popped := [7]\<rparr>"
  have two: "replicate 2 (0 :: nat) = [0, 0]" by (simp add: numeral_2_eq_2)
  note [simp] = ra_init_def load_order_def store_order_def races_def two
  have N: "pow2_size 2" by (simp add: pow2_size_def)
  have "ra_reachable 2 0 ?a" by (rule ra_reachable.start)
  from ra_reachable.step [OF this, of "?a\<lparr>pushing := PLoaded 7 0\<rparr>"] ra_step.push_load [of ?a 2 7]
  have "ra_reachable 2 0 (?a\<lparr>pushing := PLoaded 7 0\<rparr>)" by simp
  from ra_reachable.step [OF this, of "?a\<lparr>pushing := PChecked 7 0\<rparr>"]
    ra_step.push_check [of "?a\<lparr>pushing := PLoaded 7 0\<rparr>" 7 0 0 0 0 2]
  have "ra_reachable 2 0 (?a\<lparr>pushing := PChecked 7 0\<rparr>)" by simp
  from ra_reachable.step [OF this, of "?a\<lparr>memory := [7, 0], writes := [0], pushing := PWritten 7 0\<rparr>"]
    ra_step.push_write [of "?a\<lparr>pushing := PChecked 7 0\<rparr>" 7 0 2]
  have "ra_reachable 2 0 (?a\<lparr>memory := [7, 0], writes := [0], pushing := PWritten 7 0\<rparr>)" by simp
  from ra_reachable.step [OF this, of ?b]
    ra_step.push_publish [of "?a\<lparr>memory := [7, 0], writes := [0], pushing := PWritten 7 0\<rparr>" 7 0 2]
  have "ra_reachable 2 0 ?b" by simp
  from ra_reachable.step [OF this, of "?b\<lparr>popping := CLoaded 0\<rparr>"] ra_step.pop_load [of ?b 2]
  have "ra_reachable 2 0 (?b\<lparr>popping := CLoaded 0\<rparr>)" by simp
  from ra_reachable.step [OF this, of "?b\<lparr>head_seen := 1, writes_known := 1, popping := CChecked 0\<rparr>"]
    ra_step.pop_check [of "?b\<lparr>popping := CLoaded 0\<rparr>" 0 1 1 1 2]
  have "ra_reachable 2 0 (?b\<lparr>head_seen := 1, writes_known := 1, popping := CChecked 0\<rparr>)" by simp
  from ra_reachable.step [OF this, of "?b\<lparr>head_seen := 1, writes_known := 1, reads := [0], popping := CRead 0 7\<rparr>"]
    ra_step.pop_read [of "?b\<lparr>head_seen := 1, writes_known := 1, popping := CChecked 0\<rparr>" 0 2]
  have "ra_reachable 2 0 (?b\<lparr>head_seen := 1, writes_known := 1, reads := [0], popping := CRead 0 7\<rparr>)" by simp
  from ra_reachable.step [OF this, of ?c]
    ra_step.pop_release [of "?b\<lparr>head_seen := 1, writes_known := 1, reads := [0], popping := CRead 0 7\<rparr>" 0 7 2]
  have "ra_reachable 2 0 ?c" by simp
  from ra_reachable.step [OF this, of "?c\<lparr>pushing := PLoaded 8 1\<rparr>"] ra_step.push_load [of ?c 2 8]
  have c: "ra_reachable 2 0 (?c\<lparr>pushing := PLoaded 8 1\<rparr>)" by simp
  moreover have "ra_step 2 (?c\<lparr>pushing := PLoaded 8 1\<rparr>) (?c\<lparr>pushing := PIdle\<rparr>)"
    using ra_step.push_full [of "?c\<lparr>pushing := PLoaded 8 1\<rparr>" 8 1 0 0 0 2] by simp
  ultimately show ?thesis
    using ring_release_acquire [OF N c]
    by (intro exI [of _ "?c\<lparr>pushing := PLoaded 8 1\<rparr>"] exI [of _ "?c\<lparr>pushing := PIdle\<rparr>"]) simp
qed

end
