(* ===== verification/RoomPath.thy ===== *)
theory RoomPath
  imports MediaPath Sfu Rtcp Nack
begin

text \<open>
  A video unit in a room of the forwarding unit, with losses: packets of \<open>RtpVideoPacketizer\<close>, sent on by \<open>SfuRoom\<close>
  under the SSRC it has given the sender, some of them lost, the lost ones named by the receiver's \<open>NackManager\<close> in an
  \<open>RtcpNack\<close> that goes back through the room, sent again, and put in order by the receiver's \<open>RtpJitterBuffer\<close>.
\<close>

section \<open>Through the room\<close>

text \<open>What member \<open>q\<close> gets of a packet that \<open>p\<close> sends.\<close>

definition via_room :: "sfu_room \<Rightarrow> int \<Rightarrow> int \<Rightarrow> rtp_packet \<Rightarrow> rtp_packet" where
  "via_room r p q pk =
     snd (RtpPacket_parse RtpPacket_default (the (map_of (route_rtp r p (RtpPacket_data pk)) q)))"

text \<open>The packet under another SSRC.\<close>

definition relabel :: "u32 \<Rightarrow> rtp_packet \<Rightarrow> rtp_packet" where
  "relabel s pk = pk\<lparr>buf := with_ssrc s (buf pk)\<rparr>"

lemma with_ssrc_header: "with_ssrc s (rtp_header pt seq ts ssrc m @ d) = rtp_header pt seq ts s m @ d"
  by (simp add: with_ssrc_def rtp_header_def write_u16_def write_u32_def)

lemma relabel_built:
  "relabel s \<lparr>buf = rtp_header pt seq ts ssrc m @ d, payload_offset = k\<rparr> =
    \<lparr>buf = rtp_header pt seq ts s m @ d, payload_offset = k\<rparr>"
  by (simp add: relabel_def with_ssrc_header)

lemma relabel_fragment: "relabel s (fragment pt ts ssrc ind t seq piece a b) = fragment pt ts s ind t seq piece a b"
  unfolding fragment_def by (rule relabel_built)

lemma via_room_built:
  assumes "room_ok r" "p \<in> set (peers r)" "q \<in> set (peers r)" "q \<noteq> p" "built pk"
  shows "via_room r p q pk = relabel (the (peer_ssrc_map r p)) pk"
proof -
  obtain pt seq ts ssrc m d where pk: "pk = \<lparr>buf = rtp_header pt seq ts ssrc m @ d, payload_offset = 12\<rparr>"
    using assms(5) by (auto simp: built_def)
  have "map_of (map (\<lambda>q. (q, b)) (filter (\<lambda>q. q \<noteq> p) (peers r))) q = Some b" for b :: bytes
    using assms(3,4) by (simp add: map_of_map_restrict restrict_map_def)
  then show ?thesis
    using assms(2) by (simp add: via_room_def route_rtp_eq [OF assms(1)] pk RtpPacket_data_def with_ssrc_header
        parse_built relabel_built)
qed

lemma fua_loop_relabel:
  "map (relabel s) (fst (fua_loop pt ts ssrc ind t a seq src)) = fst (fua_loop pt ts s ind t a seq src)"
proof (induction "length src" arbitrary: a seq src rule: less_induct)
  case less
  consider "src = []" | "src \<noteq> []" "length src \<le> 1198" | "1198 < length src" by linarith
  then show ?case
  proof cases
    case 3
    then show ?thesis
      using less [of "drop 1198 src" False "seq + 1"] by (simp add: fua_loop_simps(3) case_prod_beta relabel_fragment)
  qed (simp_all add: fua_loop_simps relabel_fragment)
qed

text \<open>The room's packets are those the packetizer makes with the room's SSRC.\<close>

lemma packetize_relabel:
  "map (relabel s) (fst (packetize nal pt seq ts ssrc)) = fst (packetize nal pt seq ts s)"
proof -
  consider "skip_start_code nal = []" | "skip_start_code nal \<noteq> []" "length (skip_start_code nal) \<le> 1200"
    | "length (skip_start_code nal) > 1200" by linarith
  then show ?thesis
  proof cases
    case 3
    then show ?thesis by (simp only: packetize_cases(3) fua_loop_relabel)
  qed (simp_all add: packetize_cases build_buf relabel_built)
qed

section \<open>What is reported missing\<close>

text \<open>The packets of the positions \<open>got\<close> arrive, in this order, the first and the last of the unit among them.\<close>

lemma missing_positions:
  fixes seq :: u16
  assumes "n \<le> 2 ^ 15" "set got \<subseteq> {..<n}" "n - 1 \<in> set got" "hd got = 0"
    and "\<And>i. t - clock i \<ge> 100000000"
  defines "evs \<equiv> map (\<lambda>i. (seq + of_nat i :: u16, \<lambda>_ :: u16. clock i)) got"
  shows "set (get_nack_list (nack_run nack_init evs) t) = {seq + of_nat i | i. i < n \<and> i \<notin> set got}"
proof -
  obtain got' where got: "got = 0 # got'" using assms(3,4) by (cases got) auto
  let ?evs = "map (\<lambda>i. (seq + of_nat i :: u16, \<lambda>_ :: u16. clock i)) got'"
  have evs: "evs = (seq, \<lambda>_. clock 0) # ?evs" by (simp add: evs_def got)
  have off: "unat (seq + of_nat i - seq) = i" if "i < n" for i
    using that assms(1) by (simp add: unat_of_nat_u16)
  have win: "in_window seq ?evs" using assms(1,2) off by (auto simp: in_window_def got)
  have behind: "(\<exists>s now. first_beyond seq x ?evs = Some (s, now) \<and> t - now x \<ge> 100000000) \<longleftrightarrow> unat (x - seq) < n - 1" for x
  proof
    assume less: "unat (x - seq) < n - 1"
    then obtain l where l: "l \<in> set got'" "l < n" "unat (x - seq) < l" using assms(3) by (auto simp: got)
    then have "\<exists>e\<in>set ?evs. unat (x - seq) < unat (fst e - seq)"
      using off [OF l(2)] by (intro bexI [of _ "(seq + of_nat l, \<lambda>_. clock l)"]) auto
    then obtain e where e: "first_beyond seq x ?evs = Some e" "e \<in> set ?evs"
      unfolding first_beyond_def by (cases "List.find (\<lambda>(s, _). unat (x - seq) < unat (s - seq)) ?evs")
        (auto simp: find_None_iff find_Some_iff)
    then show "\<exists>s now. first_beyond seq x ?evs = Some (s, now) \<and> t - now x \<ge> 100000000"
      using assms(5) by auto
  next
    assume "\<exists>s now. first_beyond seq x ?evs = Some (s, now) \<and> t - now x \<ge> 100000000"
    then obtain s now where f: "first_beyond seq x ?evs = Some (s, now)" by blast
    then have "(s, now) \<in> set ?evs" "unat (x - seq) < unat (s - seq)"
      unfolding first_beyond_def find_Some_iff by (metis (no_types, lifting) nth_mem, force)
    then obtain i where "i \<in> set got'" "unat (x - seq) < unat (seq + of_nat i - seq)"
      unfolding set_map by blast
    moreover have "i < n" using \<open>i \<in> set got'\<close> assms(2) by (auto simp: got)
    ultimately show "unat (x - seq) < n - 1" using off [of i] by simp
  qed
  have "x \<in> set (get_nack_list (nack_run nack_init evs) t) \<longleftrightarrow> (\<exists>i. x = seq + of_nat i \<and> i < n \<and> i \<notin> set got)" for x
  proof -
    have x: "x = seq + of_nat (unat (x - seq))" by simp
    have sent: "fst ` set ?evs = (\<lambda>i. seq + of_nat i) ` set got'" by (simp add: image_image)
    have "x \<in> set (get_nack_list (nack_run nack_init evs) t) \<longleftrightarrow>
        x \<noteq> seq \<and> x \<notin> (\<lambda>i. seq + of_nat i) ` set got' \<and> unat (x - seq) < n - 1"
      using list_exact [OF win, of "\<lambda>_. clock 0" t x] unfolding behind sent evs by blast
    also have "\<dots> \<longleftrightarrow> x \<notin> (\<lambda>i. seq + of_nat i) ` set got \<and> unat (x - seq) < n - 1"
      by (auto simp: got)
    also have "\<dots> \<longleftrightarrow> (\<exists>i. x = seq + of_nat i \<and> i < n \<and> i \<notin> set got)"
    proof
      assume "x \<notin> (\<lambda>i. seq + of_nat i) ` set got \<and> unat (x - seq) < n - 1"
      then show "\<exists>i. x = seq + of_nat i \<and> i < n \<and> i \<notin> set got"
        using x by (intro exI [of _ "unat (x - seq)"]) (metis imageI less_imp_diff_less less_trans nat_neq_iff diff_le_self le_less_trans less_le_trans)
    next
      assume "\<exists>i. x = seq + of_nat i \<and> i < n \<and> i \<notin> set got"
      then obtain i where i: "x = seq + of_nat i" "i < n" "i \<notin> set got" by blast
      have "i \<noteq> n - 1" using i(3) assms(3) by blast
      moreover have "j = i" if "j \<in> set got" "x = seq + of_nat j" for j
      proof -
        have "j < n" using that(1) assms(2) by blast
        then show ?thesis using off [of i] off [of j] that(2) i(1,2) by metis
      qed
      ultimately show "x \<notin> (\<lambda>i. seq + of_nat i) ` set got \<and> unat (x - seq) < n - 1"
        using off [OF i(2)] i by auto
    qed
    finally show ?thesis .
  qed
  then show ?thesis by blast
qed

section \<open>Sending again\<close>

definition resend :: "rtp_packet list \<Rightarrow> u16 list \<Rightarrow> rtp_packet list" where
  "resend ps lost = filter (\<lambda>pk. RtpPacket_sequence pk \<in> set lost) ps"

lemma resend_missing:
  assumes "run_numbers seq ps" "length ps \<le> 2 ^ 15" "set lost = {seq + of_nat i | i. i < length ps \<and> i \<notin> set got}"
  shows "set (resend ps lost) = (\<lambda>i. ps ! i) ` ({..<length ps} - set got)"
proof -
  have "RtpPacket_sequence (ps ! i) \<in> set lost \<longleftrightarrow> i \<notin> set got" if "i < length ps" for i
  proof -
    have "j = i" if "seq + of_nat j = seq + of_nat i" "j < length ps" for j
    proof -
      have "unat (of_nat j :: u16) = unat (of_nat i :: u16)" using that(1) by simp
      then show ?thesis using that(2) \<open>i < length ps\<close> assms(2) by (simp add: unat_of_nat_u16)
    qed
    then show ?thesis using run_numbers_nth [OF assms(1) that] that unfolding assms(3) by auto
  qed
  moreover have "set ps = (\<lambda>i. ps ! i) ` {..<length ps}" by (auto simp: in_set_conv_nth)
  ultimately show ?thesis unfolding resend_def set_filter by auto
qed

text \<open>Every packet of the unit arrives through the room sooner or later, the first one first: the receiver joins the
  unit.\<close>

lemma unit_through_room:
  assumes r: "room_ok r" "p \<in> set (peers r)" "q \<in> set (peers r)" "q \<noteq> p"
    and ps: "packetize nal pt seq ts ssrc = (ps, seq')" "length ps \<le> 2 ^ 16"
    and nal: "skip_start_code nal \<noteq> []" "skip_start_code nal ! 0 AND 0x1F \<noteq> 28"
    and sent: "set sent = set ps" "sent \<noteq> []" "hd sent = hd ps"
  shows "depacketize (map the (fst (jitter_pops (length ps)
    (foldl jitter_push rtp_jitter_init (map (via_room r p q) sent))))) = Some (skip_start_code nal)"
proof -
  let ?s = "the (peer_ssrc_map r p)"
  obtain ps' seq2 where ps': "packetize nal pt seq ts ?s = (ps', seq2)" by force
  have same: "map (relabel ?s) ps = ps'" using packetize_relabel [of ?s nal pt seq ts ssrc] by (simp add: ps ps')
  then have len: "length ps' = length ps" by auto
  have "via_room r p q pk = relabel ?s pk" if "pk \<in> set ps" for pk
    by (rule via_room_built [OF r packetize_built [OF ps(1) that]])
  then have via: "map (via_room r p q) sent = map (relabel ?s) sent" using sent(1) by simp
  have ne: "ps \<noteq> []" using sent(1,2) by auto
  have "map the (fst (jitter_pops (length ps') (foldl jitter_push rtp_jitter_init (map (relabel ?s) sent)))) = ps'"
  proof (rule reordered_run [OF packetize_numbers [OF ps']])
    show "set (map (relabel ?s) sent) = set ps'" using sent(1) by (simp flip: same)
    show "hd (map (relabel ?s) sent) = hd ps'" using sent(2,3) ne by (simp add: hd_map flip: same)
  qed (use ne len ps(2) sent(2) in auto)
  then show ?thesis
    using depacketize_packetize [OF nal, of pt seq ts ?s] by (simp add: via len ps')
qed

section \<open>Properties\<close>

text \<open>C3. A unit in a room, with losses.  One member of a room sends a unit; another gets some of its packets, in any
  order, the first one first, the last one among them.  Asked at least 100 ms later, its list of missing numbers
  names exactly the packets that are lost; the negative acknowledgement it sends comes back through the room to the
  sender, which reads these numbers in it and the SSRC under which the receiver knows the stream; and when the named
  packets are sent again through the room, the receiver joins the whole unit.\<close>

theorem room_nack_repair:
  assumes "r = foldl room_step (SfuRoom rid) ops"
    and "p \<in> set (peers r)" and "q \<in> set (peers r)" and "q \<noteq> p"
    and "packetize nal pt seq ts ssrc = (ps, seq')" and "length ps \<le> 2 ^ 15"
    and "skip_start_code nal \<noteq> []" and "skip_start_code nal ! 0 AND 0x1F \<noteq> 28"
    and "set got \<subseteq> {..<length ps}" and "length ps - 1 \<in> set got" and "hd got = 0"
    and "arrived = map (\<lambda>i. via_room r p q (ps ! i)) got"
    and "\<And>i. t - clock i \<ge> 100000000"
    and "lost = get_nack_list
      (nack_run nack_init (map (\<lambda>i. (RtpPacket_sequence (via_room r p q (ps ! i)), \<lambda>_. clock i)) got)) t"
    and "nack = RtcpNack_serialize \<lparr>sender_ssrc = own, media_ssrc = RtpPacket_ssrc (hd arrived), lost_seqs = lost\<rparr>"
    and "RtcpNack_parse n0 nack = (ok, n)"
  shows "(p, nack) \<in> set (route_rtcp r q nack) \<and> ok \<and>
    set (lost_seqs n) = {seq + of_nat i | i. i < length ps \<and> i \<notin> set got} \<and>
    media_ssrc n = the (peer_ssrc_map r p) \<and>
    depacketize (map the (fst (jitter_pops (length ps) (foldl jitter_push rtp_jitter_init
      (arrived @ map (via_room r p q) (resend ps (lost_seqs n))))))) = Some (skip_start_code nal)"
proof -
  let ?s = "the (peer_ssrc_map r p)"
  have r: "room_ok r" using room_ok_run [OF room_ok_SfuRoom, of rid ops] by (simp add: assms(1))
  note room = r assms(2-4)
  note run = packetize_numbers [OF assms(5)]
  have ne: "got \<noteq> []" using assms(10) by auto
  have i: "i < length ps" if "i \<in> set got" for i using assms(9) that by auto
  have fields: "RtpPacket_sequence (via_room r p q pk) = RtpPacket_sequence pk" "RtpPacket_ssrc (via_room r p q pk) = ?s"
    if "pk \<in> set ps" for pk
    using packetize_built [OF assms(5) that] via_room_built [OF room, of pk]
    by (auto simp: built_def relabel_built built_accessors)
  have seqs: "RtpPacket_sequence (via_room r p q (ps ! i)) = seq + of_nat i" if "i \<in> set got" for i
    using fields(1) [OF nth_mem [OF i [OF that]]] run_numbers_nth [OF run i [OF that]] by simp
  have events: "map (\<lambda>i. (RtpPacket_sequence (via_room r p q (ps ! i)), \<lambda>_ :: u16. clock i)) got =
      map (\<lambda>i. (seq + of_nat i, \<lambda>_. clock i)) got"
    using seqs by simp
  have lost: "set lost = {seq + of_nat i | i. i < length ps \<and> i \<notin> set got}"
    unfolding assms(14) events by (rule missing_positions [OF assms(6,9-11) assms(13)])
  have "hd arrived = via_room r p q (ps ! 0)" using ne assms(11,12) by (simp add: hd_map)
  then have ssrc: "RtpPacket_ssrc (hd arrived) = ?s"
    using fields(2) nth_mem [OF i [of 0]] hd_in_set [OF ne] assms(11) by simp
  have n: "ok" "lost_seqs n = sorted_seqs lost" "media_ssrc n = ?s"
    using assms(16) unfolding assms(15) parse_serialized_nack by (auto simp: ssrc)
  have "length nack \<ge> 4" by (simp add: assms(15) RtcpNack_serialize_def Let_def)
  then have returned: "(p, nack) \<in> set (route_rtcp r q nack)" using assms(2,4) by (auto simp: route_rtcp_def)
  let ?sent = "map (\<lambda>i. ps ! i) got @ resend ps (lost_seqs n)"
  have "set (resend ps (lost_seqs n)) = (\<lambda>i. ps ! i) ` ({..<length ps} - set got)"
    by (rule resend_missing [OF run assms(6)]) (simp add: n(2) lost)
  then have "set ?sent = (\<lambda>i. ps ! i) ` {..<length ps}" using assms(9) by auto
  then have "set ?sent = set ps" by (auto simp: in_set_conv_nth)
  moreover have "hd ?sent = hd ps" using ne assms(10,11) i [of 0] hd_in_set [OF ne]
    by (simp add: hd_map hd_conv_nth [of ps] flip: length_greater_0_conv)
  moreover have "length ps \<le> 2 ^ 16" using assms(6) by simp
  ultimately have "depacketize (map the (fst (jitter_pops (length ps)
      (foldl jitter_push rtp_jitter_init (map (via_room r p q) ?sent))))) = Some (skip_start_code nal)"
    using ne by (intro unit_through_room [OF room assms(5) _ assms(7,8)]) simp_all
  moreover have "map (via_room r p q) ?sent = arrived @ map (via_room r p q) (resend ps (lost_seqs n))"
    by (simp add: assms(12) comp_def)
  ultimately show ?thesis using returned n lost by simp
qed

definition two_peers :: sfu_room where
  "two_peers = foldl room_step (SfuRoom ''r'') [AddPeer 1, AddPeer 2]"

lemma room_nack_repair_witness:
  "\<exists>ps seq' (n :: rtcp_nack). packetize (replicate 2500 0x65) 96 9 0 1 = (ps, seq') \<and> length ps = 3 \<and>
    set (lost_seqs n) = {10} \<and> media_ssrc n = 0x10000000 \<and>
    depacketize (map the (fst (jitter_pops 3 (foldl jitter_push rtp_jitter_init
      (map (\<lambda>i. via_room two_peers 1 2 (ps ! i)) [0, 2] @ map (via_room two_peers 1 2) (resend ps (lost_seqs n))))))) =
    Some (replicate 2500 0x65)"
proof -
  let ?nal = "replicate 2500 (0x65 :: u8)"
  have raw: "skip_start_code ?nal = ?nal" by (simp add: skip_start_code_def)
  obtain a b c seq' where p: "packetize ?nal 96 9 0 1 = ([a, b, c], seq')"
    by (simp add: packetize_cases(3) raw fua_loop_simps)
  define ps where "ps = [a, b, c]"
  have three: "length ps = 3" by (simp add: ps_def)
  have two: "peers two_peers = [1, 2]" "the (peer_ssrc_map two_peers 1) = 0x10000000"
    by (simp_all add: two_peers_def SfuRoom_def add_peer_def)
  obtain ok and n :: rtcp_nack where n: "RtcpNack_parse n0 (RtcpNack_serialize \<lparr>sender_ssrc = 5,
      media_ssrc = RtpPacket_ssrc (hd (map (\<lambda>i. via_room two_peers 1 2 (ps ! i)) [0, 2])),
      lost_seqs = get_nack_list (nack_run nack_init
        (map (\<lambda>i. (RtpPacket_sequence (via_room two_peers 1 2 (ps ! i)), \<lambda>_. 0)) [0, 2])) 100000000\<rparr>) = (ok, n)"
    for n0 by (simp add: parse_serialized_nack)
  have "(1 :: int) \<in> set (peers two_peers)" "(2 :: int) \<in> set (peers two_peers)" "(2 :: int) \<noteq> 1"
    "length ps \<le> 2 ^ 15" "skip_start_code ?nal \<noteq> []" "skip_start_code ?nal ! 0 AND 0x1F \<noteq> 28" "set [0, 2] \<subseteq> {..<length ps}"
    "length ps - 1 \<in> set [0, 2 :: nat]" "hd [0, 2 :: nat] = 0" "(100000000 :: int) - 0 \<ge> 100000000"
    by (simp_all add: two three raw)
  note res = room_nack_repair [where clock = "\<lambda>_. 0" and t = 100000000 and got = "[0, 2]" and own = 5 and n = n,
    OF two_peers_def this(1-3) p [folded ps_def] this(4-9) refl this(10) refl refl n]
  have "{9 + of_nat i | i. i < length ps \<and> i \<notin> set [0, 2 :: nat]} = {10 :: u16}"
  proof -
    have "i < length ps \<and> i \<notin> set [0, 2 :: nat] \<longleftrightarrow> i = 1" for i by (auto simp: three)
    then show ?thesis by simp
  qed
  note lost = res [THEN conjunct2, THEN conjunct2, THEN conjunct1, unfolded this]
    and rest = res [THEN conjunct2, THEN conjunct2, THEN conjunct2, unfolded two three raw]
  show ?thesis
    by (intro exI [of _ ps] exI [of _ seq'] exI [of _ n] conjI lost rest [THEN conjunct1] rest [THEN conjunct2])
      (simp_all add: p ps_def)
qed

end
