(* ===== verification/QtRender.thy ===== *)
theory QtRender
  imports QtClient Complex_Main
begin

text \<open>
  \<open>YuvRenderer\<close> (\<open>module10_qt_client/src/yuv_renderer.cpp\<close>) on its OpenGL context: setting up and tearing down, what the
  samplers of the fragment shader see when a frame is drawn, and the colours the shader makes of it.
\<close>

section \<open>Setting up and tearing down\<close>

text \<open>\<open>names\<close> are the textures that \<open>glGenTextures\<close> answers.\<close>

definition initialize_gl :: "nat \<times> nat \<times> nat \<Rightarrow> gl_call list" where
  "initialize_gl names =
     (let (t0, t1, t2) = names in
      [InitializeFunctions, NewProgram, AddShader ''vertex'', AddShader ''fragment'', LinkProgram, GenTextures 3] @
      concat (map (\<lambda>t. [BindTexture t, TexParameteri MIN_FILTER LINEAR, TexParameteri MAG_FILTER LINEAR,
                        TexParameteri WRAP_S CLAMP_TO_EDGE, TexParameteri WRAP_T CLAMP_TO_EDGE]) [t0, t1, t2]))"

definition resize_gl :: "int \<Rightarrow> int \<Rightarrow> gl_call list" where
  "resize_gl w h = [Viewport 0 0 w h]"

text \<open>\<open>textures_\<close> is zero until \<open>initializeGL\<close> has run.\<close>

definition destroy_gl :: "nat \<times> nat \<times> nat \<Rightarrow> gl_call list" where
  "destroy_gl textures =
     (let (t0, t1, t2) = textures in
      [MakeCurrent] @ (if t0 \<noteq> 0 then [DeleteTextures [t0, t1, t2]] else []) @ [DeleteProgram, DoneCurrent])"

section \<open>OpenGL\<close>

text \<open>What the code relies on of OpenGL: how the state of a context, of any type \<open>'g\<close>, changes with a call, and what can
  be observed of it.  A filter is \<open>None\<close> while it is the initial one, which needs mipmaps; a picture is its
  width, its height and its rows of texels.\<close>

type_synonym picture = "int \<times> int \<times> bytes list"

record 'g gl =
  gl_run :: "gl_call \<Rightarrow> 'g \<Rightarrow> 'g"
  active_unit :: "'g \<Rightarrow> nat"
  bound_at :: "'g \<Rightarrow> nat \<Rightarrow> nat"
  min_filter :: "'g \<Rightarrow> nat \<Rightarrow> gl_value option"
  texture_image :: "'g \<Rightarrow> nat \<Rightarrow> picture option"
  program_bound :: "'g \<Rightarrow> bool"
  uniform_of :: "'g \<Rightarrow> string \<Rightarrow> int"
  unpack_alignment :: "'g \<Rightarrow> int"
  max_texture_size :: int

text \<open>The bytes between the starts of two rows of \<open>w\<close> one-byte pixels, and the rows themselves.\<close>

definition row_stride :: "int \<Rightarrow> int \<Rightarrow> int" where
  "row_stride a w = (w + a - 1) div a * a"

definition rows_at :: "int \<Rightarrow> int \<Rightarrow> int \<Rightarrow> bytes \<Rightarrow> bytes list" where
  "rows_at stride w h d = map (\<lambda>y. take (nat w) (drop (y * nat stride) d)) [0..<nat h]"

text \<open>The documented effect of the calls, each on the part of the state it is about: \<open>glActiveTexture\<close> selects the unit;
  \<open>glBindTexture\<close> binds to the active unit; \<open>glTexParameteri\<close> and \<open>glTexImage2D\<close> act on the texture bound there, the second,
  for sizes the implementation supports and memory that holds the last row, with rows that start at
  multiples of \<open>GL_UNPACK_ALIGNMENT\<close>; a uniform is set in the program that is bound (which compiles and links).  Deleting apart, no other call of the
  renderer changes any of this.\<close>

fun deletes :: "gl_call \<Rightarrow> bool" where
  "deletes (DeleteTextures ts) = True"
| "deletes DeleteProgram = True"
| "deletes _ = False"

definition gl_documented :: "'g gl \<Rightarrow> bool" where
  "gl_documented G \<longleftrightarrow> (\<forall>c g. \<not> deletes c \<longrightarrow>
     active_unit G (gl_run G c g) = (case c of ActiveTexture u \<Rightarrow> u | _ \<Rightarrow> active_unit G g) \<and>
     bound_at G (gl_run G c g) =
       (case c of BindTexture t \<Rightarrow> (bound_at G g)(active_unit G g := t) | _ \<Rightarrow> bound_at G g) \<and>
     min_filter G (gl_run G c g) =
       (case c of TexParameteri p v \<Rightarrow>
          if p = MIN_FILTER then (min_filter G g)(bound_at G g (active_unit G g) := Some v) else min_filter G g
        | _ \<Rightarrow> min_filter G g) \<and>
     (case c of
        TexImage2D w h d \<Rightarrow>
          (let stride = row_stride (unpack_alignment G g) w in
           0 \<le> w \<and> w \<le> max_texture_size G \<and> 0 \<le> h \<and> h \<le> max_texture_size G \<and>
           (w > 0 \<and> h > 0 \<longrightarrow> stride * (h - 1) + w \<le> int (length d)) \<longrightarrow>
           texture_image G (gl_run G c g) =
             (texture_image G g)(bound_at G g (active_unit G g) := Some (w, h, rows_at stride w h d)))
      | _ \<Rightarrow> texture_image G (gl_run G c g) = texture_image G g) \<and>
     program_bound G (gl_run G c g) = (case c of BindProgram \<Rightarrow> True | ReleaseProgram \<Rightarrow> False | _ \<Rightarrow> program_bound G g) \<and>
     uniform_of G (gl_run G c g) =
       (case c of SetUniform name u \<Rightarrow>
          if program_bound G g then (uniform_of G g)(name := u) else uniform_of G g
        | _ \<Rightarrow> uniform_of G g) \<and>
     unpack_alignment G (gl_run G c g) = unpack_alignment G g)"

text \<open>What a draw finds at a sampler: the picture of the texture bound to the sampler's unit, if that texture is complete.
  A texture with a single level is complete if it has texels and its filter uses no mipmaps.\<close>

definition sampled :: "'g gl \<Rightarrow> 'g \<Rightarrow> string \<Rightarrow> picture option" where
  "sampled G g name =
     (let t = bound_at G g (nat (uniform_of G g name)) in
      if program_bound G g \<and> t \<noteq> 0 \<and> min_filter G g t = Some LINEAR
      then (case texture_image G g t of
              Some (w, h, px) \<Rightarrow> if w > 0 \<and> h > 0 then Some (w, h, px) else None | None \<Rightarrow> None)
      else None)"

text \<open>What the three samplers find at each draw.\<close>

fun gl_draws :: "'g gl \<Rightarrow> gl_call list \<Rightarrow> 'g \<Rightarrow> picture option list list" where
  "gl_draws G [] g = []"
| "gl_draws G (c # cs) g =
     (case c of DrawArrays n \<Rightarrow> [map (sampled G g) [''texY'', ''texU'', ''texV'']] | _ \<Rightarrow> []) @
     gl_draws G cs (gl_run G c g)"

lemma gl_draws_append:
  "gl_draws G (cs @ cs') g = gl_draws G cs g @ gl_draws G cs' (fold (gl_run G) cs g)"
  by (induction cs arbitrary: g) simp_all

lemma documented:
  assumes "gl_documented G" "\<not> deletes c"
  shows "active_unit G (gl_run G c g) = (case c of ActiveTexture u \<Rightarrow> u | _ \<Rightarrow> active_unit G g)"
    and "bound_at G (gl_run G c g) =
       (case c of BindTexture t \<Rightarrow> (bound_at G g)(active_unit G g := t) | _ \<Rightarrow> bound_at G g)"
    and "min_filter G (gl_run G c g) =
       (case c of TexParameteri p v \<Rightarrow>
          if p = MIN_FILTER then (min_filter G g)(bound_at G g (active_unit G g) := Some v) else min_filter G g
        | _ \<Rightarrow> min_filter G g)"
    and "(case c of TexImage2D w h d \<Rightarrow> False | _ \<Rightarrow> True) \<Longrightarrow> texture_image G (gl_run G c g) = texture_image G g"
    and "program_bound G (gl_run G c g) = (case c of BindProgram \<Rightarrow> True | ReleaseProgram \<Rightarrow> False | _ \<Rightarrow> program_bound G g)"
    and "uniform_of G (gl_run G c g) =
       (case c of SetUniform name u \<Rightarrow>
          if program_bound G g then (uniform_of G g)(name := u) else uniform_of G g
        | _ \<Rightarrow> uniform_of G g)"
    and "unpack_alignment G (gl_run G c g) = unpack_alignment G g"
  using assms(1) [unfolded gl_documented_def, rule_format, OF assms(2), of g]
  by (auto split: gl_call.splits)

lemma documented_image:
  assumes "gl_documented G" "unpack_alignment G g = 4"
    and "0 \<le> w" "w \<le> max_texture_size G" "0 \<le> h" "h \<le> max_texture_size G"
    and "w > 0 \<and> h > 0 \<longrightarrow> row_stride 4 w * (h - 1) + w \<le> int (length d)"
  shows "texture_image G (gl_run G (TexImage2D w h d) g) =
    (texture_image G g)(bound_at G g (active_unit G g) := Some (w, h, rows_at (row_stride 4 w) w h d))"
  using assms(1) [unfolded gl_documented_def, rule_format, of "TexImage2D w h d" g] assms(2-) by (simp add: Let_def)

section \<open>What the samplers see\<close>

text \<open>The frames a paint can show whole: with even halves whose rows need no padding, planes long enough, and a size the
  implementation supports.\<close>

definition frame_fits :: "'g gl \<Rightarrow> frame_signal \<Rightarrow> bool" where
  "frame_fits G f \<longleftrightarrow> (fr_width f > 0 \<and> fr_height f > 0 \<longrightarrow>
     fr_width f mod 8 = 0 \<and> fr_height f \<ge> 2 \<and> fr_width f \<le> max_texture_size G \<and> fr_height f \<le> max_texture_size G \<and>
     fr_width f * fr_height f \<le> int (length (fr_y f)) \<and>
     fr_width f div 2 * (fr_height f div 2) \<le> int (length (fr_u f)) \<and>
     fr_width f div 2 * (fr_height f div 2) \<le> int (length (fr_v f)))"

text \<open>The pictures of a frame: its planes, row after row.\<close>

definition plane_rows :: "int \<Rightarrow> int \<Rightarrow> bytes \<Rightarrow> picture" where
  "plane_rows w h d = (w, h, map (\<lambda>y. take (nat w) (drop (y * nat w) d)) [0..<nat h])"

definition pictures_of :: "frame_signal \<Rightarrow> picture list" where
  "pictures_of f =
     [plane_rows (fr_width f) (fr_height f) (fr_y f), plane_rows (fr_width f div 2) (fr_height f div 2) (fr_u f),
      plane_rows (fr_width f div 2) (fr_height f div 2) (fr_v f)]"

text \<open>What should be on the screen: each posted function takes the oldest frame of the queue, and a paint draws the frame
  taken last, if there is one and it is not empty.\<close>

fun screen :: "renderer_op list \<Rightarrow> frame_signal list \<Rightarrow> frame_signal option \<Rightarrow> frame_signal list" where
  "screen [] q cur = []"
| "screen (Arrive f # ops) q cur = screen ops (q @ [f]) cur"
| "screen (Process # ops) q cur = (case q of [] \<Rightarrow> screen ops q cur | f # q' \<Rightarrow> screen ops q' (Some f))"
| "screen (Paint # ops) q cur =
     (case cur of
        None \<Rightarrow> screen ops q cur
      | Some f \<Rightarrow> (if fr_width f > 0 \<and> fr_height f > 0 then [f] else []) @ screen ops q cur)"

definition textures_ready :: "'g gl \<Rightarrow> nat \<times> nat \<times> nat \<Rightarrow> 'g \<Rightarrow> bool" where
  "textures_ready G names g \<longleftrightarrow> unpack_alignment G g = 4 \<and>
     (let (t0, t1, t2) = names in \<forall>t\<in>{t0, t1, t2}. min_filter G g t = Some LINEAR)"

definition names_ok :: "nat \<times> nat \<times> nat \<Rightarrow> bool" where
  "names_ok names \<longleftrightarrow> (let (t0, t1, t2) = names in distinct [t0, t1, t2] \<and> 0 \<notin> set [t0, t1, t2])"

lemma initialize_ready:
  assumes "gl_documented G" "unpack_alignment G g = 4"
  shows "textures_ready G names (fold (gl_run G) (initialize_gl names) g)" "gl_draws G (initialize_gl names) g = []"
  using assms(2) by (cases names; simp add: initialize_gl_def textures_ready_def documented [OF assms(1)])+

lemma paint_ready:
  assumes "gl_documented G" "textures_ready G names g"
  shows "textures_ready G names (fold (gl_run G) (paint_gl names r) g)"
proof -
  have "unpack_alignment G (fold (gl_run G) cs g) = unpack_alignment G g \<and> min_filter G (fold (gl_run G) cs g) = min_filter G g"
    if "list_all (\<lambda>c. \<not> deletes c \<and> (\<forall>p v. c \<noteq> TexParameteri p v)) cs" for cs
    using that
  proof (induction cs arbitrary: g)
    case (Cons c cs)
    then show ?case using documented(3,7) [OF assms(1), of c g] by (auto split: gl_call.splits)
  qed simp
  from this [of "paint_gl names r"] show ?thesis
    using assms(2) by (cases names) (auto simp: textures_ready_def paint_gl_def)
qed

lemma no_padding: "w mod 4 = 0 \<Longrightarrow> row_stride 4 w = w"
  unfolding row_stride_def by presburger

lemma upload_plane:
  assumes "gl_documented G" "unpack_alignment G g = 4" "w mod 4 = 0"
    and "0 < w" "w \<le> max_texture_size G" "0 < h" "h \<le> max_texture_size G" "w * h \<le> int (length d)"
  shows "texture_image G (gl_run G (TexImage2D w h d) g) =
    (texture_image G g)(bound_at G g (active_unit G g) := Some (plane_rows w h d))"
  using documented_image [OF assms(1,2), of w h d] assms(3-8)
  by (simp add: no_padding rows_at_def plane_rows_def algebra_simps)

lemma sampled_plane:
  assumes "program_bound G g" "uniform_of G g name = int k" "bound_at G g k = t" "t \<noteq> 0" "min_filter G g t = Some LINEAR"
    and "texture_image G g t = Some (plane_rows w h d)" "w > 0" "h > 0"
  shows "sampled G g name = Some (plane_rows w h d)"
  using assms by (simp add: sampled_def plane_rows_def)

lemma paint_draws:
  assumes G: "gl_documented G" and ready: "textures_ready G names g" and n: "names_ok names"
    and f: "shows_frame f r" "frame_fits G f"
  shows "gl_draws G (paint_gl names r) g = (if fr_width f > 0 \<and> fr_height f > 0 then [map Some (pictures_of f)] else [])"
proof (cases "fr_width f > 0 \<and> fr_height f > 0")
  case True
  obtain t0 t1 t2 where names: "names = (t0, t1, t2)" by (cases names) auto
  note t = n [unfolded names names_ok_def, simplified]
  have r: "has_frame r" "frame_width r = fr_width f" "frame_height r = fr_height f" "y_plane r = fr_y f" "u_plane r = fr_u f"
    "v_plane r = fr_v f" using f(1) by (simp_all add: shows_frame_def)
  let ?w = "fr_width f" and ?h = "fr_height f"
  have half: "?w mod 4 = 0" "?w div 2 mod 4 = 0" "0 < ?w div 2" "0 < ?h div 2" "?w div 2 \<le> max_texture_size G"
      "?h div 2 \<le> max_texture_size G"
    using f(2) True unfolding frame_fits_def by presburger+
  have size: "?w \<le> max_texture_size G" "?h \<le> max_texture_size G" "?w * ?h \<le> int (length (fr_y f))"
      "?w div 2 * (?h div 2) \<le> int (length (fr_u f))" "?w div 2 * (?h div 2) \<le> int (length (fr_v f))"
    using f(2) True by (simp_all add: frame_fits_def)
  have up: "unpack_alignment G g' = 4 \<Longrightarrow> texture_image G (gl_run G (TexImage2D ?w ?h (fr_y f)) g') =
      (texture_image G g')(bound_at G g' (active_unit G g') := Some (plane_rows ?w ?h (fr_y f)))"
    "unpack_alignment G g' = 4 \<Longrightarrow> texture_image G (gl_run G (TexImage2D (?w div 2) (?h div 2) (fr_u f)) g') =
      (texture_image G g')(bound_at G g' (active_unit G g') := Some (plane_rows (?w div 2) (?h div 2) (fr_u f)))"
    "unpack_alignment G g' = 4 \<Longrightarrow> texture_image G (gl_run G (TexImage2D (?w div 2) (?h div 2) (fr_v f)) g') =
      (texture_image G g')(bound_at G g' (active_unit G g') := Some (plane_rows (?w div 2) (?h div 2) (fr_v f)))" for g'
    using True half size by (simp_all only: upload_plane [OF G])
  define pre where "pre = [ClearColor, ClearBuffer,
    BindTexture t0, TexImage2D ?w ?h (fr_y f), BindTexture t1, TexImage2D (?w div 2) (?h div 2) (fr_u f),
    BindTexture t2, TexImage2D (?w div 2) (?h div 2) (fr_v f), BindProgram,
    ActiveTexture 0, BindTexture t0, SetUniform ''texY'' 0, ActiveTexture 1, BindTexture t1, SetUniform ''texU'' 1,
    ActiveTexture 2, BindTexture t2, SetUniform ''texV'' 2,
    EnableAttributeArray 0, SetAttributeArray 0 vertices 2, EnableAttributeArray 1, SetAttributeArray 1 (drop 2 vertices) 2]"
  define g1 where "g1 = fold (gl_run G) pre g"
  have paint: "paint_gl names r = pre @ [DrawArrays 4, DisableAttributeArray 0, DisableAttributeArray 1, ReleaseProgram]"
    using True by (simp add: names paint_gl_def r pre_def)
  have four: "unpack_alignment G g = 4" using ready by (simp add: textures_ready_def)
  have "program_bound G g1" "min_filter G g1 = min_filter G g"
    by (simp_all add: g1_def pre_def documented [OF G])
  moreover have "uniform_of G g1 ''texY'' = 0" "uniform_of G g1 ''texU'' = 1" "uniform_of G g1 ''texV'' = 2"
    by (simp_all add: g1_def pre_def documented [OF G])
  moreover have "bound_at G g1 0 = t0" "bound_at G g1 1 = t1" "bound_at G g1 2 = t2"
    by (simp_all add: g1_def pre_def documented [OF G])
  moreover have "texture_image G g1 t0 = Some (plane_rows ?w ?h (fr_y f))"
    "texture_image G g1 t1 = Some (plane_rows (?w div 2) (?h div 2) (fr_u f))"
    "texture_image G g1 t2 = Some (plane_rows (?w div 2) (?h div 2) (fr_v f))"
    using t by (simp_all add: g1_def pre_def documented [OF G] up four)
  ultimately have "sampled G g1 ''texY'' = Some (plane_rows ?w ?h (fr_y f))"
    "sampled G g1 ''texU'' = Some (plane_rows (?w div 2) (?h div 2) (fr_u f))"
    "sampled G g1 ''texV'' = Some (plane_rows (?w div 2) (?h div 2) (fr_v f))"
    using sampled_plane [of G g1 "''texY''" 0 t0] sampled_plane [of G g1 "''texU''" 1 t1]
      sampled_plane [of G g1 "''texV''" 2 t2] ready t True half(3,4)
    by (simp_all add: names textures_ready_def)
  then have "map (sampled G g1) [''texY'', ''texU'', ''texV''] = map Some (pictures_of f)" by (simp add: pictures_of_def)
  moreover have "gl_draws G pre g = []" by (simp add: pre_def)
  ultimately show ?thesis using True by (simp add: paint gl_draws_append flip: g1_def)
qed (use f(1) in \<open>auto simp: paint_gl_def shows_frame_def case_prod_beta documented\<close>)


lemma run_draws:
  assumes G: "gl_documented G" and n: "names_ok names"
    and "textures_ready G names g" "queued r = q" "case cur of None \<Rightarrow> \<not> has_frame r | Some f \<Rightarrow> shows_frame f r"
    and "\<forall>f\<in>set (arrived_frames ops) \<union> set q \<union> set_option cur. frame_fits G f"
  shows "gl_draws G (concat (fst (render_run names ops r))) g = map (\<lambda>f. map Some (pictures_of f)) (screen ops q cur)"
  using assms(2-)
proof (induction names ops r arbitrary: q cur g rule: render_run.induct)
  case (2 ts f ops r)
  have "queued (update_frame f r) = q @ [f]" using 2(4) by (simp add: update_frame_def)
  moreover have "case cur of None \<Rightarrow> \<not> has_frame (update_frame f r) | Some f' \<Rightarrow> shows_frame f' (update_frame f r)"
    using 2(5) by (simp add: update_frame_def shows_frame_def split: option.splits)
  ultimately show ?case using 2(1) [OF 2(2,3), of "q @ [f]" cur] 2(6) by simp
next
  case (3 ts ops r)
  show ?case
  proof (cases q)
    case Nil
    then have same: "run_queued r = r" using 3(4) by (simp add: run_queued_def)
    show ?thesis using 3(1) [OF 3(2,3), of q cur, unfolded same, OF 3(4,5)] 3(6) Nil same by simp
  next
    case (Cons f q')
    then have "queued (run_queued r) = q'" "shows_frame f (run_queued r)"
      using 3(4) by (simp_all add: run_queued_def shows_frame_def)
    then show ?thesis using 3(1) [OF 3(2,3), of q' "Some f"] 3(6) Cons by simp
  qed
next
  case (4 ts ops r)
  have later: "gl_draws G (concat (fst (render_run ts ops r))) (fold (gl_run G) (paint_gl ts r) g) =
      map (\<lambda>f. map Some (pictures_of f)) (screen ops q cur)"
    using 4(1) [OF 4(2) paint_ready [OF G 4(3), of r] 4(4,5)] 4(6) by simp
  show ?case
  proof (cases cur)
    case None
    then have "paint_gl ts r = [ClearColor, ClearBuffer]" using 4(5) by (cases ts) (simp add: paint_gl_def)
    then show ?thesis using later None by (simp add: case_prod_beta gl_draws_append)
  next
    case (Some f)
    then have "gl_draws G (paint_gl ts r) g = (if fr_width f > 0 \<and> fr_height f > 0 then [map Some (pictures_of f)] else [])"
      using paint_draws [OF G 4(3,2), of f r] 4(5,6) by simp
    then show ?thesis using later Some by (simp add: case_prod_beta gl_draws_append)
  qed
qed simp

section \<open>The fragment shader\<close>

text \<open>OpenGL asks of its implementations that the individual floating-point operations be accurate to about one part in
  \<open>10^5\<close>; \<open>rd i\<close> is what the \<open>i\<close>-th operation or constant of the shader makes of the exact value.\<close>

definition gl_precision :: "(nat \<Rightarrow> rat \<Rightarrow> rat) \<Rightarrow> bool" where
  "gl_precision rd \<longleftrightarrow> (\<forall>i x. \<bar>rd i x - x\<bar> \<le> \<bar>x\<bar> / 100000)"

definition clamp :: "rat \<Rightarrow> rat \<Rightarrow> rat \<Rightarrow> rat" where
  "clamp x lo hi = min (max x lo) hi"

text \<open>The colour of a fragment from its three samples.\<close>

definition yuv_rgb :: "(nat \<Rightarrow> rat \<Rightarrow> rat) \<Rightarrow> rat \<Rightarrow> rat \<Rightarrow> rat \<Rightarrow> rat \<times> rat \<times> rat" where
  "yuv_rgb rd y u v =
     (let x = rd 0 (y - rd 1 (625 / 10000)); y' = rd 2 (u - rd 3 (5 / 10)); z = rd 4 (v - rd 5 (5 / 10)) in
      (rd 6 (rd 7 (x * rd 8 (1164 / 1000)) + rd 9 (z * rd 10 (1596 / 1000))),
       rd 11 (rd 12 (rd 13 (x * rd 14 (1164 / 1000)) - rd 15 (y' * rd 16 (391 / 1000))) - rd 17 (z * rd 18 (813 / 1000))),
       rd 19 (rd 20 (x * rd 21 (1164 / 1000)) + rd 22 (y' * rd 23 (2018 / 1000)))))"

definition frag_color :: "(nat \<Rightarrow> rat \<Rightarrow> rat) \<Rightarrow> rat \<Rightarrow> rat \<Rightarrow> rat \<Rightarrow> rat \<times> rat \<times> rat \<times> rat" where
  "frag_color rd y u v = (let (r, g, b) = yuv_rgb rd y u v in (clamp r 0 1, clamp g 0 1, clamp b 0 1, 1))"

text \<open>The conversion of BT.601 from its definition: luma from 16 to 235, colour differences from 16 to 240, the luma being
  \<open>kr R + kg G + kb B\<close>; all in levels of eight bits.\<close>

definition kr :: rat where "kr = 299 / 1000"
definition kg :: rat where "kg = 587 / 1000"
definition kb :: rat where "kb = 114 / 1000"

definition bt601 :: "rat \<Rightarrow> rat \<Rightarrow> rat \<Rightarrow> rat \<times> rat \<times> rat" where
  "bt601 y u v =
     (let l = 255 / 219 * (y - 16); pb = 255 / 112 * (1 - kb) * (u - 128); pr = 255 / 112 * (1 - kr) * (v - 128) in
      (l + pr, l - kb / kg * pb - kr / kg * pr, l + pb))"

lemma bt601_luma:
  "(case bt601 y u v of (r, g, b) \<Rightarrow> kr * r + kg * g + kb * b) = 255 / 219 * (y - 16)"
  by (simp add: bt601_def Let_def kr_def kg_def kb_def field_simps)

lemma rounded:
  assumes "gl_precision rd" "\<bar>x\<bar> \<le> m"
  shows "\<bar>rd i x - x\<bar> \<le> m / 100000"
proof -
  have "\<bar>rd i x - x\<bar> \<le> \<bar>x\<bar> / 100000" using assms(1) by (simp add: gl_precision_def)
  also have "\<dots> \<le> m / 100000" using assms(2) by (simp add: divide_right_mono)
  finally show ?thesis .
qed

lemma shifted_error:
  assumes "gl_precision rd" "0 \<le> a" "a \<le> 1" "0 \<le> c" "c \<le> 1 / 2"
  shows "\<bar>rd i (a - rd j c) - (a - c)\<bar> \<le> 2 / 100000"
proof -
  have c: "\<bar>rd j c - c\<bar> \<le> (1 / 2) / 100000" by (rule rounded [OF assms(1)]) (use assms(4,5) in simp)
  then have "\<bar>a - rd j c\<bar> \<le> 3 / 2" using assms(2-5) by linarith
  from rounded [OF assms(1) this, of i] c show ?thesis by linarith
qed

lemma scaled_error:
  assumes "gl_precision rd" "\<bar>a\<bar> \<le> 1" "\<bar>a' - a\<bar> \<le> 2 / 100000" "0 \<le> c"
  shows "\<bar>rd i (a' * rd j c) - a * c\<bar> \<le> 5 * c / 100000"
proof -
  have c: "\<bar>rd j c - c\<bar> \<le> c / 100000" by (rule rounded [OF assms(1)]) (use assms(4) in simp)
  have a': "\<bar>a'\<bar> \<le> 100002 / 100000" using assms(2,3) by linarith
  have c': "\<bar>rd j c\<bar> \<le> c * (100001 / 100000)" using c assms(4) by linarith
  have "a' * rd j c - a * c = (a' - a) * rd j c + a * (rd j c - c)" by (simp add: algebra_simps)
  also have "\<bar>\<dots>\<bar> \<le> \<bar>a' - a\<bar> * \<bar>rd j c\<bar> + \<bar>a\<bar> * \<bar>rd j c - c\<bar>"
    using abs_triangle_ineq [of "(a' - a) * rd j c" "a * (rd j c - c)"] by (simp add: abs_mult)
  also have "\<dots> \<le> 2 / 100000 * (c * (100001 / 100000)) + 1 * (c / 100000)"
    using assms c c' by (intro add_mono mult_mono) simp_all
  finally have p: "\<bar>a' * rd j c - a * c\<bar> \<le> c * 300002 / 10000000000" by simp
  have "\<bar>a' * rd j c\<bar> \<le> (100002 / 100000) * (c * (100001 / 100000))"
    unfolding abs_mult using a' c' assms(4) by (intro mult_mono) simp_all
  also have "\<dots> \<le> 2 * c" using assms(4) by simp
  finally have "\<bar>rd i (a' * rd j c) - a' * rd j c\<bar> \<le> (100002 / 100000) * (c * (100001 / 100000)) / 100000"
    using rounded [OF assms(1), of "a' * rd j c"] \<open>\<bar>a' * rd j c\<bar> \<le> (100002 / 100000) * (c * (100001 / 100000))\<close> by blast
  with p assms(4) show ?thesis by linarith
qed

text \<open>The exact colour of the shader's formula, and how far off the rounded one is, in eight-bit levels.\<close>

definition exact_rgb :: "rat \<Rightarrow> rat \<Rightarrow> rat \<Rightarrow> rat \<times> rat \<times> rat" where
  "exact_rgb y u v = yuv_rgb (\<lambda>_ x. x) y u v"

lemma rounding_error:
  assumes "gl_precision rd" "0 \<le> y" "y \<le> 1" "0 \<le> u" "u \<le> 1" "0 \<le> v" "v \<le> 1"
    and "yuv_rgb rd y u v = (r, g, b)" and "exact_rgb y u v = (r0, g0, b0)"
  shows "\<bar>255 * r - 255 * r0\<bar> \<le> 5 / 100" "\<bar>255 * g - 255 * g0\<bar> \<le> 5 / 100" "\<bar>255 * b - 255 * b0\<bar> \<le> 5 / 100"
proof -
  define x where "x = rd 0 (y - rd 1 (625 / 10000))"
  define y' where "y' = rd 2 (u - rd 3 (5 / 10))"
  define z where "z = rd 4 (v - rd 5 (5 / 10))"
  define x0 where "x0 = y - 625 / 10000"
  define y0 where "y0 = u - 5 / 10"
  define z0 where "z0 = v - 5 / 10"
  have e: "\<bar>x - x0\<bar> \<le> 2 / 100000" "\<bar>y' - y0\<bar> \<le> 2 / 100000" "\<bar>z - z0\<bar> \<le> 2 / 100000"
    unfolding x_def y'_def z_def x0_def y0_def z0_def
    using shifted_error [OF assms(1) assms(2,3), of "625 / 10000"] shifted_error [OF assms(1) assms(4,5), of "5 / 10"]
      shifted_error [OF assms(1) assms(6,7), of "5 / 10"] by simp_all
  have m: "\<bar>x0\<bar> \<le> 1" "\<bar>y0\<bar> \<le> 1 / 2" "\<bar>z0\<bar> \<le> 1 / 2"
    unfolding x0_def y0_def z0_def using assms(2-7) by linarith+
  have m': "\<bar>y0\<bar> \<le> 1" "\<bar>z0\<bar> \<le> 1" using m by linarith+
  note sx = scaled_error [OF assms(1) m(1) e(1)] and sy = scaled_error [OF assms(1) m'(1) e(2)]
    and sz = scaled_error [OF assms(1) m'(2) e(3)]
  have sum: "\<bar>rd i s - s0\<bar> \<le> k / 100000 + 3 / 100000" if "\<bar>s - s0\<bar> \<le> k / 100000" "\<bar>s0\<bar> \<le> 5 / 2" "k \<le> 20" for i s s0 k
  proof -
    have "\<bar>s\<bar> \<le> 3" using that by linarith
    from rounded [OF assms(1) this, of i] that(1) show ?thesis by linarith
  qed
  note in_r = sx [of "1164 / 1000" 7 8] sz [of "1596 / 1000" 9 10]
  note in_g = sx [of "1164 / 1000" 13 14] sy [of "391 / 1000" 15 16] sz [of "813 / 1000" 17 18]
  note in_b = sx [of "1164 / 1000" 20 21] sy [of "2018 / 1000" 22 23]
  have eqs:
    "r = rd 6 (rd 7 (x * rd 8 (1164 / 1000)) + rd 9 (z * rd 10 (1596 / 1000)))" "r0 = x0 * (1164 / 1000) + z0 * (1596 / 1000)"
    "g = rd 11 (rd 12 (rd 13 (x * rd 14 (1164 / 1000)) - rd 15 (y' * rd 16 (391 / 1000))) - rd 17 (z * rd 18 (813 / 1000)))"
    "g0 = x0 * (1164 / 1000) - y0 * (391 / 1000) - z0 * (813 / 1000)"
    "b = rd 19 (rd 20 (x * rd 21 (1164 / 1000)) + rd 22 (y' * rd 23 (2018 / 1000)))" "b0 = x0 * (1164 / 1000) + y0 * (2018 / 1000)"
    using assms(8,9) by (simp_all add: yuv_rgb_def exact_rgb_def Let_def x_def y'_def z_def x0_def y0_def z0_def)
  have a: "\<bar>x0 * (1164 / 1000)\<bar> \<le> 1164 / 1000" "\<bar>y0 * (391 / 1000)\<bar> \<le> 2 / 10" "\<bar>y0 * (2018 / 1000)\<bar> \<le> 101 / 100"
    "\<bar>z0 * (1596 / 1000)\<bar> \<le> 8 / 10" "\<bar>z0 * (813 / 1000)\<bar> \<le> 41 / 100"
    using m by linarith+
  have "\<bar>r - r0\<bar> \<le> 14 / 100000 + 3 / 100000"
    unfolding eqs(1,2) by (rule sum, use in_r in linarith, use a(1,4) in linarith, simp)
  then show "\<bar>255 * r - 255 * r0\<bar> \<le> 5 / 100" by linarith
  have "\<bar>rd 12 (rd 13 (x * rd 14 (1164 / 1000)) - rd 15 (y' * rd 16 (391 / 1000))) - (x0 * (1164 / 1000) - y0 * (391 / 1000))\<bar>
      \<le> 8 / 100000 + 3 / 100000"
    by (rule sum, use in_g(1,2) in linarith, use a(1,2) in linarith, simp)
  then have "\<bar>g - g0\<bar> \<le> (31 / 2) / 100000 + 3 / 100000"
    unfolding eqs(3,4) by (intro sum, use in_g(3) in linarith, use a(1,2,5) in linarith, simp)
  then show "\<bar>255 * g - 255 * g0\<bar> \<le> 5 / 100" by linarith
  have "\<bar>b - b0\<bar> \<le> 16 / 100000 + 3 / 100000"
    unfolding eqs(5,6) by (rule sum, use in_b in linarith, use a(1,3) in linarith, simp)
  then show "\<bar>255 * b - 255 * b0\<bar> \<le> 5 / 100" by linarith
qed

lemma formula_error:
  assumes "0 \<le> y" "y \<le> 1" "0 \<le> u" "u \<le> 1" "0 \<le> v" "v \<le> 1"
    and "exact_rgb y u v = (r0, g0, b0)" and "bt601 (255 * y) (255 * u) (255 * v) = (r', g', b')"
  shows "255 * r0 - r' \<in> {76 / 100..90 / 100}" "255 * g0 - g' \<in> {- 74 / 100..- 41 / 100}"
    "255 * b0 - b' \<in> {88 / 100..120 / 100}"
proof -
  have eqs: "r0 = 291 / 250 * y + 399 / 250 * v - 3483 / 4000"
    "g0 = 291 / 250 * y - 391 / 1000 * u - 813 / 1000 * v + 2117 / 4000"
    "b0 = 291 / 250 * y + 1009 / 500 * u - 4327 / 4000"
    "r' = 21675 / 73 * y + 1823301 / 4480 * v - 2847823 / 12775"
    "g' = 21675 / 73 * y - 65677851 / 657440 * u - 545166999 / 2629760 * v + 1016668969 / 7498925"
    "b' = 21675 / 73 * y + 1152243 / 2240 * u - 3536578 / 12775"
    using assms(7,8) by (auto simp: yuv_rgb_def exact_rgb_def bt601_def Let_def kr_def kg_def kb_def field_simps)
  show "255 * r0 - r' \<in> {76 / 100..90 / 100}"
    unfolding atLeastAtMost_iff eqs(1,4) using assms(1-6) by (auto simp: field_simps)
  show "255 * g0 - g' \<in> {- 74 / 100..- 41 / 100}"
    unfolding atLeastAtMost_iff eqs(2,5) using assms(1-6) by (auto simp: field_simps)
  show "255 * b0 - b' \<in> {88 / 100..120 / 100}"
    unfolding atLeastAtMost_iff eqs(3,6) using assms(1-6) by (auto simp: field_simps)
qed

lemma clamp_near:
  assumes "255 * a - a' \<in> {lo..hi}" "\<bar>lo\<bar> \<le> e" "\<bar>hi\<bar> \<le> e"
  shows "\<bar>255 * clamp a 0 1 - clamp a' 0 255\<bar> \<le> e"
  using assms by (auto simp: clamp_def min_def max_def abs_le_iff)

lemma near_range:
  fixes p q :: rat
  assumes "\<bar>255 * p - 255 * q\<bar> \<le> 5 / 100" "255 * q - t \<in> {lo..hi}" "lo' + 5 / 100 \<le> lo" "hi + 5 / 100 \<le> hi'"
  shows "255 * p - t \<in> {lo'..hi'}"
proof -
  have "lo \<le> 255 * q - t" "255 * q - t \<le> hi" using assms(2) by simp_all
  with assms(1,3,4) show ?thesis unfolding atLeastAtMost_iff by (intro conjI) linarith+
qed

section \<open>An instance\<close>

text \<open>A context that does what is documented and no more.\<close>

record gl_state =
  st_active :: nat
  st_bound :: "nat \<Rightarrow> nat"
  st_filter :: "nat \<Rightarrow> gl_value option"
  st_image :: "nat \<Rightarrow> picture option"
  st_program :: bool
  st_uniform :: "string \<Rightarrow> int"

fun plain_run :: "gl_call \<Rightarrow> gl_state \<Rightarrow> gl_state" where
  "plain_run (ActiveTexture u) g = g\<lparr>st_active := u\<rparr>"
| "plain_run (BindTexture t) g = g\<lparr>st_bound := (st_bound g)(st_active g := t)\<rparr>"
| "plain_run (TexParameteri MIN_FILTER v) g = g\<lparr>st_filter := (st_filter g)(st_bound g (st_active g) := Some v)\<rparr>"
| "plain_run (TexImage2D w h d) g =
     g\<lparr>st_image := (st_image g)(st_bound g (st_active g) := Some (w, h, rows_at (row_stride 4 w) w h d))\<rparr>"
| "plain_run BindProgram g = g\<lparr>st_program := True\<rparr>"
| "plain_run ReleaseProgram g = g\<lparr>st_program := False\<rparr>"
| "plain_run (SetUniform name u) g = (if st_program g then g\<lparr>st_uniform := (st_uniform g)(name := u)\<rparr> else g)"
| "plain_run _ g = g"

definition plain_gl :: "gl_state gl" where
  "plain_gl = \<lparr>gl_run = plain_run, active_unit = st_active, bound_at = st_bound, min_filter = st_filter,
     texture_image = st_image, program_bound = st_program, uniform_of = st_uniform, unpack_alignment = (\<lambda>_. 4),
     max_texture_size = 16384\<rparr>"

definition plain_start :: gl_state where
  "plain_start = \<lparr>st_active = 0, st_bound = (\<lambda>_. 0), st_filter = (\<lambda>_. None), st_image = (\<lambda>_. None), st_program = False,
     st_uniform = (\<lambda>_. 0)\<rparr>"

lemma plain_documented: "gl_documented plain_gl"
  unfolding gl_documented_def
proof (intro allI impI)
  fix c g
  assume "\<not> deletes c"
  have param: "plain_run (TexParameteri p v) g =
      (if p = MIN_FILTER then g\<lparr>st_filter := (st_filter g)(st_bound g (st_active g) := Some v)\<rparr> else g)" for p v
    by (cases p) simp_all
  show "active_unit plain_gl (gl_run plain_gl c g) = (case c of ActiveTexture u \<Rightarrow> u | _ \<Rightarrow> active_unit plain_gl g) \<and>
    bound_at plain_gl (gl_run plain_gl c g) =
      (case c of BindTexture t \<Rightarrow> (bound_at plain_gl g)(active_unit plain_gl g := t) | _ \<Rightarrow> bound_at plain_gl g) \<and>
    min_filter plain_gl (gl_run plain_gl c g) =
      (case c of TexParameteri p v \<Rightarrow>
         if p = MIN_FILTER then (min_filter plain_gl g)(bound_at plain_gl g (active_unit plain_gl g) := Some v)
         else min_filter plain_gl g
       | _ \<Rightarrow> min_filter plain_gl g) \<and>
    (case c of
       TexImage2D w h d \<Rightarrow>
         (let stride = row_stride (unpack_alignment plain_gl g) w in
          0 \<le> w \<and> w \<le> max_texture_size plain_gl \<and> 0 \<le> h \<and> h \<le> max_texture_size plain_gl \<and>
          (w > 0 \<and> h > 0 \<longrightarrow> stride * (h - 1) + w \<le> int (length d)) \<longrightarrow>
          texture_image plain_gl (gl_run plain_gl c g) =
            (texture_image plain_gl g)(bound_at plain_gl g (active_unit plain_gl g) := Some (w, h, rows_at stride w h d)))
     | _ \<Rightarrow> texture_image plain_gl (gl_run plain_gl c g) = texture_image plain_gl g) \<and>
    program_bound plain_gl (gl_run plain_gl c g) =
      (case c of BindProgram \<Rightarrow> True | ReleaseProgram \<Rightarrow> False | _ \<Rightarrow> program_bound plain_gl g) \<and>
    uniform_of plain_gl (gl_run plain_gl c g) =
      (case c of SetUniform name u \<Rightarrow>
         if program_bound plain_gl g then (uniform_of plain_gl g)(name := u) else uniform_of plain_gl g
       | _ \<Rightarrow> uniform_of plain_gl g) \<and>
    unpack_alignment plain_gl (gl_run plain_gl c g) = unpack_alignment plain_gl g"
    by (cases c) (simp_all add: plain_gl_def param Let_def)
qed

section \<open>Properties\<close>

text \<open>C31. What is drawn.  On any OpenGL that does what is documented, with nothing else changing the context and row alignment
  at its initial 4: after the initialisation, frames arrive, posted functions are run and paints happen in any order.  If
  no arriving frame is of a width that is not a multiple of 8, of a height of 1, larger than a texture may be or short of
  bytes (empty frames may arrive), then the draws are exactly those of the paints at which a non-empty frame has been
  taken from the queue, and at each of them the three samplers see the pixels of the three planes of the frame taken last.
  (Of other frames OpenGL reads rows from the wrong places or beyond the plane, or there is no chroma.)\<close>

theorem qt_samplers_see_frame:
  assumes "gl_documented G" and "unpack_alignment G g = 4" and "names_ok names"
    and "\<forall>f\<in>set (arrived_frames ops). frame_fits G f"
  shows "gl_draws G (initialize_gl names @ concat (fst (render_run names ops renderer_new))) g =
    map (\<lambda>f. map Some (pictures_of f)) (screen ops [] None)"
  using run_draws [OF assms(1,3) initialize_ready(1) [OF assms(1,2)], of renderer_new "[]" None ops] assms(4)
  by (simp add: gl_draws_append initialize_ready(2) [OF assms(1,2)] renderer_new_def)

lemma qt_samplers_see_frame_witness:
  "gl_draws plain_gl (initialize_gl (4, 5, 6) @
      concat (fst (render_run (4, 5, 6) [Paint, Arrive (pipeline_frame 0), Process, Paint] renderer_new))) plain_start =
    [map Some (pictures_of (pipeline_frame 0))]"
proof -
  have "frame_fits plain_gl (pipeline_frame 0)" by (simp add: frame_fits_def length_pipeline_frame plain_gl_def)
  moreover have "unpack_alignment plain_gl plain_start = 4" "names_ok (4, 5, 6)" by (simp_all add: plain_gl_def names_ok_def)
  ultimately show ?thesis
    using qt_samplers_see_frame [OF plain_documented, of plain_start "(4, 5, 6)" "[Paint, Arrive (pipeline_frame 0), Process, Paint]"]
    by (simp add: length_pipeline_frame)
qed

text \<open>C40. The colours.  Let every operation and constant of the shader be rounded as OpenGL allows, by up to one part in
  \<open>10^5\<close>, and the samples lie between 0 and 1.  Against the conversion BT.601 defines, red comes out between 0.71 and 0.95
  levels too high, green between 0.36 and 0.79 too low, blue between 0.83 and 1.25 too high; the colour that is stored
  lies in the unit cube and is within 1.25 levels of the BT.601 colour cut to it; and what should be grey has at
  least one level more of red and of blue than of green.\<close>

theorem yuv_shader_error:
  assumes "gl_precision rd" and "{y, u, v} \<subseteq> {0..1}"
    and "yuv_rgb rd y u v = (r, g, b)" and "bt601 (255 * y) (255 * u) (255 * v) = (r', g', b')"
    and "frag_color rd y u v = (cr, cg, cb, ca)"
  shows "255 * r - r' \<in> {71 / 100..95 / 100} \<and> 255 * g - g' \<in> {- 79 / 100..- 36 / 100} \<and>
    255 * b - b' \<in> {83 / 100..125 / 100} \<and>
    {cr, cg, cb, ca} \<subseteq> {0..1} \<and>
    \<bar>255 * cr - clamp r' 0 255\<bar> \<le> 125 / 100 \<and> \<bar>255 * cg - clamp g' 0 255\<bar> \<le> 125 / 100 \<and>
    \<bar>255 * cb - clamp b' 0 255\<bar> \<le> 125 / 100 \<and>
    (u = 128 / 255 \<and> v = 128 / 255 \<longrightarrow> r' = g' \<and> g' = b' \<and> 255 * (r - g) \<ge> 1 \<and> 255 * (b - g) \<ge> 1)"
proof -
  obtain r0 g0 b0 where x: "exact_rgb y u v = (r0, g0, b0)" by (metis prod.collapse)
  have unit: "0 \<le> y" "y \<le> 1" "0 \<le> u" "u \<le> 1" "0 \<le> v" "v \<le> 1" using assms(2) by simp_all
  note rounding = rounding_error [OF assms(1) unit assms(3) x] and formula = formula_error [OF unit x assms(4)]
  have off: "255 * r - r' \<in> {71 / 100..95 / 100}" by (rule near_range [OF rounding(1) formula(1)]) simp_all
  have off': "255 * g - g' \<in> {- 79 / 100..- 36 / 100}" by (rule near_range [OF rounding(2) formula(2)]) simp_all
  have off'': "255 * b - b' \<in> {83 / 100..125 / 100}" by (rule near_range [OF rounding(3) formula(3)]) simp_all
  have c: "cr = clamp r 0 1" "cg = clamp g 0 1" "cb = clamp b 0 1" "ca = 1"
    using assms(3,5) by (simp_all add: frag_color_def)
  have "r' = g' \<and> g' = b'" if "u = 128 / 255" "v = 128 / 255"
    using assms(4) that by (auto simp: bt601_def Let_def)
  moreover have "{cr, cg, cb, ca} \<subseteq> {0..1}" by (simp add: c clamp_def)
  moreover have "\<bar>255 * cr - clamp r' 0 255\<bar> \<le> 125 / 100" "\<bar>255 * cg - clamp g' 0 255\<bar> \<le> 125 / 100"
    "\<bar>255 * cb - clamp b' 0 255\<bar> \<le> 125 / 100"
    unfolding c by (rule clamp_near [OF off] clamp_near [OF off'] clamp_near [OF off''], simp, simp)+
  moreover have "255 * (r - g) \<ge> 1 \<and> 255 * (b - g) \<ge> 1" if "r' = g' \<and> g' = b'"
  proof -
    have "71 / 100 \<le> 255 * r - g'" "255 * g - g' \<le> - 36 / 100" "83 / 100 \<le> 255 * b - g'"
      using off off' off'' that by simp_all
    then show ?thesis unfolding right_diff_distrib by (intro conjI) linarith+
  qed
  ultimately show ?thesis using off off' off'' by blast
qed

lemma yuv_shader_error_witness:
  "case yuv_rgb (\<lambda>i x. x * (100001 / 100000)) (1 / 2) (128 / 255) (128 / 255) of
     (r, g, b) \<Rightarrow> 255 * (r - g) \<ge> 1 \<and> 255 * (b - g) \<ge> 1"
proof -
  let ?rd = "\<lambda>(i :: nat) (x :: rat). x * (100001 / 100000)" and ?n = "128 / 255 :: rat"
  have rd: "gl_precision ?rd"
    unfolding gl_precision_def
  proof (intro allI)
    fix i :: nat and x :: rat
    have "?rd i x - x = x / 100000" by (simp add: field_simps)
    then show "\<bar>?rd i x - x\<bar> \<le> \<bar>x\<bar> / 100000" by (simp only: abs_divide)
  qed
  have unit: "{1 / 2, ?n, ?n} \<subseteq> {0..1}" by simp
  obtain r g b where rgb: "yuv_rgb ?rd (1 / 2) ?n ?n = (r, g, b)" by (metis prod.collapse)
  obtain r' g' b' where bt: "bt601 (255 * (1 / 2)) (255 * ?n) (255 * ?n) = (r', g', b')" by (metis prod.collapse)
  obtain cr cg cb ca where frag: "frag_color ?rd (1 / 2) ?n ?n = (cr, cg, cb, ca)" by (metis prod.collapse)
  have "255 * (r - g) \<ge> 1 \<and> 255 * (b - g) \<ge> 1" using yuv_shader_error [OF rd unit rgb bt frag] by blast
  then show ?thesis by (simp only: rgb prod.case)
qed

end
