(* ===== verification/Signaling.thy ===== *)
theory Signaling
  imports WebSocket RoomManager Sdp
begin

text \<open>
  The room manager over the sockets: its \<open>notify_\<close> is \<open>WebSocketServer::send\<close>, as the README of
  \<open>module05_signaling\<close> wires it, and its operations are called by a thread that does not hold \<open>conns_mutex_\<close>; from
  within the server's own callbacks, which do hold it, the first notification blocks (\<open>ws_callback_deadlock\<close>).  How many
  bytes of a frame each \<open>write\<close> takes is an argument: \<open>send\<close> does not look at it.
\<close>

section \<open>Notifications as bytes\<close>

text \<open>Strings are the bytes that travel.\<close>

definition chars :: "bytes \<Rightarrow> string" where
  "chars b = map (\<lambda>x. char_of (unat x)) b"

lemma chars_ascii [simp]: "chars (ascii s) = s"
proof -
  have "char_of (unat (of_char c :: u8)) = c" for c
  proof -
    have "of_char c < (256 :: nat)" by (rule nat_of_char_less_256)
    then have "unat (of_nat (of_char c) :: u8) = of_char c" by (simp add: unsigned_of_nat take_bit_nat_eq_self)
    then show ?thesis by (simp only: of_nat_of_char char_of_char)
  qed
  then show ?thesis by (simp add: chars_def ascii_def comp_def)
qed

lemma length_ascii [simp]: "length (ascii s) = length s"
  by (simp add: ascii_def)

text \<open>Calls of the room manager one after the other, with everything they notify, in order.\<close>

fun room_calls ::
    "'j json_lib \<Rightarrow> (int set \<Rightarrow> int list) \<Rightarrow> room_op list \<Rightarrow> room_manager \<Rightarrow> room_manager \<times> notifications" where
  "room_calls L iter [] st = (st, [])"
| "room_calls L iter (op # ops) st =
     (case room_step L iter op st of (st1, ns, _) \<Rightarrow>
      case room_calls L iter ops st1 of (st2, ns') \<Rightarrow> (st2, ns @ ns'))"

text \<open>What one call of \<open>send\<close> adds to the stream of client \<open>b\<close>; \<open>n\<close> is what its \<open>write\<close> returns.\<close>

fun written_to :: "int \<Rightarrow> int \<Rightarrow> ws_effect list \<Rightarrow> bytes" where
  "written_to b n [] = []"
| "written_to b n (Write fd d # es) = (if fd = b then take (nat n) d else []) @ written_to b n es"
| "written_to b n (_ # es) = written_to b n es"

text \<open>The bytes client \<open>b\<close> gets for a list of notifications: \<open>env k\<close> holds the connection table the \<open>k\<close>-th of them finds
  and the answer of its \<open>write\<close>.\<close>

fun stream_to :: "int \<Rightarrow> (nat \<Rightarrow> ws_conns \<times> int) \<Rightarrow> nat \<Rightarrow> notifications \<Rightarrow> bytes" where
  "stream_to b env k [] = []"
| "stream_to b env k ((peer, msg) # ns) =
     (case env k of (conns, n) \<Rightarrow> written_to b n (ws_send conns peer (ascii msg))) @ stream_to b env (Suc k) ns"

text \<open>The messages for \<open>b\<close> among them.\<close>

definition msgs_for :: "int \<Rightarrow> notifications \<Rightarrow> bytes list" where
  "msgs_for b ns = map (\<lambda>(_, msg). ascii msg) (filter (\<lambda>(peer, _). peer = b) ns)"

lemma msgs_for_simps [simp]:
  "msgs_for b [] = []" "msgs_for b (ns @ ns') = msgs_for b ns @ msgs_for b ns'"
  "msgs_for b ((peer, msg) # ns) = (if peer = b then [ascii msg] else []) @ msgs_for b ns"
  by (simp_all add: msgs_for_def)

lemma calls_append:
  "room_calls L iter (ops @ ops') st =
    (fst (room_calls L iter ops' (fst (room_calls L iter ops st))),
     snd (room_calls L iter ops st) @ snd (room_calls L iter ops' (fst (room_calls L iter ops st))))"
proof (induction ops arbitrary: st)
  case (Cons op ops)
  obtain st1 ns ok where "room_step L iter op st = (st1, ns, ok)" by (metis prod.collapse)
  then show ?case using Cons.IH [of st1] by (simp add: case_prod_beta)
qed (simp add: case_prod_beta)

lemma step_notify: "has_notify (fst (room_step L iter op st)) = has_notify st"
proof (cases op)
  case (Join c r)
  then show ?thesis using join_state(4) [of L iter c r st] by (simp add: case_prod_beta)
next
  case (Leave c)
  then show ?thesis using leave_state(3) [of L iter c st] by (simp add: case_prod_beta)
next
  case (Relay c m)
  then show ?thesis by (auto simp: room_relay_def split: option.split prod.split)
qed

lemma calls_notify: "has_notify (fst (room_calls L iter ops st)) = has_notify st"
proof (induction ops arbitrary: st)
  case (Cons op ops)
  then show ?case by (simp add: case_prod_beta step_notify)
qed simp

text \<open>Every \<open>write\<close> to \<open>b\<close> takes the whole frame.\<close>

definition writes_complete :: "int \<Rightarrow> (nat \<Rightarrow> ws_conns \<times> int) \<Rightarrow> nat \<Rightarrow> notifications \<Rightarrow> bool" where
  "writes_complete b env k ns \<longleftrightarrow>
     (\<forall>i<length ns. fst (ns ! i) = b \<longrightarrow> fst (env (k + i)) b \<noteq> None \<and> length (snd (ns ! i)) < 2 ^ 63 \<and>
        snd (env (k + i)) = int (length (build_ws_frame (ascii (snd (ns ! i))))))"

lemma writes_complete_Cons:
  assumes "writes_complete b env k ((peer, msg) # ns)"
  shows "writes_complete b env (Suc k) ns"
    and "peer = b \<Longrightarrow> fst (env k) b \<noteq> None \<and> length msg < 2 ^ 63 \<and> snd (env k) = int (length (build_ws_frame (ascii msg)))"
proof -
  note w = assms [unfolded writes_complete_def, rule_format]
  show "writes_complete b env (Suc k) ns"
    unfolding writes_complete_def using w [of "Suc i" for i] by auto
  show "peer = b \<Longrightarrow> fst (env k) b \<noteq> None \<and> length msg < 2 ^ 63 \<and> snd (env k) = int (length (build_ws_frame (ascii msg)))"
    using w [of 0] by simp
qed

lemma stream_frames:
  "writes_complete b env k ns \<Longrightarrow>
   stream_to b env k ns = concat (map (\<lambda>msg. ws_frame 0x81 None msg) (msgs_for b ns)) \<and>
   (\<forall>msg\<in>set (msgs_for b ns). length msg < 2 ^ 63)"
proof (induction ns arbitrary: k)
  case (Cons m ns)
  obtain peer msg where m: "m = (peer, msg)" by (cases m)
  obtain conns n where e: "env k = (conns, n)" by (cases "env k")
  note w = writes_complete_Cons [OF Cons.prems [unfolded m]]
  show ?case
    using Cons.IH [OF w(1)] w(2) e by (auto simp: m ws_send_def build_is_frame split: option.split)
qed simp

lemma parse_stream:
  assumes "\<forall>msg\<in>set ms. length msg < 2 ^ 63"
  shows "parse_ws_frames b (concat (map (\<lambda>msg. ws_frame 0x81 None msg) ms)) = (map (OnMessage b) ms, [], Ws_done)"
  using parse_frames [of "map (Pair None) ms" b] assms by (auto simp: comp_def key_ok_def)

section \<open>Session descriptions\<close>

text \<open>The session descriptions a client finds in the messages it reads.\<close>

definition offer_of :: "'j json_lib \<Rightarrow> string \<Rightarrow> (sdp_error + sdp) option" where
  "offer_of L text =
     map_option sdp_parse (Option.bind (j_parse L text) (\<lambda>j. Option.bind (j_at L ''sdp'' j) (get_str L)))"

text \<open>A text that asks to be relayed to \<open>b\<close>; with the sender \<open>a\<close> put in, the library writes it as \<open>out\<close>, which reads back
  with the description \<open>s\<close> in it.\<close>

definition carries :: "'j json_lib \<Rightarrow> int \<Rightarrow> int \<Rightarrow> string \<Rightarrow> string \<Rightarrow> sdp \<Rightarrow> bool" where
  "carries L a b text out s \<longleftrightarrow>
     (\<exists>j j' v. j_parse L text = Some j \<and> j_contains L ''to'' j \<and> j_at L ''to'' j = Some v \<and> \<not> j_is_null L v \<and>
        get_int L v = Some b \<and> j_set L ''from'' (j_int L a) j = Some j' \<and> j_dump L j' = Some out \<and>
        j_parse L out = Some j' \<and> Option.bind (j_at L ''sdp'' j') (get_str L) = Some (sdp_serialize s))"

lemma carries_relay:
  "carries L a b text out s \<Longrightarrow> has_notify rm \<Longrightarrow> room_relay L iter a text rm = (rm, [(b, out)])"
  by (auto simp: carries_def room_relay_def)

lemma carries_offer:
  "carries L a b text out s \<Longrightarrow> sdp_ok s \<Longrightarrow> offer_of L out = Some (Inr s)"
  by (auto simp: carries_def offer_of_def sdp_read_back)

section \<open>Properties\<close>

text \<open>C11. Signaling between sockets.  Any calls of \<open>join\<close>, \<open>leave\<close> and \<open>relay\<close>, with or without exceptions, are made one after
  the other by a thread that does not hold \<open>conns_mutex_\<close>, their notifications sent with \<open>WebSocketServer::send\<close> over
  connection tables that may change in between; client \<open>b\<close> is in them whenever it is addressed, each \<open>write\<close> to it takes
  its frame whole, and nothing else is written to it.  Then \<open>b\<close>'s bytes are one unmasked text frame for every notification
  addressed to it, in order, and are read back as these messages.  Where a call relays a text that carries a session
  description to \<open>b\<close>, in whatever rooms the two are, \<open>b\<close> gets its message between those of the calls before and after,
  with the sender put in, and the description in it parses to the one that was serialized.\<close>

theorem signaling_delivers:
  assumes "room_calls L iter ops rm = (rm', ns)" and "writes_complete b env 0 ns"
  shows "stream_to b env 0 ns = concat (map (ws_frame 0x81 None) (msgs_for b ns)) \<and>
    parse_ws_frames b (stream_to b env 0 ns) = (map (OnMessage b) (msgs_for b ns), [], Ws_done) \<and>
    (\<forall>ops1 a text ops2 out s.
       ops = ops1 @ Relay a text # ops2 \<and> has_notify rm \<and> carries L a b text out s \<and> sdp_ok s \<longrightarrow>
       offer_of L out = Some (Inr s) \<and>
       msgs_for b ns = msgs_for b (snd (room_calls L iter ops1 rm)) @ ascii out #
         msgs_for b (snd (room_calls L iter ops2 (fst (room_calls L iter ops1 rm)))))"
proof -
  have "msgs_for b ns = msgs_for b (snd (room_calls L iter ops1 rm)) @ ascii out #
      msgs_for b (snd (room_calls L iter ops2 (fst (room_calls L iter ops1 rm))))"
    if "ops = ops1 @ Relay a body # ops2" "has_notify rm" "carries L a b body out s" for ops1 a body ops2 out s
  proof -
    have "room_relay L iter a body (fst (room_calls L iter ops1 rm)) = (fst (room_calls L iter ops1 rm), [(b, out)])"
      using carries_relay [OF that(3)] that(2) calls_notify by blast
    then have "snd (room_calls L iter (Relay a body # ops2) (fst (room_calls L iter ops1 rm))) =
        (b, out) # snd (room_calls L iter ops2 (fst (room_calls L iter ops1 rm)))"
      by (simp split: prod.split)
    moreover have "ns = snd (room_calls L iter ops rm)" using assms(1) by simp
    ultimately show ?thesis by (simp add: that(1) calls_append)
  qed
  then show ?thesis
    using stream_frames [OF assms(2)] parse_stream [of "msgs_for b ns" b] carries_offer by metis
qed

definition offer_in :: "sdp \<Rightarrow> tree" where
  "offer_in s = TObj [(''to'', TInt 2), (''sdp'', TStr (sdp_serialize s))]"

definition offer_out :: "sdp \<Rightarrow> tree" where
  "offer_out s = TObj [(''to'', TInt 2), (''sdp'', TStr (sdp_serialize s)), (''from'', TInt 1)]"

text \<open>Client 3 joins the room of the clients 1 and 2, then 1 sends 2 an offer.\<close>

lemma signaling_delivers_witness:
  "let L = tree_lib [(''I'', offer_in Sdp), (''O'', offer_out Sdp), (''J'', joined_doc)];
       ns = snd (room_calls L sorted_list_of_set [Join 3 ''a'', Relay 1 ''I''] two_members);
       c = \<lparr>conn_fd = 2, handshake_done = True, recv_buf = [], ws_buf = []\<rparr>
   in parse_ws_frames 2 (stream_to 2 (\<lambda>_. ([2 \<mapsto> c], 3)) 0 ns) =
        ([OnMessage 2 (ascii ''J''), OnMessage 2 (ascii ''O'')], [], Ws_done) \<and>
      offer_of L ''O'' = Some (Inr Sdp)"
proof -
  let ?L = "tree_lib [(''I'', offer_in Sdp), (''O'', offer_out Sdp), (''J'', joined_doc)]"
  let ?c = "\<lparr>conn_fd = 2, handshake_done = True, recv_buf = [], ws_buf = []\<rparr>"
  let ?ops = "[Join 3 ''a'', Relay 1 ''I'']"
  have ne: "offer_in Sdp \<noteq> offer_out Sdp" "joined_doc \<noteq> offer_in Sdp" "joined_doc \<noteq> offer_out Sdp"
    by (simp_all add: offer_in_def offer_out_def joined_doc_def)
  have c: "carries ?L 1 2 ''I'' ''O'' Sdp"
    unfolding carries_def using ne
    by (intro exI [of _ "offer_in Sdp"] exI [of _ "offer_out Sdp"] exI [of _ "TInt 2"])
      (simp add: tree_lib_def, simp add: offer_in_def offer_out_def)
  have sdp: "sdp_ok Sdp" by (simp add: sdp_ok_def Sdp_def LF_def)
  have p: "peer_message ?L ''peer_joined'' 3 ''a'' = joined_doc" "j_dump ?L joined_doc = Some ''J''"
    using ne by (simp_all add: joined_doc_def peer_message_def tree_lib_def)
  obtain rm1 res where j: "room_join ?L sorted_list_of_set 3 ''a'' two_members = (rm1, [(1, ''J''), (2, ''J'')], res)"
    "has_notify rm1"
    by (simp add: room_join_def p Let_def two_members_def members_of_def room_detach_def)
  have r: "room_relay ?L sorted_list_of_set 1 ''I'' rm1 = (rm1, [(2, ''O'')])" by (rule carries_relay [OF c j(2)])
  have calls: "room_calls ?L sorted_list_of_set ?ops two_members = (rm1, [(1, ''J''), (2, ''J''), (2, ''O'')])"
    using j r by simp
  have w: "writes_complete 2 (\<lambda>_. ([2 \<mapsto> ?c], 3)) 0 [(1, ''J''), (2, ''J''), (2, ''O'')]"
    by (auto simp: writes_complete_def less_Suc_eq build_is_frame ws_frame_def len_bytes_def mask_bytes_def)
  have "?ops = [Join 3 ''a''] @ Relay 1 ''I'' # [] \<and> has_notify two_members \<and> carries ?L 1 2 ''I'' ''O'' Sdp \<and> sdp_ok Sdp"
    using c sdp by (simp add: two_members_ok)
  with signaling_delivers [OF calls w] have "offer_of ?L ''O'' = Some (Inr Sdp)" by blast
  then show ?thesis
    using conjunct1 [OF conjunct2 [OF signaling_delivers [OF calls w]]] unfolding Let_def calls snd_conv by simp
qed

text \<open>A \<open>write\<close> that takes only a part, which \<open>send\<close> does not notice, garbles the stream: of \<open>ab\<close>, cut after three
  bytes, and \<open>cd\<close> behind it the client makes one message of an \<open>a\<close> and the first byte of the second frame, and waits for a
  frame of 99 bytes.\<close>

lemma short_write_garbles:
  "parse_ws_frames 2 (take 3 (build_ws_frame (ascii ''ab'')) @ build_ws_frame (ascii ''cd'')) =
    ([OnMessage 2 [97, 0x81]], [2, 99, 100], Ws_done)"
proof -
  have a: "ascii ''ab'' = [97, 98]" "ascii ''cd'' = [99, 100]" by (simp_all add: ascii_def)
  have "take 3 (build_ws_frame (ascii ''ab'')) @ build_ws_frame (ascii ''cd'') = ws_frame 0x81 None [97, 0x81] @ [2, 99, 100]"
    by (simp add: build_is_frame ws_frame_def len_bytes_def mask_bytes_def a)
  then show ?thesis
    using parse_frame [of "[97, 0x81]" None "0x81" 2 "[2, 99, 100]"]
    by (simp add: key_ok_def parse_ws_frames.simps [of 2 "[2, 99, 100]"] ws_length_def ws_total_def ws_masked_def Let_def)
qed

end
