(* ===== verification/Locks.thy ===== *)
theory Locks
  imports Prelude
begin

text \<open>
  Threads that share mutexes (\<open>std::mutex\<close> under \<open>std::lock_guard\<close>): the interleaved steps of any number of threads,
  each a sequence of acquisitions and releases, and the argument from an order on the mutexes that none of them waits
  for ever.  What a thread does between two of them does not matter here.
\<close>

section \<open>Threads and their steps\<close>

datatype 'l lock_act = Acq 'l | Rel 'l

text \<open>A thread: the mutexes it holds and what is left of its run.\<close>

type_synonym 'l lock_thread = "'l set \<times> 'l lock_act list"

text \<open>A mutex is acquired when no thread holds it, the acquiring one included.\<close>

inductive lock_step :: "'l lock_thread list \<Rightarrow> 'l lock_thread list \<Rightarrow> bool" where
  lock_acquire: "i < length ts \<Longrightarrow> ts ! i = (H, Acq l # p) \<Longrightarrow> \<forall>t\<in>set ts. l \<notin> fst t \<Longrightarrow>
    lock_step ts (ts[i := (insert l H, p)])"
| lock_release: "i < length ts \<Longrightarrow> ts ! i = (H, Rel l # p) \<Longrightarrow> l \<in> H \<Longrightarrow>
    lock_step ts (ts[i := (H - {l}, p)])"

inductive_cases lock_stepE: "lock_step ts us"

inductive lock_run :: "nat \<Rightarrow> 'l lock_thread list \<Rightarrow> 'l lock_thread list \<Rightarrow> bool" where
  lock_run_0: "lock_run 0 ts ts"
| lock_run_Suc: "lock_run n ts us \<Longrightarrow> lock_step us vs \<Longrightarrow> lock_run (Suc n) ts vs"

definition remaining_acts :: "'l lock_thread list \<Rightarrow> nat" where
  "remaining_acts ts = (\<Sum>t\<leftarrow>ts. length (snd t))"

definition all_finished :: "'l lock_thread list \<Rightarrow> bool" where
  "all_finished ts \<longleftrightarrow> (\<forall>t\<in>set ts. t = ({}, []))"

definition exclusive :: "'l lock_thread list \<Rightarrow> bool" where
  "exclusive ts \<longleftrightarrow> (\<forall>i j. i < length ts \<longrightarrow> j < length ts \<longrightarrow> i \<noteq> j \<longrightarrow> fst (ts ! i) \<inter> fst (ts ! j) = {})"

definition start_threads :: "('op \<Rightarrow> 'l lock_act list) \<Rightarrow> 'op list list \<Rightarrow> 'l lock_thread list" where
  "start_threads acts progs = map (\<lambda>ops. ({}, concat (map acts ops))) progs"

text \<open>A run that acquires upwards in the order, releases only what it holds and ends with nothing.\<close>

fun ranked :: "('l \<Rightarrow> nat) \<Rightarrow> 'l set \<Rightarrow> 'l lock_act list \<Rightarrow> bool" where
  "ranked rank H [] \<longleftrightarrow> H = {}"
| "ranked rank H (Acq l # p) \<longleftrightarrow> (\<forall>k\<in>H. rank k < rank l) \<and> ranked rank (insert l H) p"
| "ranked rank H (Rel l # p) \<longleftrightarrow> l \<in> H \<and> ranked rank (H - {l}) p"

section \<open>Steps\<close>

lemma remaining_upd:
  "i < length ts \<Longrightarrow> remaining_acts (ts[i := (H, p)]) + length (snd (ts ! i)) = remaining_acts ts + length p"
  by (induction ts arbitrary: i) (auto simp: remaining_acts_def split: nat.split)

lemma step_remaining:
  assumes "lock_step ts us"
  shows "Suc (remaining_acts us) = remaining_acts ts"
  using assms
proof cases
  case (lock_acquire i H l p)
  then show ?thesis using remaining_upd [of i ts "insert l H" p] by simp
next
  case (lock_release i H l p)
  then show ?thesis using remaining_upd [of i ts "H - {l}" p] by simp
qed

lemma run_remaining: "lock_run n ts us \<Longrightarrow> n + remaining_acts us = remaining_acts ts"
  by (induction rule: lock_run.induct) (auto dest: step_remaining)

lemma run_trans: "lock_run n us vs \<Longrightarrow> lock_run m ts us \<Longrightarrow> lock_run (m + n) ts vs"
  by (induction rule: lock_run.induct) (auto intro: lock_run.intros)

lemma exclusive_upd:
  assumes "exclusive ts" "\<And>j. j < length ts \<Longrightarrow> j \<noteq> i \<Longrightarrow> H \<inter> fst (ts ! j) = {}"
  shows "exclusive (ts[i := (H, p)])"
proof -
  have "fst (ts[i := (H, p)] ! a) = (if a = i then H else fst (ts ! a))" if "a < length ts" for a
    using that by (simp add: nth_list_update)
  then show ?thesis using assms unfolding exclusive_def length_list_update by (simp add: Int_commute)
qed

lemma step_exclusive:
  assumes "lock_step ts us" "exclusive ts"
  shows "exclusive us"
  using assms(1)
proof cases
  case (lock_acquire i H l p)
  have "insert l H \<inter> fst (ts ! j) = {}" if "j < length ts" "j \<noteq> i" for j
    using that lock_acquire nth_mem [of j ts] assms(2) by (fastforce simp: exclusive_def)
  then show ?thesis using exclusive_upd [OF assms(2)] lock_acquire(1) by blast
next
  case (lock_release i H l p)
  have "(H - {l}) \<inter> fst (ts ! j) = {}" if "j < length ts" "j \<noteq> i" for j
    using that lock_release assms(2) by (fastforce simp: exclusive_def)
  then show ?thesis using exclusive_upd [OF assms(2)] lock_release(1) by blast
qed

lemma ranked_append: "ranked rank H p \<Longrightarrow> ranked rank {} q \<Longrightarrow> ranked rank H (p @ q)"
  by (induction rank H p rule: ranked.induct) simp_all

lemma ranked_concat: "(\<And>p. p \<in> set ps \<Longrightarrow> ranked rank {} p) \<Longrightarrow> ranked rank {} (concat ps)"
  by (induction ps) (simp_all add: ranked_append)

text \<open>Two threads that take two mutexes in opposite orders can block each other for ever.\<close>

lemma circular_wait:
  assumes "a \<noteq> b"
  shows "\<exists>ts. lock_run 2 [({}, Acq a # Acq b # p), ({}, Acq b # Acq a # q)] ts \<and>
    \<not> all_finished ts \<and> (\<nexists>us. lock_step ts us)"
proof -
  let ?s = "[({}, Acq a # Acq b # p), ({}, Acq b # Acq a # q)]"
  let ?t = "[({a}, Acq b # p), ({b}, Acq a # q)]"
  have "lock_step ?s [({a}, Acq b # p), ({}, Acq b # Acq a # q)]"
    using lock_acquire [of 0 ?s "{}" a "Acq b # p"] by simp
  moreover have "lock_step [({a}, Acq b # p), ({}, Acq b # Acq a # q)] ?t"
    using lock_acquire [of 1 "[({a}, Acq b # p), ({}, Acq b # Acq a # q)]" "{}" b "Acq a # q"] assms by simp
  ultimately have "lock_run 2 ?s ?t"
    using lock_run_Suc [OF lock_run_Suc [OF lock_run_0]] by (simp add: numeral_2_eq_2)
  moreover have "\<not> lock_step ?t us" for us
    by (auto elim!: lock_stepE simp: less_Suc_eq nth_Cons')
  ultimately show ?thesis by (intro exI [of _ ?t]) (simp add: all_finished_def)
qed

section \<open>Operations that keep to an order\<close>

locale lock_order =
  fixes rank :: "'l \<Rightarrow> nat"
    and acts :: "'op \<Rightarrow> 'l lock_act list"
  assumes acts_ranked: "ranked rank {} (acts op)"
begin

definition sound :: "'l lock_thread list \<Rightarrow> bool" where
  "sound ts \<longleftrightarrow> exclusive ts \<and> (\<forall>t\<in>set ts. ranked rank (fst t) (snd t))"

lemma start_sound: "sound (start_threads acts progs)"
  by (auto simp: sound_def exclusive_def start_threads_def intro!: ranked_concat acts_ranked)

lemma step_sound:
  assumes "lock_step ts us" "sound ts"
  shows "sound us"
proof -
  have upd: "\<forall>t\<in>set (ts[i := (H, p)]). ranked rank (fst t) (snd t)" if "ranked rank H p" for i H p
    using assms(2) that set_update_subset_insert [of ts i "(H, p)"] by (fastforce simp: sound_def)
  have at: "ranked rank H p" if "i < length ts" "ts ! i = (H, p)" for i H p
    using assms(2) that nth_mem by (fastforce simp: sound_def)
  from assms(1) have "\<forall>t\<in>set us. ranked rank (fst t) (snd t)"
  proof cases
    case (lock_acquire i H l p)
    then show ?thesis using at [of i H "Acq l # p"] upd [of "insert l H" p i] by simp
  next
    case (lock_release i H l p)
    then show ?thesis using at [of i H "Rel l # p"] upd [of "H - {l}" p i] by simp
  qed
  then show ?thesis using assms step_exclusive by (auto simp: sound_def)
qed

lemma run_sound: "lock_run n ts us \<Longrightarrow> sound ts \<Longrightarrow> sound us"
  by (induction rule: lock_run.induct) (auto intro: step_sound)

text \<open>Of the mutexes waited for take one of highest rank: whoever holds it waits for nothing.\<close>

lemma no_deadlock:
  assumes "sound ts"
  shows "all_finished ts \<or> (\<exists>us. lock_step ts us)"
proof (rule ccontr)
  assume stuck: "\<not> ?thesis"
  let ?wanted = "{l. \<exists>H p. (H, Acq l # p) \<in> set ts}"
  have ranked: "ranked rank H p" if "(H, p) \<in> set ts" for H p
    using assms that by (fastforce simp: sound_def)
  have wants: "\<exists>l q. p = Acq l # q" if t: "(H, p) \<in> set ts" "p \<noteq> []" for H p
  proof -
    obtain i where i: "i < length ts" "ts ! i = (H, p)" using t(1) by (auto simp: in_set_conv_nth)
    obtain l q where "p = Acq l # q \<or> p = Rel l # q" using t(2) by (metis neq_Nil_conv lock_act.exhaust)
    then show ?thesis using ranked [OF t(1)] stuck lock_release [OF i(1)] i(2) by auto
  qed
  have held: "\<exists>H q. (H, q) \<in> set ts \<and> l \<in> H" if w: "l \<in> ?wanted" for l
  proof (rule ccontr)
    assume free: "\<not> ?thesis"
    obtain H p where "(H, Acq l # p) \<in> set ts" using w by auto
    then obtain i where "i < length ts" "ts ! i = (H, Acq l # p)" by (auto simp: in_set_conv_nth)
    from lock_acquire [OF this] free stuck show False by (metis prod.collapse)
  qed
  have "finite ?wanted"
  proof (rule finite_subset)
    show "?wanted \<subseteq> (\<lambda>t. case hd (snd t) of Acq l \<Rightarrow> l | Rel l \<Rightarrow> l) ` set ts" by force
  qed simp
  moreover obtain H p where "(H, p) \<in> set ts" "p \<noteq> []"
    using stuck ranked by (fastforce simp: all_finished_def)
  then have "?wanted \<noteq> {}" using wants by blast
  ultimately have "finite (rank ` ?wanted)" "rank ` ?wanted \<noteq> {}" by simp_all
  from Max_in [OF this] obtain l where l: "Max (rank ` ?wanted) = rank l" "l \<in> ?wanted" by (rule imageE)
  have top: "rank k \<le> rank l" if "k \<in> ?wanted" for k
    using Max_ge [OF \<open>finite (rank ` ?wanted)\<close> imageI [OF that]] l(1) by simp
  obtain H q where t: "(H, q) \<in> set ts" "l \<in> H" using held [OF l(2)] by blast
  then have "q \<noteq> []" using ranked [OF t(1)] by auto
  then obtain k q' where "q = Acq k # q'" using wants [OF t(1)] by blast
  then have k: "k \<in> ?wanted" and "rank l < rank k" using t ranked [OF t(1)] by auto
  with top [OF k] show False by linarith
qed

lemma run_finishes:
  assumes "sound ts"
  shows "\<exists>us. lock_run (remaining_acts ts) ts us \<and> all_finished us"
  using assms
proof (induction "remaining_acts ts" arbitrary: ts rule: less_induct)
  case less
  show ?case
  proof (cases "all_finished ts")
    case True
    then have "remaining_acts ts = 0" by (auto simp: all_finished_def remaining_acts_def)
    then show ?thesis using True lock_run_0 by metis
  next
    case False
    then obtain us where s: "lock_step ts us" using no_deadlock [OF less.prems] by blast
    from step_remaining [OF s] less.hyps [OF _ step_sound [OF s less.prems]]
    obtain vs where "lock_run (remaining_acts us) us vs" "all_finished vs" by auto
    moreover have "lock_run 1 ts us" using lock_run_Suc [OF lock_run_0 s] by simp
    ultimately show ?thesis using run_trans step_remaining [OF s] by (metis plus_1_eq_Suc)
  qed
qed

text \<open>Every run: it is exclusive, as long as the steps it has made, and not stuck before its end.\<close>

lemma run_never_stuck:
  assumes "lock_run n (start_threads acts progs) ts"
  shows "exclusive ts \<and> n + remaining_acts ts = remaining_acts (start_threads acts progs) \<and>
    (all_finished ts \<or> (\<exists>us. lock_step ts us)) \<and>
    (\<exists>us. lock_run (remaining_acts ts) ts us \<and> all_finished us)"
  using run_sound [OF assms start_sound] run_remaining [OF assms] no_deadlock run_finishes
  by (auto simp: sound_def)

end

end
