(* ===== verification/SignalLocks.thy ===== *)
theory SignalLocks
  imports Locks Signaling WsServer
begin

text \<open>
  The mutexes of the signaling server: \<open>RoomManager::mutex_\<close>, held while \<open>notify_\<close> runs, and
  \<open>WebSocketServer::conns_mutex_\<close>, which \<open>notify_\<close> takes when it is \<open>WebSocketServer::send\<close>.  Which of them each
  operation takes in which order, on any state, and what any number of threads can do to each other.
\<close>

section \<open>The mutexes of the operations\<close>

datatype sig_lock = Rooms_mutex | Conns_mutex

text \<open>What the effects of \<open>WebSocketServer\<close> do to \<open>conns_mutex_\<close>.\<close>

fun conns_locks :: "ws_effect list \<Rightarrow> sig_lock lock_act list" where
  "conns_locks [] = []"
| "conns_locks (Lock # es) = Acq Conns_mutex # conns_locks es"
| "conns_locks (Unlock # es) = Rel Conns_mutex # conns_locks es"
| "conns_locks (_ # es) = conns_locks es"

text \<open>The calls of \<open>notify_\<close>; \<open>tables\<close> is the connection table each of them finds, which other threads may have
  changed in between.\<close>

definition notify_locks :: "(int \<Rightarrow> ws_conns) \<Rightarrow> notifications \<Rightarrow> sig_lock lock_act list" where
  "notify_locks tables ns = concat (map (\<lambda>(peer, msg). conns_locks (ws_send (tables peer) peer (ascii msg))) ns)"

datatype room_call = Call_join int string | Call_leave int | Call_relay int string

text \<open>\<open>join\<close> and \<open>leave\<close> run under the mutex as a whole, \<open>relay\<close> only where it sends to the room; an exception
  releases it like a return.\<close>

fun room_locks ::
    "'j json_lib \<Rightarrow> (int set \<Rightarrow> int list) \<Rightarrow> (int \<Rightarrow> ws_conns) \<Rightarrow> room_manager \<Rightarrow> room_call \<Rightarrow> sig_lock lock_act list" where
  "room_locks L iter tables st (Call_join conn_id room_id) =
     Acq Rooms_mutex # notify_locks tables (fst (snd (room_join L iter conn_id room_id st))) @ [Rel Rooms_mutex]"
| "room_locks L iter tables st (Call_leave conn_id) =
     Acq Rooms_mutex # notify_locks tables (fst (snd (room_leave L iter conn_id st))) @ [Rel Rooms_mutex]"
| "room_locks L iter tables st (Call_relay sender msg_json) =
     (let notified = notify_locks tables (snd (room_relay L iter sender msg_json st)) in
      case j_parse L msg_json of
        None \<Rightarrow> []
      | Some msg \<Rightarrow>
          if j_contains L ''to'' msg \<and> \<not> (case j_at L ''to'' msg of Some v \<Rightarrow> j_is_null L v | None \<Rightarrow> True)
          then notified
          else Acq Rooms_mutex # notified @ [Rel Rooms_mutex])"

text \<open>What a thread may do, each time on whatever state it finds: call the room manager, handle a batch of events
  (the server's thread), close the connections (its end), send, broadcast.\<close>

datatype sig_op =
    Op_room "int \<Rightarrow> ws_conns" room_manager room_call
  | Op_batch ws_conns "ws_event list"
  | Op_close_all ws_conns
  | Op_send ws_conns int bytes
  | Op_broadcast ws_conns bytes

fun op_locks ::
    "'j json_lib \<Rightarrow> (int set \<Rightarrow> int list) \<Rightarrow> (bytes \<Rightarrow> bytes) \<Rightarrow> (bytes \<Rightarrow> int) \<Rightarrow> (ws_conns \<Rightarrow> int list) \<Rightarrow> sig_op \<Rightarrow>
     sig_lock lock_act list" where
  "op_locks L iter sha wr order (Op_room tables st call) = room_locks L iter tables st call"
| "op_locks L iter sha wr order (Op_batch conns evs) = conns_locks (fst (ws_batch sha wr conns evs))"
| "op_locks L iter sha wr order (Op_close_all conns) = conns_locks (fst (ws_close_all order conns))"
| "op_locks L iter sha wr order (Op_send conns conn_id msg) = conns_locks (ws_send conns conn_id msg)"
| "op_locks L iter sha wr order (Op_broadcast conns msg) = conns_locks (ws_broadcast (order conns) conns msg)"

text \<open>The rooms come before the connections.\<close>

fun sig_rank :: "sig_lock \<Rightarrow> nat" where
  "sig_rank Rooms_mutex = 0"
| "sig_rank Conns_mutex = 1"

section \<open>They keep to the order\<close>

lemma mutex_run_batch: "mutex_run False (fst (ws_batch sha wr conns evs)) = Some False"
proof (induction evs arbitrary: conns)
  case (Cons ev evs)
  show ?case
    by (cases ev) (simp_all add: case_prod_beta Let_def mutex_run_handle
      mutex_run_append [OF mutex_run_accept] mutex_run_append [OF mutex_run_handle] Cons.IH)
qed simp

lemma mutex_run_quiet: "frame_effects es = es \<Longrightarrow> mutex_run False (Lock # es @ [Unlock]) = Some False"
  by (simp add: mutex_run_effects)

lemma ranked_conns:
  assumes "mutex_run b es = Some False" "H \<subseteq> {Rooms_mutex}" "ranked sig_rank H p"
  shows "ranked sig_rank (if b then insert Conns_mutex H else H) (conns_locks es @ p)"
  using assms(1)
proof (induction b es rule: mutex_run.induct)
  case (3 held es)
  have "insert Conns_mutex H - {Conns_mutex} = H" using assms(2) by auto
  then show ?case using 3 by (simp split: if_splits)
qed (use assms(2,3) in \<open>auto split: if_splits\<close>)

lemmas ranked_conns' = ranked_conns [where b = False and p = "[]" and H = "{}", simplified]

lemma ranked_notify:
  assumes "H \<subseteq> {Rooms_mutex}" "ranked sig_rank H p"
  shows "ranked sig_rank H (notify_locks tables ns @ p)"
  by (induction ns) (auto simp: notify_locks_def assms(2) intro: ranked_conns [OF mutex_run_send assms(1), simplified])

lemma ranked_under_rooms: "ranked sig_rank {} (Acq Rooms_mutex # notify_locks tables ns @ [Rel Rooms_mutex])"
  using ranked_notify [of "{Rooms_mutex}" "[Rel Rooms_mutex]"] by simp

lemma ranked_room: "ranked sig_rank {} (room_locks L iter tables st call)"
proof (cases call)
  case (Call_relay c m)
  have "ranked sig_rank {} (notify_locks tables ns)" for ns using ranked_notify [of "{}" "[]"] by simp
  then show ?thesis
    unfolding Call_relay room_locks.simps Let_def using ranked_under_rooms by (auto split: option.split simp del: ranked.simps(2))
qed (simp_all only: room_locks.simps ranked_under_rooms)

interpretation sl: lock_order sig_rank "op_locks L iter sha wr order" for L iter sha wr order
proof
  fix op
  have closes: "frame_effects (map CloseFd xs) = map CloseFd xs" for xs
    by (simp add: frame_effects_def)
  have writes: "frame_effects (map (\<lambda>fd. Write fd d) xs) = map (\<lambda>fd. Write fd d) xs" for d xs
    by (simp add: frame_effects_def)
  show "ranked sig_rank {} (op_locks L iter sha wr order op)"
  proof (cases op)
    case (Op_room tables st call)
    then show ?thesis by (simp only: op_locks.simps ranked_room)
  next
    case (Op_batch conns evs)
    then show ?thesis by (simp only: op_locks.simps ranked_conns' mutex_run_batch)
  next
    case (Op_close_all conns)
    then show ?thesis using ranked_conns' [OF mutex_run_quiet [OF closes]] by (simp only: op_locks.simps ws_close_all_def fst_conv)
  next
    case (Op_send conns fd msg)
    then show ?thesis by (simp only: op_locks.simps ranked_conns' mutex_run_send)
  next
    case (Op_broadcast conns msg)
    then show ?thesis
      using ranked_conns' [OF mutex_run_quiet [OF writes]] by (simp only: op_locks.simps ws_broadcast_def append_Cons append_Nil)
  qed
qed

section \<open>Callbacks under the mutex\<close>

text \<open>The server's thread when the callbacks of its effects are operations of the signaling server, which run where
  the effect is, in the middle of \<open>handle_client\<close>.\<close>

definition inline_locks ::
    "(sig_op \<Rightarrow> sig_lock lock_act list) \<Rightarrow> (ws_effect \<Rightarrow> sig_op list) \<Rightarrow> ws_effect list \<Rightarrow> sig_lock lock_act list" where
  "inline_locks acts callback es = concat (map (\<lambda>e. conns_locks [e] @ concat (map acts (callback e))) es)"

section \<open>Properties\<close>

text \<open>C12. The signaling server does not deadlock as long as no callback runs under \<open>conns_mutex_\<close>.  Let any number of
  threads, the server's own among them, make any operations of the room manager (whose notifications are sent with
  \<open>WebSocketServer::send\<close> while its mutex is held) and of the WebSocket server, on whatever states these find, in any
  interleaving of their lockings and unlockings: at every moment no mutex is held by two threads; the run has made
  exactly the steps that are missing from the programs; it has ended with every mutex free, or some thread can go on;
  and the remaining steps can all be made.\<close>

theorem signaling_never_deadlocks:
  assumes "lock_run n (start_threads (op_locks L iter sha wr order) progs) ts"
  shows "exclusive ts \<and>
    n + remaining_acts ts = remaining_acts (start_threads (op_locks L iter sha wr order) progs) \<and>
    (all_finished ts \<or> (\<exists>us. lock_step ts us)) \<and>
    (\<exists>us. lock_run (remaining_acts ts) ts us \<and> all_finished us)"
  using assms by (rule sl.run_never_stuck)

text \<open>A library whose documents are all written \<open>x\<close>.\<close>

definition x_lib :: "tree json_lib" where
  "x_lib = (tree_lib [])\<lparr>j_dump := (\<lambda>_. Some ''x'')\<rparr>"

lemma two_members_leave:
  "fst (snd (room_leave x_lib sorted_list_of_set 1 two_members)) = [(2, ''x'')]"
  by (simp add: room_leave_def two_members_def x_lib_def members_of_def Let_def)

lemma signaling_never_deadlocks_witness:
  "let s = start_threads (op_locks x_lib sorted_list_of_set id (\<lambda>_. 0) (\<lambda>_. []))
         [[Op_room (\<lambda>_. Map.empty) two_members (Call_leave 1)], [Op_send Map.empty 2 []]];
       ts = [({Rooms_mutex}, [Acq Conns_mutex, Rel Conns_mutex, Rel Rooms_mutex]), ({}, [Acq Conns_mutex, Rel Conns_mutex])]
   in lock_run 1 s ts \<and> (\<exists>us. lock_run 5 ts us \<and> all_finished us)"
proof -
  let ?s = "start_threads (op_locks x_lib sorted_list_of_set id (\<lambda>_. 0) (\<lambda>_. []))
         [[Op_room (\<lambda>_. Map.empty) two_members (Call_leave 1)], [Op_send Map.empty 2 []]]"
  let ?ts = "[({Rooms_mutex}, [Acq Conns_mutex, Rel Conns_mutex, Rel Rooms_mutex]), ({}, [Acq Conns_mutex, Rel Conns_mutex])]"
  have "?s = [({}, [Acq Rooms_mutex, Acq Conns_mutex, Rel Conns_mutex, Rel Rooms_mutex]), ({}, [Acq Conns_mutex, Rel Conns_mutex])]"
    by (simp add: start_threads_def notify_locks_def two_members_leave ws_send_def)
  then have "lock_step ?s ?ts" using lock_acquire [of 0 ?s "{}" Rooms_mutex] by simp
  then have r: "lock_run 1 ?s ?ts" using lock_run_Suc [OF lock_run_0] by simp
  have "remaining_acts ?ts = 5" by (simp add: remaining_acts_def)
  with signaling_never_deadlocks [OF r] r show ?thesis by simp
qed

text \<open>C35. With the callbacks where the code has them it can deadlock, even if no thread locks a mutex twice.  Let the
  handler of a message make its client join or leave a room, as the documentation has it, and let another thread
  make a client join a room with somebody in it: the server's thread holds \<open>conns_mutex_\<close> and waits for the room
  manager's mutex, and the other thread holds that and waits for \<open>conns_mutex_\<close>.  In two steps they reach a state
  that no step leaves.\<close>

theorem inline_callbacks_deadlock:
  assumes "key_ok mk" and "length msg < 2 ^ 63"
    and "conns fd = Some c" and "conn_fd c = fd" and "handshake_done c" and "ws_buf c = []"
    and "callback Lock = []" and "callback (OnMessage fd msg) = Op_room tables st call # others"
    and "call = Call_join a room_id \<or> call = Call_leave a"
    and "room_join L iter b room_id' st' = (st'', (peer, out) # notified, reply)"
  shows "\<exists>ts. lock_run 2
      [({}, inline_locks (op_locks L iter sha wr order) callback
          (fst (handle_client sha wr fd conns [RData (ws_frame 0x81 mk msg)]))),
       ({}, op_locks L iter sha wr order (Op_room tables' st' (Call_join b room_id')))] ts \<and>
    \<not> all_finished ts \<and> (\<nexists>us. lock_step ts us)"
proof -
  have "(0x81 :: u8) AND 0x0F = 1" by simp
  from parse_frame [OF assms(2,1) this, of fd "[]"]
  have "parse_ws_frames fd (ws_frame 0x81 mk msg) = ([OnMessage fd msg], [], Ws_done)"
    by (simp add: parse_ws_frames.simps [of fd "[]"])
  then have "fst (handle_client sha wr fd conns [RData (ws_frame 0x81 mk msg)]) = [Lock, OnMessage fd msg, Unlock]"
    using assms by simp
  then obtain p where "inline_locks (op_locks L iter sha wr order) callback
      (fst (handle_client sha wr fd conns [RData (ws_frame 0x81 mk msg)])) = Acq Conns_mutex # Acq Rooms_mutex # p"
    using assms(7-9) by (auto simp: inline_locks_def)
  moreover obtain q where "op_locks L iter sha wr order (Op_room tables' st' (Call_join b room_id')) =
      Acq Rooms_mutex # Acq Conns_mutex # q"
    using assms(10) by (simp add: notify_locks_def ws_send_def)
  ultimately show ?thesis using circular_wait [of Conns_mutex Rooms_mutex p q] by simp
qed

lemma inline_callbacks_deadlock_witness:
  "let conns = [5 \<mapsto> \<lparr>conn_fd = 5, handshake_done = True, recv_buf = [], ws_buf = []\<rparr>] :: ws_conns;
       callback = (\<lambda>e. case e of OnMessage fd m \<Rightarrow> [Op_room (\<lambda>_. conns) two_members (Call_join fd ''s'')] | _ \<Rightarrow> [])
   in \<exists>ts. lock_run 2
      [({}, inline_locks (op_locks x_lib sorted_list_of_set id (\<lambda>_. 0) (\<lambda>_. [])) callback
          (fst (handle_client id (\<lambda>_. 0) 5 conns [RData (ws_frame 0x81 (Some [1, 2, 3, 4]) [0x41])]))),
       ({}, op_locks x_lib sorted_list_of_set id (\<lambda>_. 0) (\<lambda>_. [])
          (Op_room (\<lambda>_. conns) (RoomManager True\<lparr>rooms := [''r'' \<mapsto> {7}], conn_room := [7 \<mapsto> ''r'']\<rparr>) (Call_join 8 ''r'')))] ts \<and>
    \<not> all_finished ts \<and> (\<nexists>us. lock_step ts us)"
proof -
  let ?st = "RoomManager True\<lparr>rooms := [''r'' \<mapsto> {7}], conn_room := [7 \<mapsto> ''r'']\<rparr>"
  obtain st'' reply where "room_join x_lib sorted_list_of_set 8 ''r'' ?st = (st'', (7, ''x'') # [], reply)"
    by (simp add: room_join_def room_detach_def members_of_def RoomManager_def x_lib_def Let_def)
  then show ?thesis
    unfolding Let_def
    by (intro inline_callbacks_deadlock [where a = 5 and room_id = "''s''" and call = "Call_join 5 ''s''"
        and c = "\<lparr>conn_fd = 5, handshake_done = True, recv_buf = [], ws_buf = []\<rparr>"])
      (simp_all add: key_ok_def)
qed

end
