(* ===== verification/Monitor.thy ===== *)
theory Monitor
  imports Prelude
begin

text \<open>
  An object whose operations run under a mutex of its own, used by any number of threads: each operation is a sequence
  of single accesses to the shared state, between which the other threads may be scheduled.  If every operation, run
  alone, does what its atomic specification says, the threads together do what some sequence of atomic operations
  does.
\<close>

section \<open>The threads\<close>

text \<open>A thread outside the mutex has operations left; inside it has also reached a point of the current one.\<close>

datatype ('op, 'pc) monitor_thread = Outside "'op list" | Inside 'pc "'op list"

fun pending :: "('op, 'pc) monitor_thread \<Rightarrow> 'op list" where
  "pending (Outside ops) = ops"
| "pending (Inside pc ops) = ops"

text \<open>The shared state, the thread that holds the mutex, the threads, and the operations begun so far, each with its
  thread.\<close>

record ('s, 'op, 'pc) monitor =
  shared :: 's
  owner :: "nat option"
  threads :: "('op, 'pc) monitor_thread list"
  history :: "(nat \<times> 'op) list"

definition monitor_start :: "'s \<Rightarrow> 'op list list \<Rightarrow> ('s, 'op, 'pc) monitor" where
  "monitor_start s progs = \<lparr>shared = s, owner = None, threads = map Outside progs, history = []\<rparr>"

text \<open>\<open>entry\<close> is where an operation starts under the mutex, or that it returns without taking it; \<open>exec\<close> is one access,
  or that the operation is over.\<close>

inductive monitor_step ::
    "('op \<Rightarrow> 'pc option) \<Rightarrow> ('s \<Rightarrow> 'pc \<Rightarrow> ('s \<times> 'pc) option) \<Rightarrow>
     ('s, 'op, 'pc) monitor \<Rightarrow> ('s, 'op, 'pc) monitor \<Rightarrow> bool" for entry exec where
  monitor_skip: "i < length (threads m) \<Longrightarrow> threads m ! i = Outside (op # ops) \<Longrightarrow> entry op = None \<Longrightarrow>
    monitor_step entry exec m (m\<lparr>threads := (threads m)[i := Outside ops], history := history m @ [(i, op)]\<rparr>)"
| monitor_enter: "i < length (threads m) \<Longrightarrow> threads m ! i = Outside (op # ops) \<Longrightarrow> entry op = Some pc \<Longrightarrow>
    owner m = None \<Longrightarrow>
    monitor_step entry exec m (m\<lparr>owner := Some i, threads := (threads m)[i := Inside pc ops],
      history := history m @ [(i, op)]\<rparr>)"
| monitor_exec: "i < length (threads m) \<Longrightarrow> threads m ! i = Inside pc ops \<Longrightarrow> exec (shared m) pc = Some (s, pc') \<Longrightarrow>
    monitor_step entry exec m (m\<lparr>shared := s, threads := (threads m)[i := Inside pc' ops]\<rparr>)"
| monitor_leave: "i < length (threads m) \<Longrightarrow> threads m ! i = Inside pc ops \<Longrightarrow> exec (shared m) pc = None \<Longrightarrow>
    monitor_step entry exec m (m\<lparr>owner := None, threads := (threads m)[i := Outside ops]\<rparr>)"

text \<open>One step of a given thread, and the steps of the threads that a schedule names.\<close>

definition thread_next ::
    "('op \<Rightarrow> 'pc option) \<Rightarrow> ('s \<Rightarrow> 'pc \<Rightarrow> ('s \<times> 'pc) option) \<Rightarrow> nat \<Rightarrow>
     ('s, 'op, 'pc) monitor \<Rightarrow> ('s, 'op, 'pc) monitor option" where
  "thread_next entry exec i m =
     (if length (threads m) \<le> i then None
      else case threads m ! i of
        Outside [] \<Rightarrow> None
      | Outside (op # ops) \<Rightarrow>
          (case entry op of
             None \<Rightarrow> Some (m\<lparr>threads := (threads m)[i := Outside ops], history := history m @ [(i, op)]\<rparr>)
           | Some pc \<Rightarrow>
               if owner m = None
               then Some (m\<lparr>owner := Some i, threads := (threads m)[i := Inside pc ops],
                            history := history m @ [(i, op)]\<rparr>)
               else None)
      | Inside pc ops \<Rightarrow>
          (case exec (shared m) pc of
             None \<Rightarrow> Some (m\<lparr>owner := None, threads := (threads m)[i := Outside ops]\<rparr>)
           | Some (s, pc') \<Rightarrow> Some (m\<lparr>shared := s, threads := (threads m)[i := Inside pc' ops]\<rparr>)))"

fun monitor_schedule ::
    "('op \<Rightarrow> 'pc option) \<Rightarrow> ('s \<Rightarrow> 'pc \<Rightarrow> ('s \<times> 'pc) option) \<Rightarrow> nat list \<Rightarrow>
     ('s, 'op, 'pc) monitor \<Rightarrow> ('s, 'op, 'pc) monitor option" where
  "monitor_schedule entry exec [] m = Some m"
| "monitor_schedule entry exec (i # is) m = Option.bind (thread_next entry exec i m) (monitor_schedule entry exec is)"

lemma thread_next_step: "thread_next entry exec i m = Some m' \<Longrightarrow> monitor_step entry exec m m'"
  by (auto simp: thread_next_def not_le split: if_splits monitor_thread.splits list.splits option.splits
    intro: monitor_step.intros)

lemma schedule_run: "monitor_schedule entry exec is m = Some m' \<Longrightarrow> (monitor_step entry exec)\<^sup>*\<^sup>* m m'"
  by (induction "is" arbitrary: m)
    (auto simp: bind_eq_Some_conv dest!: thread_next_step intro: converse_rtranclp_into_rtranclp)

text \<open>An operation run alone from a point of it to its end.\<close>

inductive completes :: "('s \<Rightarrow> 'pc \<Rightarrow> ('s \<times> 'pc) option) \<Rightarrow> 's \<Rightarrow> 'pc \<Rightarrow> 's \<Rightarrow> bool" for exec where
  completes_over: "exec s pc = None \<Longrightarrow> completes exec s pc s"
| completes_access: "exec s pc = Some (s', pc') \<Longrightarrow> completes exec s' pc' t \<Longrightarrow> completes exec s pc t"

inductive_simps completes_rec: "completes exec s pc t"

definition monitor_finished :: "('s, 'op, 'pc) monitor \<Rightarrow> bool" where
  "monitor_finished m \<longleftrightarrow> (\<forall>t\<in>set (threads m). t = Outside [])"

text \<open>The programs are done as far as the history tells, in order.\<close>

definition accounts :: "'op list list \<Rightarrow> ('s, 'op, 'pc) monitor \<Rightarrow> bool" where
  "accounts progs m \<longleftrightarrow> length (threads m) = length progs \<and>
     (\<forall>i<length progs. map snd (filter (\<lambda>e. fst e = i) (history m)) @ pending (threads m ! i) = progs ! i)"

section \<open>Operations that are atomic when run alone\<close>

locale monitor_object =
  fixes entry :: "'op \<Rightarrow> 'pc option"
    and exec :: "'s \<Rightarrow> 'pc \<Rightarrow> ('s \<times> 'pc) option"
    and atomic :: "'s \<Rightarrow> 'op \<Rightarrow> 's"
  assumes entered: "entry op = Some pc \<Longrightarrow> completes exec s pc (atomic s op)"
    and not_entered: "entry op = None \<Longrightarrow> atomic s op = s"
begin

definition explained :: "'s \<Rightarrow> ('s, 'op, 'pc) monitor \<Rightarrow> bool" where
  "explained s0 m \<longleftrightarrow>
     (case owner m of
        None \<Rightarrow> (\<forall>t\<in>set (threads m). \<exists>ops. t = Outside ops) \<and> shared m = foldl atomic s0 (map snd (history m))
      | Some i \<Rightarrow> i < length (threads m) \<and>
          (\<exists>pc ops. threads m ! i = Inside pc ops \<and>
             completes exec (shared m) pc (foldl atomic s0 (map snd (history m)))) \<and>
          (\<forall>j<length (threads m). j \<noteq> i \<longrightarrow> (\<exists>ops. threads m ! j = Outside ops)))"

lemma start_explained: "explained s0 (monitor_start s0 progs)"
  by (auto simp: explained_def monitor_start_def)

lemma inside_owns:
  assumes "explained s0 m" "i < length (threads m)" "threads m ! i = Inside pc ops"
  shows "owner m = Some i \<and> completes exec (shared m) pc (foldl atomic s0 (map snd (history m)))"
proof (cases "owner m")
  case None
  then show ?thesis using assms nth_mem [OF assms(2)] by (fastforce simp: explained_def)
next
  case (Some k)
  then show ?thesis using assms by (cases "k = i") (fastforce simp: explained_def)+
qed

lemma step_explained:
  assumes "monitor_step entry exec m m'" "explained s0 m"
  shows "explained s0 m'"
  using assms(1)
proof cases
  case (monitor_skip i op ops)
  then show ?thesis
    using assms(2) set_update_subset_insert [of "threads m" i "Outside ops"]
    by (auto simp: explained_def not_entered nth_list_update split: option.splits)
next
  case (monitor_enter i op ops pc)
  have "\<exists>ops. threads m ! j = Outside ops" if "j < length (threads m)" for j
    using assms(2) monitor_enter(5) nth_mem [OF that] by (auto simp: explained_def)
  then show ?thesis
    using assms(2) monitor_enter entered by (auto simp: explained_def nth_list_update)
next
  case (monitor_exec i pc ops s pc')
  from inside_owns [OF assms(2) monitor_exec(2,3)] have o: "owner m = Some i"
    and c: "completes exec (shared m) pc (foldl atomic s0 (map snd (history m)))" by simp_all
  from c have "completes exec s pc' (foldl atomic s0 (map snd (history m)))"
    using monitor_exec(4) by (simp add: completes_rec [of _ "shared m" pc])
  then show ?thesis using assms(2) o monitor_exec by (auto simp: explained_def nth_list_update)
next
  case (monitor_leave i pc ops)
  from inside_owns [OF assms(2) monitor_leave(2,3)] have o: "owner m = Some i"
    and c: "completes exec (shared m) pc (foldl atomic s0 (map snd (history m)))" by simp_all
  from c have "shared m = foldl atomic s0 (map snd (history m))"
    using monitor_leave(4) by (simp add: completes_rec [of _ "shared m" pc])
  then show ?thesis
    using assms(2) o monitor_leave by (auto simp: explained_def in_set_conv_nth nth_list_update)
qed

lemma step_accounts:
  assumes "monitor_step entry exec m m'" "accounts progs m"
  shows "accounts progs m'"
  using assms by (cases rule: monitor_step.cases) (auto simp: accounts_def nth_list_update)

lemma start_accounts: "accounts progs (monitor_start s0 progs)"
  by (simp add: accounts_def monitor_start_def)

lemma not_stuck:
  assumes "explained s0 m"
  shows "monitor_finished m \<or> (\<exists>m'. monitor_step entry exec m m')"
proof (cases "owner m")
  case (Some i)
  then obtain pc ops where "i < length (threads m)" "threads m ! i = Inside pc ops"
    using assms by (auto simp: explained_def)
  then show ?thesis
    by (cases "exec (shared m) pc") (auto intro: monitor_exec monitor_leave)
next
  case None
  show ?thesis
  proof (cases "monitor_finished m")
    case False
    then obtain i ops where i: "i < length (threads m)" "threads m ! i = Outside ops" "ops \<noteq> []"
      using assms None by (fastforce simp: monitor_finished_def explained_def in_set_conv_nth)
    then obtain op ops' where "ops = op # ops'" by (cases ops) auto
    then show ?thesis using i None by (cases "entry op") (auto intro: monitor_skip monitor_enter)
  qed simp
qed

text \<open>The threads together: what they have done is the history, operation by operation, and they are never stuck.\<close>

lemma run_atomic:
  assumes "(monitor_step entry exec)\<^sup>*\<^sup>* (monitor_start s0 progs) m"
  shows "accounts progs m \<and> (owner m = None \<longrightarrow> shared m = foldl atomic s0 (map snd (history m))) \<and>
    (monitor_finished m \<or> (\<exists>m'. monitor_step entry exec m m'))"
proof -
  have "explained s0 m \<and> accounts progs m"
    using assms by (induction rule: rtranclp_induct) (auto intro: start_explained start_accounts step_explained step_accounts)
  then show ?thesis using not_stuck by (auto simp: explained_def)
qed

end

end
