(* ===== verification/SfuThreads.thy ===== *)
theory SfuThreads
  imports Monitor Sfu
begin

text \<open>
  A room of the forwarding unit used by several threads (\<open>module09_sfu/src/sfu_room.cpp\<close>): its operations access by
  access, under \<open>mutex_\<close>, and that they are the atomic operations of \<open>Sfu\<close>.
\<close>

section \<open>The operations access by access\<close>

text \<open>The shared state is the room and the calls of \<open>send_fn_\<close> made so far.\<close>

type_synonym sfu_shared = "sfu_room \<times> (int \<times> bytes) list"

datatype sfu_call = Call_add int | Call_remove int | Call_rtp int bytes | Call_rtcp int bytes

datatype sfu_pc =
    Add_find int
  | Add_read int
  | Add_increment int u32
  | Add_store int u32
  | Add_push int
  | Remove_erase int
  | Remove_filter int
  | Rtp_find int bytes
  | Send_to int bytes nat
  | Over

text \<open>The tests of the length come before the mutex.\<close>

fun sfu_entry :: "sfu_call \<Rightarrow> sfu_pc option" where
  "sfu_entry (Call_add p) = Some (Add_find p)"
| "sfu_entry (Call_remove p) = Some (Remove_erase p)"
| "sfu_entry (Call_rtp p d) = (if length d < kRtpMinLen then None else Some (Rtp_find p d))"
| "sfu_entry (Call_rtcp p d) = (if length d < 4 then None else Some (Send_to p d 0))"

fun sfu_exec :: "sfu_shared \<Rightarrow> sfu_pc \<Rightarrow> (sfu_shared \<times> sfu_pc) option" where
  "sfu_exec (r, out) (Add_find p) =
     Some ((r, out), if peer_ssrc_map r p \<noteq> None then Over else Add_read p)"
| "sfu_exec (r, out) (Add_read p) = Some ((r, out), Add_increment p (next_ssrc r))"
| "sfu_exec (r, out) (Add_increment p s) = Some ((r\<lparr>next_ssrc := s + 1\<rparr>, out), Add_store p s)"
| "sfu_exec (r, out) (Add_store p s) =
     Some ((r\<lparr>peer_ssrc_map := (peer_ssrc_map r)(p \<mapsto> s)\<rparr>, out), Add_push p)"
| "sfu_exec (r, out) (Add_push p) = Some ((r\<lparr>peers := peers r @ [p]\<rparr>, out), Over)"
| "sfu_exec (r, out) (Remove_erase p) =
     Some ((r\<lparr>peer_ssrc_map := (peer_ssrc_map r)(p := None)\<rparr>, out), Remove_filter p)"
| "sfu_exec (r, out) (Remove_filter p) = Some ((r\<lparr>peers := filter (\<lambda>q. q \<noteq> p) (peers r)\<rparr>, out), Over)"
| "sfu_exec (r, out) (Rtp_find p d) =
     Some ((r, out),
       case peer_ssrc_map r p of
         None \<Rightarrow> Over
       | Some out_ssrc \<Rightarrow>
           Send_to p (d[8 := byte_at 3 out_ssrc, 9 := byte_at 2 out_ssrc,
                        10 := byte_at 1 out_ssrc, 11 := byte_at 0 out_ssrc]) 0)"
| "sfu_exec (r, out) (Send_to p b i) =
     Some (if i < length (peers r)
           then ((r, if peers r ! i = p then out else out @ [(peers r ! i, b)]), Send_to p b (i + 1))
           else ((r, out), Over))"
| "sfu_exec (r, out) Over = None"

text \<open>The operations of \<open>Sfu\<close>.\<close>

fun sfu_atomic :: "sfu_shared \<Rightarrow> sfu_call \<Rightarrow> sfu_shared" where
  "sfu_atomic (r, out) (Call_add p) = (add_peer r p, out)"
| "sfu_atomic (r, out) (Call_remove p) = (remove_peer r p, out)"
| "sfu_atomic (r, out) (Call_rtp p d) = (r, out @ route_rtp r p d)"
| "sfu_atomic (r, out) (Call_rtcp p d) = (r, out @ route_rtcp r p d)"

section \<open>Run alone they are the same\<close>

lemma completes_over_iff: "completes sfu_exec (r, out) Over t \<longleftrightarrow> t = (r, out)"
  by (auto simp: completes_rec [of sfu_exec "(r, out)"])

lemma completes_step:
  "sfu_exec s pc = Some (s', pc') \<Longrightarrow> completes sfu_exec s pc t \<longleftrightarrow> completes sfu_exec s' pc' t"
  by (simp add: completes_rec [of sfu_exec s pc])

lemma completes_send:
  "completes sfu_exec (r, out) (Send_to p b i)
     (r, out @ map (\<lambda>q. (q, b)) (filter (\<lambda>q. q \<noteq> p) (drop i (peers r))))"
proof (induction "length (peers r) - i" arbitrary: i out)
  case 0
  then show ?case by (simp add: completes_step [of _ "Send_to p b i"] completes_over_iff)
next
  case (Suc n)
  then have i: "i < length (peers r)" by simp
  then have "drop i (peers r) = peers r ! i # drop (Suc i) (peers r)" by (simp add: Cons_nth_drop_Suc)
  then show ?case
    using i Suc.hyps(1) [of "i + 1" out] Suc.hyps(1) [of "i + 1" "out @ [(peers r ! i, b)]"] Suc.hyps(2)
    by (simp add: completes_step [of _ "Send_to p b i"])
qed

lemma sfu_completes:
  assumes "sfu_entry call = Some pc"
  shows "completes sfu_exec s pc (sfu_atomic s call)"
proof -
  obtain r out where s: "s = (r, out)" by (cases s)
  note send = completes_send [of r out _ _ 0, simplified]
  show ?thesis
    using assms unfolding s
    by (cases call)
      (auto simp: completes_step completes_over_iff add_peer_def remove_peer_def route_rtp_def route_rtcp_def
        Let_def send split: option.splits if_splits)
qed

lemma sfu_not_entered: "sfu_entry call = None \<Longrightarrow> sfu_atomic s call = s"
  by (cases s; cases call) (auto simp: route_rtp_def route_rtcp_def split: if_splits)

interpretation sm: monitor_object sfu_entry sfu_exec sfu_atomic
  by unfold_locales (simp_all add: sfu_completes sfu_not_entered)

text \<open>The calls of \<open>add_peer\<close> and \<open>remove_peer\<close> among the operations.\<close>

fun membership :: "sfu_call list \<Rightarrow> room_op list" where
  "membership [] = []"
| "membership (Call_add p # cs) = AddPeer p # membership cs"
| "membership (Call_remove p # cs) = RemovePeer p # membership cs"
| "membership (_ # cs) = membership cs"

lemma atomic_membership: "fst (foldl sfu_atomic (r, out) cs) = foldl room_step r (membership cs)"
  by (induction cs arbitrary: r out rule: membership.induct) simp_all

lemma length_membership: "length (membership cs) \<le> length cs"
  by (induction cs rule: membership.induct) simp_all

lemma atomic_room:
  assumes "length cs \<le> 2 ^ 32"
  shows "room_ok (fst (foldl sfu_atomic (SfuRoom rid, out) cs)) \<and>
    inj_on (peer_ssrc_map (fst (foldl sfu_atomic (SfuRoom rid, out) cs)))
      (set (peers (fst (foldl sfu_atomic (SfuRoom rid, out) cs))))"
proof -
  let ?r = "foldl room_step (SfuRoom rid) (membership cs)"
  have ok: "room_ok ?r" using room_ok_run [OF room_ok_SfuRoom] by blast
  obtain n where "alloc_ok n ?r"
    using alloc_ok_run [OF alloc_ok_SfuRoom, of "membership cs" rid] assms length_membership [of cs] by auto
  then have "inj_on (peer_ssrc_map ?r) (set (peers ?r))"
    using ok by (auto simp: inj_on_def alloc_ok_def room_ok_def dom_def)
  with ok show ?thesis by (simp add: atomic_membership)
qed

section \<open>Properties\<close>

text \<open>C21. The room is safe to share.  Let any number of threads add and remove peers and route packets in one room, in
  any interleaving of their single accesses.  What they have begun so far is, thread by thread, the beginning of their
  programs; whenever the mutex is free, the room and everything passed to \<open>send_fn_\<close> are what the same operations do
  one after the other, so that the list and the map agree and no two peers share an SSRC (for up to \<open>2^32\<close>
  operations); and until all programs are done some thread can go on.\<close>

theorem sfu_room_linearizable:
  assumes "(monitor_step sfu_entry sfu_exec)\<^sup>*\<^sup>* (monitor_start (SfuRoom rid, []) progs) m"
  shows "accounts progs m \<and>
    (owner m = None \<longrightarrow>
      shared m = foldl sfu_atomic (SfuRoom rid, []) (map snd (history m)) \<and>
      (length (history m) \<le> 2 ^ 32 \<longrightarrow>
        room_ok (fst (shared m)) \<and> inj_on (peer_ssrc_map (fst (shared m))) (set (peers (fst (shared m)))))) \<and>
    (monitor_finished m \<or> (\<exists>m'. monitor_step sfu_entry sfu_exec m m'))"
  using sm.run_atomic [OF assms] atomic_room [of "map snd (history m)" rid "[]"] by auto

lemma sfu_room_linearizable_witness:
  "let m = monitor_start (SfuRoom ''r'', []) [[Call_add 1], [Call_rtp 2 []], [Call_add 2, Call_rtcp 2 [128, 200, 0, 0]]];
       m' = the (monitor_schedule sfu_entry sfu_exec [0, 0, 1, 0, 0, 0, 0, 0, 2, 2, 2, 2, 2, 2, 2, 2, 2, 2, 2, 2] m)
   in monitor_finished m' \<and> snd (shared m') = [(1, [128, 200, 0, 0])] \<and> room_ok (fst (shared m')) \<and>
     shared m' = foldl sfu_atomic (SfuRoom ''r'', []) (map snd (history m'))"
proof -
  let ?m = "monitor_start (SfuRoom ''r'', []) [[Call_add 1], [Call_rtp 2 []], [Call_add 2, Call_rtcp 2 [128, 200, 0, 0]]]"
  let ?is = "[0, 0, 1, 0, 0, 0, 0, 0, 2, 2, 2, 2, 2, 2, 2, 2, 2, 2, 2, 2] :: nat list"
  obtain m' where s: "monitor_schedule sfu_entry sfu_exec ?is ?m = Some m'"
    and f: "monitor_finished m'" "owner m' = None" "length (history m') = 4" "snd (shared m') = [(1, [128, 200, 0, 0])]"
    by (simp add: thread_next_def monitor_start_def SfuRoom_def kRtpMinLen_def monitor_finished_def)
  from sfu_room_linearizable [OF schedule_run [OF s]] f show ?thesis
    unfolding Let_def s option.sel by auto
qed

end
