(* ===== verification/Spec2Isabelle.thy ===== *)
theory Spec2Isabelle
  imports StdMap RtpPacket RingBuffer RtpJitter Rtcp Fec Nack VideoPacketizer Sfu Whiteboard Stun IceAgent Srtp MediaPath WebSocket RoomManager Sdp WhiteboardJson Dtls IoContext UdpSocket
    Binary64 Gcc WeakJitter AudioCapture MediaCodecs QtClient SfuHost WsServer DtlsInit RingMemory
    RoomPath QtRender Signaling SignalLocks SfuThreads
begin

text \<open>
  A model of \<open>cpp_meet\<close>, a video conferencing system in C++17 built module by module: media over RTP, connection
  setup over STUN, ICE, DTLS and a WebSocket signaling server, a selective forwarding unit, and a shared
  whiteboard.  The theories translate the C++ sources under \<open>src/module*/\<close> operation by operation; the theorems
  say what makes each part correct, and where it is not, what goes wrong.

  How the parts work together.  A sender cuts H.264 units into RTP packets (\<open>VideoPacketizer\<close>), adds XOR parity
  packets (\<open>Fec\<close>), encrypts them (\<open>Srtp\<close>) with keys from the DTLS handshake (\<open>Dtls\<close>) and sends them on the
  path ICE has found (\<open>Stun\<close>, \<open>IceAgent\<close>); the event loop (\<open>IoContext\<close>) tells the packets on the shared port
  apart.  The forwarding unit (\<open>Sfu\<close>) passes them to the other members of a room under new SSRCs.  A receiver
  asks for lost packets (\<open>Nack\<close>, \<open>Rtcp\<close>), estimates the bandwidth (\<open>Gcc\<close>), puts the packets in order
  (\<open>RtpJitter\<close>, \<open>WeakJitter\<close>) and joins the units again.  Peers find each other through the signaling server
  (\<open>WebSocket\<close>, \<open>RoomManager\<close>, \<open>Sdp\<close>).  The whiteboard (\<open>Whiteboard\<close>, \<open>WhiteboardJson\<close>) is replicated among
  them.  \<open>MediaPath\<close> composes sender, network and receiver, \<open>RoomPath\<close> the loop of sender, forwarding unit, receiver and
  negative acknowledgements, \<open>Signaling\<close> the room manager over the sockets of the server.

  Theories and what they model:

  \<^item> \<open>Prelude\<close>: machine integers as words, bytes on the wire, vectors.  \<open>StdMap\<close>: \<open>std::map\<close> as an interface
    (locale \<open>ordered_map\<close>) with its model, an association list in key order.  \<open>WireStream\<close>: reading back a
    written sequence, element by element.  \<open>JsonLib\<close>: what the code uses of \<open>nlohmann::json\<close>.  \<open>Binary64\<close>: the
    rounding of \<open>double\<close>, as an interface (locale \<open>rounding\<close>) and as the machine does it.
  \<^item> \<open>RingBuffer\<close> (\<open>module01_network_core/include/net/ring_buffer.h\<close>): the bounded queue, its refinement to a
    list, and its two threads as an \<open>inductive\<close> step relation with one step for each atomic access.
    \<open>RingMemory\<close>: the same threads on a machine with stale loads and the memory orders of the code.
    \<open>IoContext\<close>, \<open>UdpSocket\<close> (\<open>io_context.cpp\<close>, \<open>udp_socket.cpp\<close>): the thread of the event loop, step by step
    among the answers of \<open>epoll_wait\<close> and the calls of \<open>stop\<close> by other threads, and the ownership of descriptors.
  \<^item> \<open>RtpPacket\<close>, \<open>RtpJitter\<close>, \<open>Rtcp\<close> (\<open>module02_rtp_rtcp\<close>): building and parsing packets, the reordering buffer,
    sender reports and negative acknowledgements.
  \<^item> \<open>Stun\<close>, \<open>IceAgent\<close> (\<open>module03_stun_ice\<close>): messages with CRC-32 and keyed hash, and the connectivity check.
  \<^item> \<open>Dtls\<close>, \<open>DtlsInit\<close>, \<open>Srtp\<close> (\<open>module04_dtls_srtp\<close>): the DTLS transport over OpenSSL as an argument, the calls
    that set it up and tear it down, and the encryption and authentication of packets.
  \<^item> \<open>WebSocket\<close>, \<open>WsServer\<close>, \<open>RoomManager\<close>, \<open>Sdp\<close> (\<open>module05_signaling\<close>): frames, handshake and client handling; the
    server's loop, start and stop; rooms and relaying; writing and reading session descriptions.
  \<^item> \<open>Locks\<close>: threads that share mutexes, as an \<open>inductive\<close> step relation, and why an order on the mutexes (locale
    \<open>lock_order\<close>) keeps them from deadlock.  \<open>Monitor\<close>: threads that share an object with a mutex, one access at a
    time, and why its operations are then atomic (locale \<open>monitor_object\<close>).  \<open>SignalLocks\<close>: the two mutexes of the signaling server, the interpretation
    for its operations, and the deadlock that its callbacks cause.
  \<^item> \<open>AudioCapture\<close> (\<open>module06_audio\<close>): the frames read from a file.  \<open>MediaCodecs\<close> (\<open>module06_audio\<close>,
    \<open>module07_video\<close>): the wrappers of Opus and x264 over the answers of the libraries.  \<open>VideoPacketizer\<close>
    (\<open>module07_video\<close>): single units and FU-A fragments.
  \<^item> \<open>QtClient\<close>, \<open>QtRender\<close> (\<open>module10_qt_client\<close>, \<open>module12_integration\<close>): test frames, what the renderer uploads,
    what its samplers see on any OpenGL that does what is documented (\<open>gl_documented\<close>), and the colours of the
    shader under the rounding OpenGL allows.
  \<^item> \<open>Fec\<close>, \<open>Nack\<close>, \<open>Gcc\<close>, \<open>WeakJitter\<close> (\<open>module08_weak_network\<close>): parity packets and recovery, the list of
    missing packets, the bandwidth estimator, the delay buffer.
  \<^item> \<open>Sfu\<close>, \<open>SfuThreads\<close>, \<open>SfuHost\<close> (\<open>module09_sfu\<close>): rooms of the forwarding unit, the same operations access by access
    under the mutex of a room that threads share, and the server, put together from \<open>IoContext\<close> and \<open>UdpSocket\<close>.
  \<^item> \<open>Whiteboard\<close>, \<open>WhiteboardJson\<close> (\<open>module11_whiteboard\<close>): the replicated set of strokes and its text form.

  Conventions.  A class is a record, a method a function from the old state to the new one and the result,
  with every early return and exception as a branch: \<open>option\<close>, a sum, or an outcome type.  Integers keep
  their width as words where they can wrap (sequence numbers, \<open>size_t\<close> sums, clocks); \<open>size_t\<close> counts of
  bytes in memory are natural numbers.  A vector is a list, a \<open>std::map\<close> an association list in key order, an
  \<open>unordered_map\<close> a partial function; where the code iterates over one of these, the order is an argument.
  Calls into the system, callbacks and notifications are the list of effects an operation returns.  What is not
  in the repository is an argument: OpenSSL, OpenGL, the JSON library, the codecs, the answers of system calls, the
  clock.  What a theorem needs of them is a hypothesis of it, and a witness instantiates it.  A \<open>double\<close> is a
  rational number, rounded after every operation.

  Loops are structural recursion, or \<open>function\<close> with a measure (parsing loops by the bytes left); the read loops
  over OpenSSL, which may not end, are \<open>partial_function (option)\<close>, and that they end is a theorem.  The event
  loop and its environment run over a finite list of choices, and what holds at the end of each such list holds at all
  times; once stopped, its thread has at most 67 steps left: a batch of 64 events, the return of \<open>epoll_wait\<close>, the end of
  the batch and the load of the flag.

  What the lemmas show. Round trips: RTP, RTCP, STUN, SRTP, WebSocket, SDP and the whiteboard's text form are
  read back as they were written. Refinement and equivalence: the ring buffer is a queue, also between two
  threads and on weak memory, a room shared by threads is one used by one thread after the other, the
  table-driven CRC is the bit-serial one, merging whiteboards is a join. Functional behaviour: which packets
  are reported missing, recovered, forwarded, relayed, in which order. Invariants: rooms, tables, descriptors,
  locks. Termination: draining a BIO, stopping and waking the loop, the threads of the signaling server.
  Bounds: the error of the shader's colours. And the failures the code has: parity that never recovers an
  unaligned group, keystream reuse, unauthenticated ICE, a frame length that wraps, callbacks that deadlock,
  writes cut short that garble a client's stream, an early stop that is lost, a server that forwards nothing,
  a descriptor closed twice, an identity cloned with the whiteboard, an estimate that stops falling, a
  constructor that takes the header extension, or a buffer too short for a header, for payload, packets held
  back when the numbers wrap, rows read past the end of a picture.

  Not modelled: what are only calls of a library with its parameters (the parameters
  of \<open>H264Encoder::init\<close>, socket options), the vertex shader, what OpenGL makes of samples between texels, the sleeps of the
  worker threads, tests and documents.
\<close>

section \<open>Across components\<close>

text \<open>C2. End to end.  A video unit, not itself of the type 28 that marks fragments, is cut into packets, encrypted, and
  carried by a network that delivers its first packet first and behind it every other one at least once, in any
  order and with any repetitions.  It comes out of the receiver's decryption, parser, reordering buffer and
  reassembly exactly as it went in, without its start code, also when the sequence numbers wrap.  Were the first
  packet overtaken, the buffer would start behind it and the unit would be lost.\<close>

theorem media_end_to_end:
  assumes "\<And>k x. length (hmac k x) = 20" and "same_keys s r"
    and "packetize nal pt seq ts ssrc = (ps, seq')" and "length ps \<le> 2 ^ 16"
    and "skip_start_code nal \<noteq> []" and "skip_start_code nal ! 0 AND 0x1F \<noteq> 28"
    and "set arrived = set (map (send_packet aes hmac s) ps)" and "hd arrived = send_packet aes hmac s (hd ps)"
  shows "depacketize (map the (fst (jitter_pops (length ps)
      (foldl jitter_push rtp_jitter_init (map (receive_packet aes hmac r) arrived))))) = Some (skip_start_code nal)"
proof -
  let ?qs = "map (receive_packet aes hmac r) arrived"
  have joined: "depacketize ps = Some (skip_start_code nal)"
    using depacketize_packetize [OF assms(5,6), of pt seq ts ssrc] assms(3) by simp
  then have ps: "ps \<noteq> []" by (auto simp: depacketize_def)
  have recv: "receive_packet aes hmac r (send_packet aes hmac s p) = p" if "p \<in> set ps" for p
    by (rule receive_send [where hmac = hmac, OF assms(1,2) packetize_built [OF assms(3) that]])
  have "set ?qs = receive_packet aes hmac r ` send_packet aes hmac s ` set ps" by (simp add: assms(7))
  also have "\<dots> = set ps" using recv by (simp add: image_image)
  finally have set_qs: "set ?qs = set ps" .
  then have ne: "?qs \<noteq> []" using ps by auto
  then have "hd ?qs = receive_packet aes hmac r (hd arrived)" by (simp add: hd_map)
  then have "hd ?qs = hd ps" using recv [OF hd_in_set [OF ps]] by (simp add: assms(8))
  from reordered_run [OF packetize_numbers [OF assms(3)] ps assms(4) set_qs ne this] joined
  show ?thesis by simp
qed

lemma media_end_to_end_witness:
  "\<exists>ps seq'. packetize (replicate 2500 0x65) 96 65535 0 1 = (ps, seq') \<and> length ps = 3 \<and>
    (let s = srtp_init (replicate 16 1) (replicate 14 2) True; r = srtp_init (replicate 16 1) (replicate 14 2) False;
         hmac = \<lambda>k x. replicate 20 (hd k + of_nat (length x));
         w = map (send_packet (\<lambda>k b. b) hmac s) ps
     in depacketize (map the (fst (jitter_pops (length ps) (foldl jitter_push rtp_jitter_init
          (map (receive_packet (\<lambda>k b. b) hmac r) [w ! 0, w ! 2, w ! 1, w ! 2]))))) = Some (replicate 2500 0x65))"
proof -
  let ?nal = "replicate 2500 (0x65 :: u8)"
  have raw: "skip_start_code ?nal = ?nal" by (simp add: skip_start_code_def)
  obtain a b c seq' where p: "packetize ?nal 96 65535 0 1 = ([a, b, c], seq')"
    by (simp add: packetize_cases(3) raw fua_loop_simps)
  have "same_keys (srtp_init (replicate 16 1) (replicate 14 2) True) (srtp_init (replicate 16 1) (replicate 14 2) False)"
    by (simp add: same_keys_def srtp_init_def)
  note path = media_end_to_end [where hmac = "\<lambda>k x. replicate 20 (hd k + of_nat (length x))" and
      aes = "\<lambda>k b. b", OF _ this p]
  define w where "w = map (send_packet (\<lambda>k b. b) (\<lambda>k x. replicate 20 (hd k + of_nat (length x)))
    (srtp_init (replicate 16 1) (replicate 14 2) True)) [a, b, c]"
  have "set [w ! 0, w ! 2, w ! 1, w ! 2] = set w" "hd [w ! 0, w ! 2, w ! 1, w ! 2] = hd w"
    by (auto simp: w_def)
  with path [of "[w ! 0, w ! 2, w ! 1, w ! 2]"] raw show ?thesis
    unfolding Let_def w_def [symmetric]
    by (intro exI [of _ "[a, b, c]"] exI [of _ seq']) (simp add: p w_def [symmetric], simp add: w_def)
qed

text \<open>C1. End to end with a loss.  A video unit is cut into packets that make up one aligned FEC group, one of them
  is lost that is neither the first nor the last, and the others arrive in any order, the first one first,
  with the parity packet among them, all of them encrypted.  The receiver, which feeds what it decrypts to
  the FEC decoder and the reordering buffer, joins the whole unit.\<close>

theorem media_survives_loss:
  assumes "\<And>k x. length (hmac k x) = 20" and "same_keys s r"
    and "packetize nal pt seq ts ssrc = (ps, seq')" and "pt AND 0x7F \<noteq> 127"
    and "skip_start_code nal \<noteq> []" and "skip_start_code nal ! 0 AND 0x1F \<noteq> 28"
    and "length ps dvd unat seq" and "unat seq + length ps \<le> 2 ^ 16"
    and "last (fst (encoder_run (XorFecEncoder (length ps)) ps)) = Some f"
    and "0 < m" and "m < length ps - 1"
    and "distinct ord" and "set ord = insert None (Some ` ({..<length ps} - {m}))" and "hd ord = Some 0"
    and "wire = map (\<lambda>x. case x of Some i \<Rightarrow> send_packet aes hmac s (ps ! i) | None \<Rightarrow> send_packet aes hmac s f) ord"
  shows "depacketize (map the (fst (jitter_pops (length ps)
      (snd (foldl receiver_feed (XorFecDecoder (length ps), rtp_jitter_init) (map (receive_packet aes hmac r) wire)))))) =
    Some (skip_start_code nal)"
proof -
  have e: "enc_count (XorFecEncoder (length ps)) = 0" "enc_group_size (XorFecEncoder (length ps)) = length ps"
    by (simp_all add: XorFecEncoder_def)
  have ne: "ps \<noteq> []" using assms(10,11) by auto
  have recv: "receive_packet aes hmac r (send_packet aes hmac s p) = p" if "built p" for p
    by (rule receive_send [where hmac = hmac, OF assms(1,2) that])
  have "built (ps ! i)" if "i < length ps" for i
    using packetize_built [OF assms(3)] that nth_mem by blast
  then have "map (receive_packet aes hmac r) wire = map (fst \<circ> fec_input ps f) ord"
    using assms(13) recv parity_facts(1) [OF e ne assms(9)]
    by (auto simp: assms(15) fec_input_def split: option.splits)
  then show ?thesis
    using repaired_run [OF assms(3,4,7,8) e assms(9-14)] depacketize_packetize [OF assms(5,6), of pt seq ts ssrc] assms(3)
    by simp
qed

lemma media_survives_loss_witness:
  "\<exists>ps seq' f. packetize (replicate 2500 0x65) 96 9 0 1 = (ps, seq') \<and> length ps = 3 \<and>
    last (fst (encoder_run (XorFecEncoder 3) ps)) = Some f \<and>
    (let s = srtp_init (replicate 16 1) (replicate 14 2) True; r = srtp_init (replicate 16 1) (replicate 14 2) False;
         hmac = \<lambda>k x. replicate 20 (hd k + of_nat (length x));
         wire = map (send_packet (\<lambda>k b. b) hmac s) [ps ! 0, f, ps ! 2]
     in depacketize (map the (fst (jitter_pops 3 (snd (foldl receiver_feed (XorFecDecoder 3, rtp_jitter_init)
          (map (receive_packet (\<lambda>k b. b) hmac r) wire)))))) = Some (replicate 2500 0x65))"
proof -
  let ?nal = "replicate 2500 (0x65 :: u8)"
  have raw: "skip_start_code ?nal = ?nal" by (simp add: skip_start_code_def)
  obtain a b c seq' where p: "packetize ?nal 96 9 0 1 = ([a, b, c], seq')"
    by (simp add: packetize_cases(3) raw fua_loop_simps)
  let ?f = "parity_packet (XorFecEncoder 3) [a, b, c]"
  have three: "length [a, b, c] = 3" by simp
  have e3: "last (fst (encoder_run (XorFecEncoder 3) [a, b, c])) = Some ?f"
    by (subst encoder_run_group) (simp_all add: XorFecEncoder_def)
  then have e: "last (fst (encoder_run (XorFecEncoder (length [a, b, c])) [a, b, c])) = Some ?f"
    by (simp only: three)
  have keys: "same_keys (srtp_init (replicate 16 1) (replicate 14 2) True) (srtp_init (replicate 16 1) (replicate 14 2) False)"
    by (simp add: same_keys_def srtp_init_def)
  have ord: "distinct [Some 0, None, Some (2 :: nat)]"
    "set [Some 0, None, Some 2] = insert None (Some ` ({..<length [a, b, c]} - {1}))" by auto
  have *: "(0 :: nat) < 1" "(1 :: nat) < length [a, b, c] - 1" "(96 :: u8) AND 0x7F \<noteq> 127"
    "length [a, b, c] dvd unat (9 :: u16)" "unat (9 :: u16) + length [a, b, c] \<le> 2 ^ 16"
    unfolding three by simp_all
  note res = media_survives_loss [where hmac = "\<lambda>k x. replicate 20 (hd k + of_nat (length x))" and
      aes = "\<lambda>k b. b" and ord = "[Some 0, None, Some 2]" and m = 1, OF _ keys p _ _ _ _ _ e _ _ ord _ refl]
  have wire: "map (\<lambda>x. case x of Some i \<Rightarrow> snd_pkt ([a, b, c] ! i) | None \<Rightarrow> snd_pkt ?f) [Some 0, None, Some 2] =
      map snd_pkt [[a, b, c] ! 0, ?f, [a, b, c] ! 2]" for snd_pkt :: "rtp_packet \<Rightarrow> bytes" by simp
  have "?nal \<noteq> []" "?nal ! 0 AND 0x1F \<noteq> 28" "\<And>k x. length (replicate 20 (hd k + of_nat (length x)) :: bytes) = 20"
    "hd [Some 0, None, Some (2 :: nat)] = Some 0" by simp_all
  note res [unfolded raw wire three, OF this(3) _ this(1,2) _ _ _ _ this(4)]
  with * three show ?thesis
    by (intro exI [of _ "[a, b, c]"] exI [of _ seq'] exI [of _ ?f]) (simp only: p e3 three Let_def simp_thms)
qed

end
